(* ===== verification/Prelude.thy ===== *)
theory Prelude
  imports Main "HOL-Library.Word" "HOL-Library.Monad_Syntax"
begin

text \<open>
  Shared vocabulary of the development: bytes and byte blocks, the little-endian
  integers the on-memory formats are made of, the two's complement reading of a fixed
  width integer, and the memory operations (load, store, \<^verbatim>\<open>memmove\<close>, \<^verbatim>\<open>zrealloc\<close>)
  on a block. A block is the list of the bytes of one allocation. Every access that C
  leaves undefined (a read or a write outside the block) is the value \<^term>\<open>None\<close>,
  so a theorem that an operation returns \<^term>\<open>Some\<close> says that it stays inside.
\<close>

unbundle bit_operations_syntax

type_synonym byte = "8 word"
type_synonym bytes = "byte list"

named_theorems mem_simps \<open>loads and stores on a block written as a concatenation\<close>
named_theorems byte_tests \<open>bit tests on a byte as comparisons of its value\<close>

section \<open>Bytes and integers\<close>

lemma unat_byte_lt [simp]: "unat (b :: byte) < 256"
  using unsigned_less [of b] by simp

lemma unat_of_nat_byte: "unat (word_of_nat n :: byte) = n mod 256"
  by (simp add: unat_of_nat)

lemma unat_of_nat_byte_small [simp]: "n < 256 \<Longrightarrow> unat (word_of_nat n :: byte) = n"
  by (simp add: unat_of_nat)

text \<open>A property of all bytes is decided by its 256 instances.\<close>

lemma byte_exhaust: "(\<forall>n \<in> set [0..<256]. P (word_of_nat n :: byte)) \<Longrightarrow> P b"
proof -
  assume "\<forall>n \<in> set [0..<256]. P (word_of_nat n)"
  moreover have "unat b \<in> set [0..<256]" by simp
  ultimately have "P (word_of_nat (unat b))" by blast
  then show "P b" by simp
qed

subsection \<open>Masks\<close>

lemma byte_full_mask: "b AND 0xFF = (b :: byte)"
proof -
  have "(0xFF :: byte) = - 1" by simp
  then show ?thesis by (simp only: and.right_neutral)
qed

lemma byte_low_mask:
  assumes "m = 2 ^ k - 1"
  shows "unat (b AND word_of_nat m :: byte) = unat b mod 2 ^ k"
proof -
  have "(word_of_nat m :: byte) = mask k" using assms by (simp add: mask_eq_exp_minus_1 of_nat_diff)
  then have "b AND word_of_nat m = take_bit k b" by (simp only: take_bit_eq_mask)
  then show ?thesis by (simp only: unsigned_take_bit_eq) (simp only: take_bit_eq_mod)
qed

lemma byte_high_mask:
  assumes "w AND v = 0" "w OR v = (0xFF :: byte)"
  shows "unat (b AND w) = unat b - unat (b AND v)"
proof -
  have "b = (b AND w) OR (b AND v)" using assms(2) byte_full_mask [of b] by (metis bit.conj_disj_distrib)
  moreover have "(b AND w) + (b AND v) = (b AND w) OR (b AND v)"
    using assms(1) by (intro disjunctive_add) (metis bit_0_eq bit_and_iff bot_apply bot_bool_def) 
  ultimately have "b = (b AND w) + (b AND v)" by simp
  then have "b AND w = b - (b AND v)" by (metis add_diff_cancel_right')
  moreover have "b AND v \<le> b" by (rule word_and_le2)
  ultimately show ?thesis by (simp add: unat_sub)
qed

lemma nat_or_add:
  fixes n c :: nat
  assumes "n < 2 ^ k"
  shows "n OR (c * 2 ^ k) = n + c * 2 ^ k"
proof -
  have "n = take_bit k n" using assms by (simp add: take_bit_nat_eq_self)
  then have "\<not> bit n i \<or> \<not> bit (c * 2 ^ k) i" for i
    by (metis bit_push_bit_iff bit_take_bit_iff not_less push_bit_eq_mult)
  then show ?thesis by (simp add: disjunctive_add)
qed

lemma byte_or_add:
  "n < 2 ^ k \<Longrightarrow> word_of_nat n OR word_of_nat (c * 2 ^ k) = (word_of_nat (n + c * 2 ^ k) :: byte)"
  by (simp only: of_nat_or_eq [symmetric] nat_or_add)

lemma byte_masks [byte_tests]:
  "unat (b AND 0x7F :: byte) = unat b mod 128" "unat (b AND 0x3F :: byte) = unat b mod 64"
  "unat (b AND 0x1F :: byte) = unat b mod 32" "unat (b AND 0xF :: byte) = unat b mod 16"
  using byte_low_mask [of 127 7 b] byte_low_mask [of 63 6 b] byte_low_mask [of 31 5 b] byte_low_mask [of 15 4 b]
  by simp_all

lemma div_range: "0 < q \<Longrightarrow> n div q = m \<longleftrightarrow> m * q \<le> n \<and> n < Suc m * (q :: nat)"
proof -
  assume "0 < q"
  moreover have "n div q = m \<longleftrightarrow> m \<le> n div q \<and> n div q < Suc m" by auto
  ultimately show ?thesis by (simp only: less_eq_div_iff_mult_less_eq div_less_iff_less_mult)
qed

lemma byte_high_tests [byte_tests]:
  "(b AND 0x80 = (0 :: byte)) \<longleftrightarrow> unat b < 128"
  "(b AND 0xC0 = (0x80 :: byte)) \<longleftrightarrow> 128 \<le> unat b \<and> unat b < 192"
  "(b AND 0xE0 = (0xC0 :: byte)) \<longleftrightarrow> 192 \<le> unat b \<and> unat b < 224"
  "(b AND 0xF0 = (0xE0 :: byte)) \<longleftrightarrow> 224 \<le> unat b \<and> unat b < 240"
proof -
  have h: "unat (b AND 0x80) = 128 * (unat b div 128)" "unat (b AND 0xC0) = 64 * (unat b div 64)"
    "unat (b AND 0xE0) = 32 * (unat b div 32)" "unat (b AND 0xF0) = 16 * (unat b div 16)"
    using byte_high_mask [of 128 127 b] byte_high_mask [of 192 63 b]
      byte_high_mask [of 224 31 b] byte_high_mask [of 240 15 b]
    by (simp_all add: byte_masks minus_mod_eq_mult_div)
  have d: "128 * (n div 128) = 0 \<longleftrightarrow> n < 128" "64 * (n div 64) = 128 \<longleftrightarrow> 128 \<le> n \<and> n < 192"
    "32 * (n div 32) = 192 \<longleftrightarrow> 192 \<le> n \<and> n < 224" "16 * (n div 16) = 224 \<longleftrightarrow> 224 \<le> n \<and> n < 240"
    for n :: nat
    using div_range [of 64 n 2] div_range [of 32 n 6] div_range [of 16 n 14] by (auto simp: div_eq_0_iff)
  have u: "unat (0 :: byte) = 0" "unat (0x80 :: byte) = 128" "unat (0xC0 :: byte) = 192" "unat (0xE0 :: byte) = 224"
    by simp_all
  show "(b AND 0x80 = (0 :: byte)) \<longleftrightarrow> unat b < 128"
    "(b AND 0xC0 = (0x80 :: byte)) \<longleftrightarrow> 128 \<le> unat b \<and> unat b < 192"
    "(b AND 0xE0 = (0xC0 :: byte)) \<longleftrightarrow> 192 \<le> unat b \<and> unat b < 224"
    "(b AND 0xF0 = (0xE0 :: byte)) \<longleftrightarrow> 224 \<le> unat b \<and> unat b < 240"
    using h u d by (simp_all only: word_unat_eq_iff)
qed

lemma byte_ors:
  "n < 128 \<Longrightarrow> word_of_nat n OR 128 = (word_of_nat (n + 128) :: byte)"
  "n < 64 \<Longrightarrow> word_of_nat n OR 0x80 = (word_of_nat (n + 128) :: byte)"
  "n < 32 \<Longrightarrow> word_of_nat n OR 0xC0 = (word_of_nat (n + 192) :: byte)"
  "n < 16 \<Longrightarrow> word_of_nat n OR 0xE0 = (word_of_nat (n + 224) :: byte)"
  using byte_or_add [of n 7 1] byte_or_add [of n 6 3] byte_or_add [of n 5 7] byte_or_add [of n 5 6] by simp_all

lemma byte_eq_iff: "b = word_of_nat n \<longleftrightarrow> unat (b :: byte) = n mod 256"
  by (simp add: word_unat_eq_iff unat_of_nat_byte)

subsection \<open>Little-endian unsigned integers\<close>

fun le_bytes :: "nat \<Rightarrow> nat \<Rightarrow> bytes" where
  "le_bytes 0 v = []"
| "le_bytes (Suc n) v = word_of_nat v # le_bytes n (v div 256)"

fun le_val :: "bytes \<Rightarrow> nat" where
  "le_val [] = 0"
| "le_val (b # bs) = unat b + 256 * le_val bs"

lemma length_le_bytes [simp]: "length (le_bytes n v) = n"
  by (induction n arbitrary: v) auto

lemma le_val_bound: "le_val bs < 256 ^ length bs"
proof (induction bs)
  case (Cons b bs)
  have "x + 256 * y < 256 * p" if "x < 256" "y < p" for x y p :: nat
    using that by linarith
  from this [OF unat_byte_lt Cons.IH] show ?case by simp
qed simp

lemma le_val_le_bytes: "le_val (le_bytes n v) = v mod 256 ^ n"
proof (induction n arbitrary: v)
  case (Suc n)
  have "v mod (256 * 256 ^ n) = 256 * (v div 256 mod 256 ^ n) + v mod 256"
    by (rule mod_mult2_eq)
  then show ?case by (simp add: Suc unat_of_nat_byte)
qed simp

lemma le_val_le_bytes_small [simp]: "v < 256 ^ n \<Longrightarrow> le_val (le_bytes n v) = v"
  by (simp add: le_val_le_bytes)

lemma le_bytes_le_val: "length bs = n \<Longrightarrow> le_bytes n (le_val bs) = bs"
proof (induction bs arbitrary: n)
  case (Cons b bs)
  have "unat (word_of_nat (unat b + 256 * le_val bs) :: byte) = unat b"
    by (simp only: unat_of_nat_byte) simp
  then have "(word_of_nat (unat b + 256 * le_val bs) :: byte) = b"
    by (simp only: word_unat_eq_iff)
  with Cons show ?case by auto
qed simp

subsection \<open>Two's complement\<close>

definition s2u :: "nat \<Rightarrow> int \<Rightarrow> nat" where
  "s2u w z = nat (z mod 2 ^ w)"

definition u2s :: "nat \<Rightarrow> nat \<Rightarrow> int" where
  "u2s w n = (if n < 2 ^ (w - 1) then int n else int n - 2 ^ w)"

definition fits :: "nat \<Rightarrow> int \<Rightarrow> bool" where
  "fits w z \<longleftrightarrow> - (2 ^ (w - 1)) \<le> z \<and> z < 2 ^ (w - 1)"

abbreviation int64 :: "int \<Rightarrow> bool" where
  "int64 z \<equiv> fits 64 z"

lemma fits_mono: "fits v z \<Longrightarrow> v \<le> w \<Longrightarrow> fits w z"
proof -
  assume "fits v z" "v \<le> w"
  moreover from \<open>v \<le> w\<close> have "(2::int) ^ (v - 1) \<le> 2 ^ (w - 1)" by (intro power_increasing) auto
  ultimately show ?thesis unfolding fits_def by linarith
qed

lemma s2u_lt [simp]: "s2u w z < 2 ^ w"
proof -
  have "z mod 2 ^ w < 2 ^ w" by simp
  then have "nat (z mod 2 ^ w) < nat (2 ^ w)" by (simp add: nat_less_iff)
  then show ?thesis by (simp add: s2u_def nat_power_eq)
qed

lemma u2s_s2u:
  assumes "fits w z" "0 < w"
  shows "u2s w (s2u w z) = z"
proof -
  from \<open>0 < w\<close> have two: "(2::int) ^ w = 2 * 2 ^ (w - 1)" by (cases w) auto
  have pow: "int (2 ^ (w - 1)) = 2 ^ (w - 1)" by simp
  show ?thesis
  proof (cases "0 \<le> z")
    case True
    then have "z mod 2 ^ w = z" using assms two by (auto simp: fits_def)
    then show ?thesis using True assms pow
      by (auto simp: s2u_def u2s_def fits_def nat_less_iff)
  next
    case False
    have "z mod 2 ^ w = (z + 2 ^ w) mod 2 ^ w" by simp
    also have "\<dots> = z + 2 ^ w"
    proof (rule mod_pos_pos_trivial)
      show "0 \<le> z + 2 ^ w" using assms(1) two unfolding fits_def by linarith
      show "z + 2 ^ w < 2 ^ w" using False by simp
    qed
    finally have m: "z mod 2 ^ w = z + 2 ^ w" .
    have lo: "2 ^ (w - 1) \<le> z + 2 ^ w" using assms(1) two unfolding fits_def by linarith
    have pos: "(0::int) \<le> 2 ^ (w - 1)" by simp
    have "\<not> nat (z + 2 ^ w) < 2 ^ (w - 1)"
    proof
      assume "nat (z + 2 ^ w) < 2 ^ (w - 1)"
      then have "int (nat (z + 2 ^ w)) < int (2 ^ (w - 1))" by (simp only: of_nat_less_iff)
      then show False using lo pos pow by linarith
    qed
    moreover have "int (nat (z + 2 ^ w)) = z + 2 ^ w" using lo pos by linarith
    ultimately show ?thesis by (simp add: s2u_def u2s_def m)
  qed
qed

lemma fits_u2s:
  assumes "n < 2 ^ w" "0 < w"
  shows "fits w (u2s w n)"
proof -
  from \<open>0 < w\<close> have two: "(2::int) ^ w = 2 * 2 ^ (w - 1)" by (cases w) auto
  have "int n < int (2 ^ w)" using assms(1) by (simp only: of_nat_less_iff)
  then have n: "int n < 2 ^ w" by simp
  show ?thesis
  proof (cases "n < 2 ^ (w - 1)")
    case True
    then have "int n < int (2 ^ (w - 1))" by (simp only: of_nat_less_iff)
    moreover have "- (2 ^ (w - 1)) \<le> int n" by (rule order_trans [of _ 0]) simp_all
    ultimately show ?thesis using True unfolding fits_def u2s_def by simp
  next
    case False
    then have "int (2 ^ (w - 1)) \<le> int n" by (simp only: of_nat_le_iff)
    then show ?thesis using False n two by (simp add: fits_def u2s_def)
  qed
qed

subsection \<open>Unsigned 32 bit arithmetic\<close>

definition u32sub :: "nat \<Rightarrow> nat \<Rightarrow> nat" where
  "u32sub a b = (a + 2 ^ 32 - b) mod 2 ^ 32"

lemma u32sub_small [simp]: "b \<le> a \<Longrightarrow> a < 2 ^ 32 \<Longrightarrow> u32sub a b = a - b"
proof -
  assume "b \<le> a" "a < 2 ^ 32"
  then have "a + 2 ^ 32 - b = a - b + 2 ^ 32" "a - b < 2 ^ 32" by linarith+
  then show ?thesis by (simp only: u32sub_def mod_add_self2 mod_less)
qed

definition u32add :: "nat \<Rightarrow> nat \<Rightarrow> nat" where
  "u32add a b = (a + b) mod 2 ^ 32"

lemma u32add_small [simp]: "a + b < 2 ^ 32 \<Longrightarrow> u32add a b = a + b"
  by (simp add: u32add_def)

lemma u2s_nonneg: "n < 2 ^ (w - 1) \<Longrightarrow> u2s w n = int n"
  by (simp add: u2s_def)

section \<open>Blocks of memory\<close>

definition rd :: "bytes \<Rightarrow> nat \<Rightarrow> byte option" where
  "rd m i = (if i < length m then Some (m ! i) else None)"

definition rdn :: "bytes \<Rightarrow> nat \<Rightarrow> nat \<Rightarrow> bytes option" where
  "rdn m i n = (if i + n \<le> length m then Some (take n (drop i m)) else None)"

definition wr :: "bytes \<Rightarrow> nat \<Rightarrow> bytes \<Rightarrow> bytes option" where
  "wr m i v = (if i + length v \<le> length m
     then Some (take i m @ v @ drop (i + length v) m) else None)"

definition memmove :: "bytes \<Rightarrow> nat \<Rightarrow> nat \<Rightarrow> nat \<Rightarrow> bytes option" where
  "memmove m dst src n = do { v \<leftarrow> rdn m src n; wr m dst v }"

text \<open>
  \<^verbatim>\<open>zmalloc\<close> and \<^verbatim>\<open>zrealloc\<close> (\<^verbatim>\<open>zmalloc.c\<close>) never return NULL: they stop the server when
  memory runs out. The allocator below them decides how many usable bytes a request
  really gets (\<open>slack\<close> more than asked for) and what the new bytes hold (\<open>junk\<close>);
  both are parameters of every operation that allocates.
\<close>

record allocator =
  slack :: "nat \<Rightarrow> nat"
  junk :: "nat \<Rightarrow> byte"

definition zrealloc :: "allocator \<Rightarrow> bytes \<Rightarrow> nat \<Rightarrow> bytes" where
  "zrealloc al m n = (let k = n + slack al n in take k m @ map (junk al) [length m..<k])"

definition zmalloc :: "allocator \<Rightarrow> nat \<Rightarrow> bytes" where
  "zmalloc al n = zrealloc al [] n"

text \<open>An allocator for concrete runs: no slack, new bytes read 0xAA.\<close>

definition exact_alloc :: allocator where
  "exact_alloc = \<lparr>slack = (\<lambda>_. 0), junk = (\<lambda>_. 0xAA)\<rparr>"

lemma length_zrealloc [simp]: "length (zrealloc al m n) = n + slack al n"
  by (simp add: zrealloc_def Let_def)

lemma length_zmalloc [simp]: "length (zmalloc al n) = n + slack al n"
  by (simp add: zmalloc_def)

lemma zrealloc_keeps: "k \<le> n \<Longrightarrow> k \<le> length m \<Longrightarrow> take k (zrealloc al m n) = take k m"
  by (simp add: zrealloc_def Let_def take_append min_def)

lemma zrealloc_prefix:
  "k \<le> n \<Longrightarrow> k \<le> length m \<Longrightarrow> \<exists>r. zrealloc al m n = take k m @ r"
  by (metis append_take_drop_id zrealloc_keeps)

lemma wr_length: "wr m i v = Some m' \<Longrightarrow> length m' = length m"
  by (auto simp: wr_def split: if_splits)

lemma rd_append [mem_simps]: "i = length a \<Longrightarrow> rd (a @ b # c) i = Some b"
  by (simp add: rd_def nth_append)

lemma rdn_append [mem_simps]:
  "i = length a \<Longrightarrow> n = length b \<Longrightarrow> rdn (a @ b @ c) i n = Some b"
  by (simp add: rdn_def)

lemma wr_append [mem_simps]:
  "i = length a \<Longrightarrow> length v = length b \<Longrightarrow> wr (a @ b @ c) i v = Some (a @ v @ c)"
  by (simp add: wr_def)

lemma memmove_Some:
  "src + n \<le> length m \<Longrightarrow> dst + n \<le> length m \<Longrightarrow>
   memmove m dst src n = Some (take dst m @ take n (drop src m) @ drop (dst + n) m)"
  by (simp add: memmove_def rdn_def wr_def)

text \<open>Opening a gap of \<open>k\<close> bytes in front of \<open>b\<close>, and closing the gap \<open>d\<close>.\<close>

lemma memmove_up [mem_simps]:
  assumes "k \<le> length r" "dst = length a + k" "src = length a" "n = length b"
  shows "memmove (a @ b @ r) dst src n = Some (a @ take k (b @ r) @ b @ drop k r)"
  using assms by (simp add: memmove_def rdn_def wr_def take_drop)

lemma memmove_down [mem_simps]:
  assumes "dst = length a" "src = length a + length d" "n = length b"
  shows "memmove (a @ d @ b @ r) dst src n = Some (a @ b @ drop (length b) (d @ b) @ r)"
  using assms by (simp add: memmove_def rdn_def wr_def)

end
