(* ===== verification/Interfaces.thy ===== *)
theory Interfaces
  imports Prelude
begin

text \<open>
  The contracts one component relies on when it uses another, as locales. Each operation
  returns \<^term>\<open>None\<close> when the C code would fail an assertion or leave its memory; the laws
  promise that it does not. The providers interpret the locales in their own theories.
\<close>

section \<open>Loops over the arguments of a command\<close>

text \<open>
  A command applies one operation to each of its arguments and counts how often the
  operation reports a change.
\<close>

fun count_loop :: "('s \<Rightarrow> 'a \<Rightarrow> ('s \<times> bool) option) \<Rightarrow> 's \<Rightarrow> 'a list \<Rightarrow> nat \<Rightarrow> ('s \<times> nat) option" where
  "count_loop f s [] n = Some (s, n)"
| "count_loop f s (x # xs) n = do {
     (s, changed) \<leftarrow> f s x;
     count_loop f s xs (if changed then n + 1 else n)
   }"

text \<open>
  A command that removes its arguments stops as soon as nothing is left, and then deletes the key; the flag tells it to.
\<close>

fun remove_loop :: "('s \<Rightarrow> 'a \<Rightarrow> ('s \<times> bool) option) \<Rightarrow> ('s \<Rightarrow> nat) \<Rightarrow> 's \<Rightarrow> 'a list \<Rightarrow> nat \<Rightarrow> ('s \<times> nat \<times> bool) option" where
  "remove_loop f sz s [] n = Some (s, n, False)"
| "remove_loop f sz s (x # xs) n = do {
     (s, changed) \<leftarrow> f s x;
     if changed then
       (let n = n + 1 in if sz s = 0 then Some (s, n, True) else remove_loop f sz s xs n)
     else remove_loop f sz s xs n
   }"

section \<open>Finite sets with bounded capacity\<close>

locale bounded_set =
  fixes add :: "'s \<Rightarrow> 'a \<Rightarrow> ('s \<times> bool) option"
    and del :: "'s \<Rightarrow> 'a \<Rightarrow> ('s \<times> bool) option"
    and mem :: "'s \<Rightarrow> 'a \<Rightarrow> bool option"
    and elems :: "'s \<Rightarrow> 'a set"
    and inv :: "'s \<Rightarrow> bool"
    and valid :: "'a \<Rightarrow> bool"
    and capacity :: nat
  assumes finite_elems: "inv s \<Longrightarrow> finite (elems s)"
    and add_law: "inv s \<Longrightarrow> card (elems s) < capacity \<Longrightarrow> valid x \<Longrightarrow>
      \<exists>s'. add s x = Some (s', x \<notin> elems s) \<and> inv s' \<and> elems s' = insert x (elems s)"
    and del_law: "inv s \<Longrightarrow> card (elems s) < capacity \<Longrightarrow> valid x \<Longrightarrow>
      \<exists>s'. del s x = Some (s', x \<in> elems s) \<and> inv s' \<and> elems s' = elems s - {x}"
    and mem_law: "inv s \<Longrightarrow> card (elems s) < capacity \<Longrightarrow> valid x \<Longrightarrow> mem s x = Some (x \<in> elems s)"
begin

lemma add_all:
  assumes "inv s" "\<forall>x \<in> set xs. valid x" "card (elems s) + length xs \<le> capacity"
  shows "\<exists>s'. count_loop add s xs n = Some (s', n + card (set xs - elems s)) \<and> inv s' \<and>
    elems s' = elems s \<union> set xs"
  using assms
proof (induction xs arbitrary: s n)
  case (Cons x xs)
  from Cons.prems obtain s1 where s1: "add s x = Some (s1, x \<notin> elems s)" "inv s1" "elems s1 = insert x (elems s)"
    using add_law [of s x] by auto
  have fin: "finite (elems s)" using Cons.prems(1) by (rule finite_elems)
  have "card (elems s1) + length xs \<le> capacity"
    using s1(3) card_insert_le_m1 [of "Suc (card (elems s))" "elems s" x] Cons.prems(3) fin
    by (auto simp: card_insert_if split: if_splits)
  with Cons.IH [OF s1(2), of "if x \<notin> elems s then n + 1 else n"] Cons.prems(2)
  obtain s' where s': "count_loop add s1 xs (if x \<notin> elems s then n + 1 else n) =
      Some (s', (if x \<notin> elems s then n + 1 else n) + card (set xs - elems s1))"
    "inv s'" "elems s' = elems s1 \<union> set xs" by auto
  have "(if x \<notin> elems s then n + 1 else n) + card (set xs - elems s1) = n + card (set (x # xs) - elems s)"
  proof (cases "x \<in> elems s")
    case True
    then have "set (x # xs) - elems s = set xs - elems s1" using s1(3) by auto
    then show ?thesis using True by simp
  next
    case False
    then have "set (x # xs) - elems s = insert x (set xs - elems s1)" "x \<notin> set xs - elems s1" using s1(3) by auto
    then show ?thesis using False by simp
  qed
  then show ?case using s' s1 by auto
qed simp

lemma del_all:
  assumes "inv s" "\<forall>x \<in> set xs. valid x" "card (elems s) < capacity"
  shows "\<exists>s'. count_loop del s xs n = Some (s', n + card (set xs \<inter> elems s)) \<and> inv s' \<and>
    elems s' = elems s - set xs"
  using assms
proof (induction xs arbitrary: s n)
  case (Cons x xs)
  from Cons.prems obtain s1 where s1: "del s x = Some (s1, x \<in> elems s)" "inv s1" "elems s1 = elems s - {x}"
    using del_law [of s x] by auto
  have "card (elems s1) \<le> card (elems s)"
    using s1(3) finite_elems [OF Cons.prems(1)] by (simp add: card_Diff1_le)
  with Cons.IH [OF s1(2), of "if x \<in> elems s then n + 1 else n"] Cons.prems
  obtain s' where s': "count_loop del s1 xs (if x \<in> elems s then n + 1 else n) =
      Some (s', (if x \<in> elems s then n + 1 else n) + card (set xs \<inter> elems s1))"
    "inv s'" "elems s' = elems s1 - set xs" by auto
  have "(if x \<in> elems s then n + 1 else n) + card (set xs \<inter> elems s1) = n + card (set (x # xs) \<inter> elems s)"
  proof (cases "x \<in> elems s")
    case True
    then have "set (x # xs) \<inter> elems s = insert x (set xs \<inter> elems s1)" "x \<notin> set xs \<inter> elems s1" using s1(3) by auto
    then show ?thesis using True by simp
  next
    case False
    then have "set (x # xs) \<inter> elems s = set xs \<inter> elems s1" using s1(3) by auto
    then show ?thesis using False by simp
  qed
  then show ?case using s' s1 by auto
qed simp

lemma mem_after_add:
  assumes "inv s" "valid x" "valid y" "card (elems s) + 1 < capacity"
  shows "\<exists>s' b. add s x = Some (s', b) \<and> mem s' y = Some (y = x \<or> y \<in> elems s)"
proof -
  obtain s' where s': "add s x = Some (s', x \<notin> elems s)" "inv s'" "elems s' = insert x (elems s)"
    using add_law [of s x] assms by auto
  have "card (elems s') < capacity"
    using s'(3) assms(4) finite_elems [OF assms(1)] by (simp add: card_insert_if)
  then show ?thesis using s' mem_law [of s' y] assms(3) by auto
qed

lemma mem_after_del:
  assumes "inv s" "valid x" "valid y" "card (elems s) < capacity"
  shows "\<exists>s' b. del s x = Some (s', b) \<and> mem s' y = Some (y \<noteq> x \<and> y \<in> elems s)"
proof -
  obtain s' where s': "del s x = Some (s', x \<in> elems s)" "inv s'" "elems s' = elems s - {x}"
    using del_law [of s x] assms by auto
  have "card (elems s') \<le> card (elems s)"
    using s'(3) finite_elems [OF assms(1)] by (simp add: card_Diff1_le)
  then show ?thesis using s' mem_law [of s' y] assms(3,4) by auto
qed

end

text \<open>Sets that know their number of elements.\<close>

locale sized_set = bounded_set add del mem elems inv valid capacity
  for add :: "'s \<Rightarrow> 'a \<Rightarrow> ('s \<times> bool) option"
    and del :: "'s \<Rightarrow> 'a \<Rightarrow> ('s \<times> bool) option"
    and mem :: "'s \<Rightarrow> 'a \<Rightarrow> bool option"
    and elems :: "'s \<Rightarrow> 'a set"
    and inv :: "'s \<Rightarrow> bool"
    and valid :: "'a \<Rightarrow> bool"
    and capacity :: nat +
  fixes sz :: "'s \<Rightarrow> nat"
  assumes size_law: "inv s \<Longrightarrow> sz s = card (elems s)"
begin

lemma remove_all:
  assumes "inv s" "\<forall>x \<in> set xs. valid x" "card (elems s) < capacity"
  shows "\<exists>s'. remove_loop del sz s xs n = Some (s', n + card (set xs \<inter> elems s), elems s \<noteq> {} \<and> elems s \<subseteq> set xs) \<and> inv s' \<and>
    elems s' = elems s - set xs"
  using assms
proof (induction xs arbitrary: s n)
  case (Cons x xs)
  from Cons.prems obtain s1 where s1: "del s x = Some (s1, x \<in> elems s)" "inv s1" "elems s1 = elems s - {x}"
    using del_law [of s x] by auto
  have fin: "finite (elems s)" "finite (elems s1)" using finite_elems Cons.prems(1) s1(2) by blast+
  have "card (elems s1) \<le> card (elems s)" using s1(3) fin(1) by (simp add: card_Diff1_le)
  then have cap: "card (elems s1) < capacity" using Cons.prems(3) by simp
  have ih: "\<exists>s'. remove_loop del sz s1 xs m = Some (s', m + card (set xs \<inter> elems s1), elems s1 \<noteq> {} \<and> elems s1 \<subseteq> set xs) \<and> inv s' \<and>
    elems s' = elems s1 - set xs" for m using Cons.IH [OF s1(2) _ cap] Cons.prems(2) by simp
  have empty: "sz s1 = 0 \<longleftrightarrow> elems s1 = {}" using size_law [OF s1(2)] fin(2) by simp
  show ?case
  proof (cases "x \<in> elems s")
    case False
    then have "elems s1 = elems s" "set (x # xs) \<inter> elems s = set xs \<inter> elems s" "elems s \<subseteq> set (x # xs) \<longleftrightarrow> elems s \<subseteq> set xs"
      "elems s - set (x # xs) = elems s - set xs" using s1(3) by auto
    then show ?thesis using ih [of n] s1(1) False by simp
  next
    case True
    then have "set (x # xs) \<inter> elems s = insert x (set xs \<inter> elems s1)" "x \<notin> set xs \<inter> elems s1" using s1(3) by auto
    then have c: "card (set (x # xs) \<inter> elems s) = Suc (card (set xs \<inter> elems s1))" by simp
    have sub: "elems s \<subseteq> set (x # xs) \<longleftrightarrow> elems s1 \<subseteq> set xs" "elems s - set (x # xs) = elems s1 - set xs" using s1(3) by auto
    show ?thesis
    proof (cases "elems s1 = {}")
      case e: True
      then have "remove_loop del sz s (x # xs) n = Some (s1, n + 1, True)" using s1(1) True empty by simp
      then show ?thesis unfolding c sub using e True s1(2) by auto
    next
      case ne: False
      then have "remove_loop del sz s (x # xs) n = remove_loop del sz s1 xs (n + 1)" using s1(1) True empty by simp
      then show ?thesis unfolding c sub using ih [of "n + 1"] ne True by auto
    qed
  qed
qed simp

end

section \<open>Double-ended queues\<close>

text \<open>
  The loop that shortens a queue to \<open>n\<close> elements: it deletes at the end as long as the queue is longer.
  It would not end if deleting did not shorten the queue, which is \<^term>\<open>None\<close> here.
\<close>

partial_function (option) trim_loop :: "('s \<Rightarrow> nat) \<Rightarrow> ('s \<Rightarrow> 's option) \<Rightarrow> nat \<Rightarrow> 's \<Rightarrow> 's option" where
  "trim_loop qlen del n s =
    (if qlen s > n then (case del s of None \<Rightarrow> None | Some s \<Rightarrow> trim_loop qlen del n s) else Some s)"

fun push_all :: "('s \<Rightarrow> 'v \<Rightarrow> 's option) \<Rightarrow> 's \<Rightarrow> 'v list \<Rightarrow> 's option" where
  "push_all push s [] = Some s"
| "push_all push s (v # vs) = (case push s v of None \<Rightarrow> None | Some s \<Rightarrow> push_all push s vs)"

locale deque =
  fixes push_front :: "'s \<Rightarrow> 'v \<Rightarrow> 's option"
    and push_back :: "'s \<Rightarrow> 'v \<Rightarrow> 's option"
    and pop_front :: "'s \<Rightarrow> 's option"
    and pop_back :: "'s \<Rightarrow> 's option"
    and qlen :: "'s \<Rightarrow> nat"
    and contents :: "'s \<Rightarrow> 'v list"
    and inv :: "'s \<Rightarrow> bool"
  assumes qlen_law: "inv s \<Longrightarrow> qlen s = length (contents s)"
    and push_front_law: "inv s \<Longrightarrow> \<exists>s'. push_front s v = Some s' \<and> inv s' \<and> contents s' = v # contents s"
    and push_back_law: "inv s \<Longrightarrow> \<exists>s'. push_back s v = Some s' \<and> inv s' \<and> contents s' = contents s @ [v]"
    and pop_front_law: "inv s \<Longrightarrow> contents s \<noteq> [] \<Longrightarrow>
      \<exists>s'. pop_front s = Some s' \<and> inv s' \<and> contents s' = tl (contents s)"
    and pop_back_law: "inv s \<Longrightarrow> contents s \<noteq> [] \<Longrightarrow>
      \<exists>s'. pop_back s = Some s' \<and> inv s' \<and> contents s' = butlast (contents s)"
begin

lemma trim_back: "inv s \<Longrightarrow> \<exists>s'. trim_loop qlen pop_back n s = Some s' \<and> inv s' \<and> contents s' = take n (contents s)"
proof (induction "qlen s - n" arbitrary: s)
  case 0
  then show ?case using qlen_law [of s] by (subst trim_loop.simps) simp
next
  case (Suc k)
  then have sz: "n < length (contents s)" using qlen_law [of s] by simp
  then obtain s1 where s1: "pop_back s = Some s1" "inv s1" "contents s1 = butlast (contents s)"
    using pop_back_law [OF Suc.prems] by fastforce
  have "k = qlen s1 - n" using Suc s1 qlen_law [of s] qlen_law [of s1] by simp
  from Suc.hyps(1) [OF this s1(2)] show ?case using s1 sz qlen_law [OF Suc.prems]
    by (subst trim_loop.simps) (simp add: take_butlast)
qed

lemma push_all_back: "inv s \<Longrightarrow> \<exists>s'. push_all push_back s vs = Some s' \<and> inv s' \<and> contents s' = contents s @ vs"
proof (induction vs arbitrary: s)
  case (Cons v vs)
  obtain s1 where s1: "push_back s v = Some s1" "inv s1" "contents s1 = contents s @ [v]"
    using push_back_law [OF Cons.prems] by blast
  then show ?case using Cons.IH [OF s1(2)] by auto
qed simp

lemma push_all_front: "inv s \<Longrightarrow> \<exists>s'. push_all push_front s vs = Some s' \<and> inv s' \<and> contents s' = rev vs @ contents s"
proof (induction vs arbitrary: s)
  case (Cons v vs)
  obtain s1 where s1: "push_front s v = Some s1" "inv s1" "contents s1 = v # contents s"
    using push_front_law [OF Cons.prems] by blast
  then show ?case using Cons.IH [OF s1(2)] by auto
qed simp

end

end
