(* ===== verification/Intset.thy ===== *)
theory Intset
  imports Interfaces
begin

text \<open>
  \<^verbatim>\<open>redis-stable/src/intset.c\<close>: a sorted array of integers, all stored little-endian with
  the same width (2, 4 or 8 bytes), searched by bisection and widened in place when a
  value does not fit. The struct is a record; its flexible array member is the block
  \<open>contents\<close>. An access outside that block, and a failed \<^verbatim>\<open>assert\<close>, is \<^term>\<open>None\<close>.
\<close>

record intset =
  encoding :: nat
  is_length :: nat
  contents :: bytes

abbreviation INTSET_ENC_INT16 :: nat where "INTSET_ENC_INT16 \<equiv> 2"
abbreviation INTSET_ENC_INT32 :: nat where "INTSET_ENC_INT32 \<equiv> 4"
abbreviation INTSET_ENC_INT64 :: nat where "INTSET_ENC_INT64 \<equiv> 8"
abbreviation SIZE_MAX :: nat where "SIZE_MAX \<equiv> 18446744073709551615"

section \<open>Definitions\<close>

definition intsetValueEncoding :: "int \<Rightarrow> nat" where
  "intsetValueEncoding v =
    (if v < - 2147483648 \<or> v > 2147483647 then INTSET_ENC_INT64
     else if v < - 32768 \<or> v > 32767 then INTSET_ENC_INT32
     else INTSET_ENC_INT16)"

definition intsetGetEncoded :: "intset \<Rightarrow> int \<Rightarrow> nat \<Rightarrow> int option" where
  "intsetGetEncoded is pos enc =
    (if pos < 0 then None
     else if enc = INTSET_ENC_INT64 then
       do { b \<leftarrow> rdn (contents is) (nat pos * 8) 8; Some (u2s 64 (le_val b)) }
     else if enc = INTSET_ENC_INT32 then
       do { b \<leftarrow> rdn (contents is) (nat pos * 4) 4; Some (u2s 32 (le_val b)) }
     else
       do { b \<leftarrow> rdn (contents is) (nat pos * 2) 2; Some (u2s 16 (le_val b)) })"

definition intsetGet_at :: "intset \<Rightarrow> int \<Rightarrow> int option" where
  "intsetGet_at is pos = intsetGetEncoded is pos (encoding is)"

definition intsetSet :: "intset \<Rightarrow> int \<Rightarrow> int \<Rightarrow> intset option" where
  "intsetSet is pos val =
    (if pos < 0 then None
     else if encoding is = INTSET_ENC_INT64 then
       do { c \<leftarrow> wr (contents is) (nat pos * 8) (le_bytes 8 (s2u 64 val)); Some (is\<lparr>contents := c\<rparr>) }
     else if encoding is = INTSET_ENC_INT32 then
       do { c \<leftarrow> wr (contents is) (nat pos * 4) (le_bytes 4 (s2u 32 val)); Some (is\<lparr>contents := c\<rparr>) }
     else
       do { c \<leftarrow> wr (contents is) (nat pos * 2) (le_bytes 2 (s2u 16 val)); Some (is\<lparr>contents := c\<rparr>) })"

definition intsetNew :: "allocator \<Rightarrow> intset" where
  "intsetNew al = \<lparr>encoding = INTSET_ENC_INT16, is_length = 0, contents = drop 8 (zmalloc al 8)\<rparr>"

definition intsetResize :: "allocator \<Rightarrow> intset \<Rightarrow> nat \<Rightarrow> intset option" where
  "intsetResize al is len =
    (let size = len * encoding is in
     if size \<le> SIZE_MAX - 8
     then Some (is\<lparr>contents := drop 8 (zrealloc al (replicate 8 0 @ contents is) (8 + size))\<rparr>)
     else None)"

function intsetSearch_loop :: "intset \<Rightarrow> int \<Rightarrow> int \<Rightarrow> int \<Rightarrow> int \<Rightarrow> int \<Rightarrow> (int \<times> int \<times> int) option" where
  "intsetSearch_loop is val lo hi mid cur =
    (if hi \<ge> lo then
       (let mid = (lo + hi) div 2 in
        case intsetGet_at is mid of
          None \<Rightarrow> None
        | Some cur \<Rightarrow>
            (if val > cur then intsetSearch_loop is val (mid + 1) hi mid cur
             else if val < cur then intsetSearch_loop is val lo (mid - 1) mid cur
             else Some (lo, mid, cur)))
     else Some (lo, mid, cur))"
  by pat_completeness auto
termination
  by (relation "measure (\<lambda>(is, val, lo, hi, mid, cur). nat (hi + 1 - lo))") auto

declare intsetSearch_loop.simps [simp del]

definition intsetSearch :: "intset \<Rightarrow> int \<Rightarrow> (bool \<times> nat) option" where
  "intsetSearch is val =
    (let hi = u2s 32 (u32sub (is_length is) 1) in
     if is_length is = 0 then Some (False, 0)
     else do {
       cmax \<leftarrow> intsetGet_at is hi;
       (if val > cmax then Some (False, is_length is)
        else do {
          c0 \<leftarrow> intsetGet_at is 0;
          (if val < c0 then Some (False, 0)
           else do {
             (lo, mid, cur) \<leftarrow> intsetSearch_loop is val 0 hi (- 1) (- 1);
             (if val = cur then Some (True, nat mid) else Some (False, nat lo))
           })
        })
     })"

fun intsetUpgrade_loop :: "intset \<Rightarrow> nat \<Rightarrow> nat \<Rightarrow> nat \<Rightarrow> intset option" where
  "intsetUpgrade_loop is curenc prepend 0 = Some is"
| "intsetUpgrade_loop is curenc prepend (Suc len) = do {
     v \<leftarrow> intsetGetEncoded is (int len) curenc;
     is \<leftarrow> intsetSet is (int (len + prepend)) v;
     intsetUpgrade_loop is curenc prepend len
   }"

definition intsetUpgradeAndAdd :: "allocator \<Rightarrow> intset \<Rightarrow> int \<Rightarrow> intset option" where
  "intsetUpgradeAndAdd al is val =
    (let curenc = encoding is;
         newenc = intsetValueEncoding val;
         len = is_length is;
         prepend = (if val < 0 then 1 else 0);
         is = is\<lparr>encoding := newenc\<rparr>
     in do {
       is \<leftarrow> intsetResize al is (u32add (is_length is) 1);
       is \<leftarrow> intsetUpgrade_loop is curenc prepend len;
       is \<leftarrow> (if prepend = 1 then intsetSet is 0 val else intsetSet is (int (is_length is)) val);
       Some (is\<lparr>is_length := u32add (is_length is) 1\<rparr>)
     })"

definition intsetMoveTail :: "intset \<Rightarrow> nat \<Rightarrow> nat \<Rightarrow> intset option" where
  "intsetMoveTail is from to =
    (let n = u32sub (is_length is) from;
         sz = (if encoding is = INTSET_ENC_INT64 then 8
               else if encoding is = INTSET_ENC_INT32 then 4 else 2)
     in do {
       c \<leftarrow> memmove (contents is) (to * sz) (from * sz) (n * sz mod 2 ^ 32);
       Some (is\<lparr>contents := c\<rparr>)
     })"

definition intsetAdd :: "allocator \<Rightarrow> intset \<Rightarrow> int \<Rightarrow> (intset \<times> bool) option" where
  "intsetAdd al is val =
    (let valenc = intsetValueEncoding val in
     if valenc > encoding is then do { is \<leftarrow> intsetUpgradeAndAdd al is val; Some (is, True) }
     else do {
       (found, pos) \<leftarrow> intsetSearch is val;
       (if found then Some (is, False)
        else do {
          is \<leftarrow> intsetResize al is (u32add (is_length is) 1);
          is \<leftarrow> (if pos < is_length is then intsetMoveTail is pos (pos + 1) else Some is);
          is \<leftarrow> intsetSet is (int pos) val;
          Some (is\<lparr>is_length := u32add (is_length is) 1\<rparr>, True)
        })
     })"

definition intsetRemove :: "allocator \<Rightarrow> intset \<Rightarrow> int \<Rightarrow> (intset \<times> bool) option" where
  "intsetRemove al is val =
    (let valenc = intsetValueEncoding val in
     if valenc \<le> encoding is then do {
       (found, pos) \<leftarrow> intsetSearch is val;
       (if found then do {
          let len = is_length is;
          is \<leftarrow> (if pos < len - 1 then intsetMoveTail is (pos + 1) pos else Some is);
          is \<leftarrow> intsetResize al is (len - 1);
          Some (is\<lparr>is_length := len - 1\<rparr>, True)
        } else Some (is, False))
     } else Some (is, False))"

definition intsetFind :: "intset \<Rightarrow> int \<Rightarrow> bool option" where
  "intsetFind is val =
    (let valenc = intsetValueEncoding val in
     if valenc \<le> encoding is then do { (found, pos) \<leftarrow> intsetSearch is val; Some found }
     else Some False)"

text \<open>\<^verbatim>\<open>rand()\<close> of the C library is the parameter \<open>r\<close>.\<close>

definition intsetRandom :: "nat \<Rightarrow> intset \<Rightarrow> int option" where
  "intsetRandom r is = (if is_length is = 0 then None else intsetGet_at is (u2s 32 (r mod is_length is)))"

definition intsetMax :: "intset \<Rightarrow> int option" where
  "intsetMax is = intsetGet_at is (u2s 32 (u32sub (is_length is) 1))"

definition intsetMin :: "intset \<Rightarrow> int option" where
  "intsetMin is = intsetGet_at is 0"

definition intsetGet :: "intset \<Rightarrow> nat \<Rightarrow> int option option" where
  "intsetGet is pos =
    (if pos < is_length is then do { v \<leftarrow> intsetGet_at is (u2s 32 pos); Some (Some v) } else Some None)"

definition intsetLen :: "intset \<Rightarrow> nat" where
  "intsetLen is = is_length is"

definition intsetBlobLen :: "intset \<Rightarrow> nat" where
  "intsetBlobLen is = 8 + is_length is * encoding is"

text \<open>The cast \<^verbatim>\<open>(intset *)p\<close> reads the two header words of a serialised set.\<close>

definition intset_of_bytes :: "bytes \<Rightarrow> intset" where
  "intset_of_bytes p =
    \<lparr>encoding = le_val (take 4 p), is_length = le_val (take 4 (drop 4 p)), contents = drop 8 p\<rparr>"

text \<open>The position is a \<^verbatim>\<open>uint32_t\<close> here and an \<^verbatim>\<open>int\<close> in \<^verbatim>\<open>_intsetGet\<close>: from \<open>2 ^ 31\<close> on it arrives negative.\<close>

fun intsetValidate_loop :: "intset \<Rightarrow> nat \<Rightarrow> nat \<Rightarrow> int \<Rightarrow> bool option" where
  "intsetValidate_loop is i 0 prev = Some True"
| "intsetValidate_loop is i (Suc n) prev = do {
     cur \<leftarrow> intsetGet_at is (u2s 32 i);
     (if cur \<le> prev then Some False else intsetValidate_loop is (Suc i) n cur)
   }"

definition intsetValidateIntegrity :: "bytes \<Rightarrow> nat \<Rightarrow> bool \<Rightarrow> bool option" where
  "intsetValidateIntegrity p sz deep =
    (if sz < 8 then Some False
     else
       (let is = intset_of_bytes p; enc = encoding is in
        if enc = INTSET_ENC_INT64 \<or> enc = INTSET_ENC_INT32 \<or> enc = INTSET_ENC_INT16 then
          (let record_size = enc; count = is_length is in
           if 8 + count * record_size \<noteq> sz then Some False
           else if count = 0 then Some False
           else if \<not> deep then Some True
           else do {
             prev \<leftarrow> intsetGet_at is 0;
             intsetValidate_loop is 1 (count - 1) prev
           })
        else Some False))"


section \<open>Representation\<close>

definition enc_int :: "nat \<Rightarrow> int \<Rightarrow> bytes" where
  "enc_int e x = le_bytes e (s2u (8 * e) x)"

definition intset_rep :: "intset \<Rightarrow> int list \<Rightarrow> bool" where
  "intset_rep is xs \<longleftrightarrow>
     encoding is \<in> {2, 4, 8} \<and> is_length is = length xs \<and> sorted_wrt (<) xs \<and>
     (\<forall>x \<in> set xs. fits (8 * encoding is) x) \<and>
     (\<exists>rest. contents is = concat (map (enc_int (encoding is)) xs) @ rest)"

text \<open>The elements, read through the code's own accessor.\<close>

definition intset_elems :: "intset \<Rightarrow> int list" where
  "intset_elems is = map (\<lambda>i. the (intsetGet_at is (int i))) [0..<is_length is]"

definition intset_ok :: "intset \<Rightarrow> bool" where
  "intset_ok is \<longleftrightarrow> intset_rep is (intset_elems is)"

lemma length_enc_int [simp]: "length (enc_int e x) = e"
  by (simp add: enc_int_def)

lemma dec_enc_int: "fits (8 * e) x \<Longrightarrow> 0 < e \<Longrightarrow> u2s (8 * e) (le_val (enc_int e x)) = x"
proof -
  assume "fits (8 * e) x" "0 < e"
  moreover have "(256::nat) ^ e = 2 ^ (8 * e)" by (simp add: power_mult)
  then have "le_val (enc_int e x) = s2u (8 * e) x" by (simp add: enc_int_def le_val_le_bytes)
  ultimately show ?thesis by (simp add: u2s_s2u)
qed

text \<open>Fixed-width records inside a block.\<close>

lemma length_concat_width: "(\<And>x. length (f x) = e) \<Longrightarrow> length (concat (map f xs)) = length xs * e"
  by (induction xs) auto

lemma rdn_width:
  assumes "\<And>x. length (f x) = e" "i < length xs"
  shows "rdn (concat (map f xs) @ r) (i * e) e = Some (f (xs ! i))"
proof -
  have "concat (map f xs) = concat (map f (take i xs)) @ f (xs ! i) @ concat (map f (drop (Suc i) xs))"
    using assms(2) by (subst id_take_nth_drop [OF assms(2)]) simp
  moreover have "length (concat (map f (take i xs))) = i * e"
    using assms by (simp add: length_concat_width min_def)
  ultimately show ?thesis using assms by (simp add: rdn_def)
qed

lemma wr_width:
  assumes "\<And>x. length (f x) = e" "i \<le> length xs" "length c = e"
  shows "wr (concat (map f (take i xs)) @ c @ r) (i * e) (f v) = Some (concat (map f (take i xs)) @ f v @ r)"
  using assms by (simp add: wr_def length_concat_width min_def)

lemma intsetGetEncoded_width:
  assumes "e \<in> {2, 4, 8}" "rdn (contents is) (i * e) e = Some (enc_int e x)" "fits (8 * e) x"
  shows "intsetGetEncoded is (int i) e = Some x"
  using assms dec_enc_int [of e x] by (auto simp: intsetGetEncoded_def)

lemma intsetSet_width:
  assumes "encoding is \<in> {2, 4, 8}" "wr (contents is) (i * encoding is) (enc_int (encoding is) x) = Some c"
  shows "intsetSet is (int i) x = Some (is\<lparr>contents := c\<rparr>)"
  using assms by (auto simp: intsetSet_def enc_int_def)

lemma intsetGet_rep: "intset_rep is xs \<Longrightarrow> i < length xs \<Longrightarrow> intsetGet_at is (int i) = Some (xs ! i)"
  unfolding intsetGet_at_def intset_rep_def
  by (intro intsetGetEncoded_width) (auto simp: rdn_width)

lemma intset_rep_elems: "intset_rep is xs \<Longrightarrow> intset_elems is = xs"
proof -
  assume r: "intset_rep is xs"
  then have "is_length is = length xs" by (simp add: intset_rep_def)
  then show ?thesis using intsetGet_rep [OF r]
    by (intro nth_equalityI) (auto simp: intset_elems_def)
qed

lemma intset_rep_ok: "intset_rep is xs \<Longrightarrow> intset_ok is"
  by (simp add: intset_ok_def intset_rep_elems)

lemma fits_valenc: "int64 v \<Longrightarrow> fits (8 * intsetValueEncoding v) v"
  by (auto simp: intsetValueEncoding_def fits_def)

lemma valenc_range: "intsetValueEncoding v \<in> {2, 4, 8}"
  by (auto simp: intsetValueEncoding_def)

lemma fits_iff_valenc: "int64 v \<Longrightarrow> e \<in> {2, 4, 8} \<Longrightarrow> fits (8 * e) v \<longleftrightarrow> intsetValueEncoding v \<le> e"
  by (auto simp: intsetValueEncoding_def fits_def)

section \<open>Search\<close>

lemma intsetSearch_loop_spec:
  assumes "intset_rep is xs" "0 \<le> lo" "lo \<le> hi + 1" "hi < int (length xs)"
    "\<And>i. i < nat lo \<Longrightarrow> xs ! i < v"
    "\<And>i. nat (hi + 1) \<le> i \<Longrightarrow> i < length xs \<Longrightarrow> v < xs ! i"
    "lo \<le> hi \<or> cur \<noteq> v"
  shows "\<exists>lo' mid' cur'. intsetSearch_loop is v lo hi mid cur = Some (lo', mid', cur') \<and>
    (if v = cur' then nat mid' < length xs \<and> xs ! nat mid' = v
     else nat lo' \<le> length xs \<and> (\<forall>i < nat lo'. xs ! i < v) \<and>
       (\<forall>i. nat lo' \<le> i \<and> i < length xs \<longrightarrow> v < xs ! i))"
  using assms
proof (induction "is" v lo hi mid cur rule: intsetSearch_loop.induct)
  case (1 "is" v lo hi mid cur)
  show ?case
  proof (cases "lo \<le> hi")
    case False
    then have "nat (hi + 1) = nat lo" using "1.prems" by simp
    then show ?thesis using False "1.prems" by (subst intsetSearch_loop.simps) auto
  next
    case True
    define m where "m = (lo + hi) div 2"
    have m: "lo \<le> m" "m \<le> hi" "0 \<le> m" using True "1.prems"(2) by (auto simp: m_def)
    then have mlen: "nat m < length xs" using "1.prems"(4) by linarith
    have get: "intsetGet_at is m = Some (xs ! nat m)"
      using intsetGet_rep [OF "1.prems"(1) mlen] m by simp
    have sorted: "\<And>i j. i < j \<Longrightarrow> j < length xs \<Longrightarrow> xs ! i < xs ! j"
      using "1.prems"(1) by (auto simp: intset_rep_def sorted_wrt_iff_nth_less)
    have unf: "intsetSearch_loop is v lo hi mid cur =
        (if xs ! nat m < v then intsetSearch_loop is v (m + 1) hi m (xs ! nat m)
         else if v < xs ! nat m then intsetSearch_loop is v lo (m - 1) m (xs ! nat m)
         else Some (lo, m, xs ! nat m))"
      using True get by (subst intsetSearch_loop.simps) (simp add: m_def Let_def)
    show ?thesis
    proof (cases rule: linorder_cases [of "xs ! nat m" v])
      case less
      then have ne: "xs ! nat m \<noteq> v" by simp
      have "xs ! i < v" if "i < nat (m + 1)" for i
      proof -
        have "i = nat m \<or> i < nat m" using that m(3) by linarith
        then show ?thesis using less mlen sorted [of i "nat m"] by (auto intro: order_less_trans)
      qed
      then have "\<exists>lo' mid' cur'. intsetSearch_loop is v (m + 1) hi m (xs ! nat m) = Some (lo', mid', cur') \<and>
          (if v = cur' then nat mid' < length xs \<and> xs ! nat mid' = v
           else nat lo' \<le> length xs \<and> (\<forall>i < nat lo'. xs ! i < v) \<and>
             (\<forall>i. nat lo' \<le> i \<and> i < length xs \<longrightarrow> v < xs ! i))"
        using "1.prems" m ne by (intro "1.IH"(1) [OF True m_def get less]) auto
      then show ?thesis using less unf by simp
    next
      case equal
      then show ?thesis using unf mlen by simp
    next
      case greater
      then have ne: "xs ! nat m \<noteq> v" and ng: "\<not> xs ! nat m < v" by simp_all
      have "v < xs ! i" if "nat m \<le> i" "i < length xs" for i
        using that greater sorted [of "nat m" i] by (cases "i = nat m") (auto intro: order_less_trans)
      then have "\<exists>lo' mid' cur'. intsetSearch_loop is v lo (m - 1) m (xs ! nat m) = Some (lo', mid', cur') \<and>
          (if v = cur' then nat mid' < length xs \<and> xs ! nat mid' = v
           else nat lo' \<le> length xs \<and> (\<forall>i < nat lo'. xs ! i < v) \<and>
             (\<forall>i. nat lo' \<le> i \<and> i < length xs \<longrightarrow> v < xs ! i))"
        using "1.prems" m ne by (intro "1.IH"(2) [OF True m_def get ng greater]) auto
      then show ?thesis using greater unf by simp
    qed
  qed
qed

lemma intsetSearch_spec:
  assumes "intset_rep is xs" "length xs < 2 ^ 31"
  shows "\<exists>pos. intsetSearch is v = Some (v \<in> set xs, pos) \<and>
    (if v \<in> set xs then pos < length xs \<and> xs ! pos = v
     else pos \<le> length xs \<and> (\<forall>x \<in> set (take pos xs). x < v) \<and> (\<forall>x \<in> set (drop pos xs). v < x))"
proof -
  have n: "is_length is = length xs" using assms(1) by (simp add: intset_rep_def)
  have sorted: "\<And>i j. i < j \<Longrightarrow> j < length xs \<Longrightarrow> xs ! i < xs ! j"
    using assms(1) by (auto simp: intset_rep_def sorted_wrt_iff_nth_less)
  have case_pos: "?thesis" if s: "intsetSearch is v = Some (False, p)" "p \<le> length xs"
    "\<And>i. i < p \<Longrightarrow> xs ! i < v" "\<And>i. p \<le> i \<Longrightarrow> i < length xs \<Longrightarrow> v < xs ! i" for p
  proof -
    have "v \<notin> set xs" using s(3,4) by (metis in_set_conv_nth less_irrefl not_le)
    moreover have "\<forall>x \<in> set (take p xs). x < v" "\<forall>x \<in> set (drop p xs). v < x"
      using s(2-4) by (auto simp: in_set_conv_nth)
    ultimately show ?thesis using s by auto
  qed
  show ?thesis
  proof (cases "xs = []")
    case True
    then show ?thesis using n by (simp add: intsetSearch_def)
  next
    case False
    let ?hi = "int (length xs) - 1"
    have "u32sub (length xs) 1 = length xs - 1" using False assms(2) by (cases xs) simp_all
    moreover have "length xs - 1 < 2 ^ (32 - 1)" using assms(2) by simp
    ultimately have hi: "u2s 32 (u32sub (length xs) 1) = ?hi"
      using False by (simp only: u2s_nonneg) (cases xs, auto)
    have last: "intsetGet_at is ?hi = Some (xs ! (length xs - 1))"
      using intsetGet_rep [OF assms(1), of "length xs - 1"] False by (cases xs) simp_all
    have first: "intsetGet_at is 0 = Some (xs ! 0)"
      using intsetGet_rep [OF assms(1), of 0] False by simp
    consider "xs ! (length xs - 1) < v" | "v < xs ! 0" "\<not> xs ! (length xs - 1) < v"
      | "\<not> xs ! (length xs - 1) < v" "\<not> v < xs ! 0" by blast
    then show ?thesis
    proof cases
      case 1
      have "xs ! i < v" if "i < length xs" for i
      proof -
        have "i = length xs - 1 \<or> i < length xs - 1" using that by linarith
        moreover have "length xs - 1 < length xs" using False by simp
        ultimately show ?thesis using 1 sorted [of i "length xs - 1"] by (auto intro: order_less_trans)
      qed
      then show ?thesis using 1 n False hi last by (intro case_pos) (auto simp: intsetSearch_def)
    next
      case 2
      have "v < xs ! i" if "i < length xs" for i
        using that 2 sorted [of 0 i] by (cases "i = 0") (auto intro: order_less_trans)
      then show ?thesis using 2 n False hi last first by (intro case_pos) (auto simp: intsetSearch_def)
    next
      case 3
      obtain lo' mid' cur' where l: "intsetSearch_loop is v 0 ?hi (- 1) (- 1) = Some (lo', mid', cur')"
        and r: "if v = cur' then nat mid' < length xs \<and> xs ! nat mid' = v
           else nat lo' \<le> length xs \<and> (\<forall>i < nat lo'. xs ! i < v) \<and>
             (\<forall>i. nat lo' \<le> i \<and> i < length xs \<longrightarrow> v < xs ! i)"
        using intsetSearch_loop_spec [OF assms(1), of 0 ?hi v "- 1" "- 1"] False by auto
      have res: "intsetSearch is v = Some (if v = cur' then (True, nat mid') else (False, nat lo'))"
        using 3 n False hi last first l by (simp add: intsetSearch_def)
      show ?thesis
      proof (cases "v = cur'")
        case True
        then have "v \<in> set xs" using r by (metis nth_mem)
        then show ?thesis using True r res by auto
      next
        case False
        then show ?thesis using r res by (intro case_pos) auto
      qed
    qed
  qed
qed

section \<open>Insertion and deletion\<close>

lemma intsetResize_spec:
  assumes "len * encoding is \<le> SIZE_MAX - 8"
  shows "\<exists>c. intsetResize al is len = Some (is\<lparr>contents := c\<rparr>) \<and> len * encoding is \<le> length c \<and>
    (\<forall>k. k \<le> len * encoding is \<and> k \<le> length (contents is) \<longrightarrow> take k c = take k (contents is))"
proof -
  define c where "c = drop 8 (zrealloc al (replicate 8 0 @ contents is) (8 + len * encoding is))"
  have "take k c = take k (contents is)" if "k \<le> len * encoding is" "k \<le> length (contents is)" for k
  proof -
    have "take (8 + k) (zrealloc al (replicate 8 0 @ contents is) (8 + len * encoding is))
        = take (8 + k) (replicate 8 0 @ contents is)"
      using that by (intro zrealloc_keeps) auto
    then have "drop 8 (take (8 + k) (zrealloc al (replicate 8 0 @ contents is) (8 + len * encoding is)))
        = drop 8 (take (8 + k) (replicate 8 0 @ contents is))" by (simp only:)
    then show ?thesis by (simp add: c_def take_drop add.commute)
  qed
  then show ?thesis using assms by (auto simp: intsetResize_def Let_def c_def)
qed

lemma small_size: "n < 2 ^ 29 \<Longrightarrow> e \<in> {2, 4, 8} \<Longrightarrow> (n + 1) * e \<le> SIZE_MAX - 8"
  by auto

lemma sorted_insert_at:
  "sorted_wrt (<) xs \<Longrightarrow> \<forall>x \<in> set (take p xs). x < v \<Longrightarrow> \<forall>x \<in> set (drop p xs). v < x \<Longrightarrow>
   sorted_wrt (<) (take p xs @ v # drop p (xs :: int list))"
  by (auto simp: sorted_wrt_append sorted_wrt_take sorted_wrt_drop intro: order_less_trans)

lemma set_insert_at: "set (take p xs @ v # drop p xs) = insert v (set xs)"
  by (metis append_take_drop_id set_append list.simps(15) Un_insert_right)

lemma intsetAdd_nogrow:
  assumes r: "intset_rep is xs" and n: "length xs < 2 ^ 29" and v: "int64 v" "intsetValueEncoding v \<le> encoding is"
    and new: "v \<notin> set xs"
  shows "\<exists>is' ys. intsetAdd al is v = Some (is', True) \<and> intset_rep is' ys \<and> set ys = insert v (set xs)"
proof -
  define e where "e = encoding is"
  let ?f = "enc_int e"
  have e: "e \<in> {2, 4, 8}" and len: "is_length is = length xs" using r by (auto simp: intset_rep_def e_def)
  obtain rest where c: "contents is = concat (map ?f xs) @ rest" using r by (auto simp: intset_rep_def e_def)
  obtain pos where pos: "intsetSearch is v = Some (False, pos)" "pos \<le> length xs"
    "\<forall>x \<in> set (take pos xs). x < v" "\<forall>x \<in> set (drop pos xs). v < x"
    using intsetSearch_spec [OF r, of v] n new by auto
  obtain c1 where c1: "intsetResize al is (length xs + 1) = Some (is\<lparr>contents := c1\<rparr>)"
    "(length xs + 1) * e \<le> length c1" "take (length xs * e) c1 = concat (map ?f xs)"
  proof -
    have "length (concat (map ?f xs)) = length xs * e" by (simp add: length_concat_width)
    then show ?thesis using that intsetResize_spec [of "length xs + 1" "is" al] small_size [OF n e] c
      by (auto simp: e_def)
  qed
  let ?A = "take pos xs" and ?B = "drop pos xs"
  define r1 where "r1 = drop (length xs * e) c1"
  have len1: "length (concat (map ?f ?A)) = pos * e" "length (concat (map ?f ?B)) = (length xs - pos) * e"
    using pos(2) by (simp_all add: length_concat_width min_def)
  have "c1 = concat (map ?f (?A @ ?B)) @ r1" using c1(3) by (simp add: r1_def) (metis append_take_drop_id)
  then have c1': "c1 = concat (map ?f ?A) @ concat (map ?f ?B) @ r1"
    by (simp only: map_append concat_append append_assoc)
  have r1: "e \<le> length r1" using c1(2) by (simp add: r1_def)
  have mv: "memmove c1 ((pos + 1) * e) (pos * e) ((length xs - pos) * e) =
      Some (concat (map ?f ?A) @ take e (concat (map ?f ?B) @ r1) @ concat (map ?f ?B) @ drop e r1)"
    unfolding c1' using r1 len1 by (intro memmove_up) simp_all
  have sz: "(if e = 8 then 8 else if e = 4 then 4 else 2) = e" using e by auto
  have small: "(length xs - pos) * e mod 2 ^ 32 = (length xs - pos) * e"
    using n e by auto
  define c2 where "c2 = (if pos < length xs
     then concat (map ?f ?A) @ take e (concat (map ?f ?B) @ r1) @ concat (map ?f ?B) @ drop e r1 else c1)"
  have c2: "\<exists>g r2. length g = e \<and> c2 = concat (map ?f ?A) @ g @ concat (map ?f ?B) @ r2"
  proof (cases "pos < length xs")
    case True
    have "length (take e (concat (map ?f ?B) @ r1)) = e" using r1 by simp
    then show ?thesis using True
      by (intro exI [of _ "take e (concat (map ?f ?B) @ r1)"] exI [of _ "drop e r1"]) (simp add: c2_def)
  next
    case False
    then show ?thesis using r1 by (intro exI [of _ "take e r1"] exI [of _ "drop e r1"]) (simp add: c2_def c1')
  qed
  then obtain g r2 where g: "length g = e" "c2 = concat (map ?f ?A) @ g @ concat (map ?f ?B) @ r2" by blast
  have set: "intsetSet (is\<lparr>contents := c2\<rparr>) (int pos) v =
      Some (is\<lparr>contents := concat (map ?f ?A) @ ?f v @ concat (map ?f ?B) @ r2\<rparr>)"
    using e g len1 by (subst intsetSet_width) (auto simp: e_def [symmetric] intro!: wr_append)
  have mvt: "(if pos < length xs then intsetMoveTail (is\<lparr>contents := c1\<rparr>) pos (pos + 1)
      else Some (is\<lparr>contents := c1\<rparr>)) = Some (is\<lparr>contents := c2\<rparr>)"
    using n mv small sz len pos(2)
    by (auto simp: intsetMoveTail_def Let_def e_def [symmetric] c2_def)
  have u: "u32add (length xs) 1 = length xs + 1" using n by simp
  let ?is = "is\<lparr>contents := concat (map ?f ?A) @ ?f v @ concat (map ?f ?B) @ r2, is_length := length xs + 1\<rparr>"
  have "intsetAdd al is v = Some (?is, True)"
    using v(2) pos(1) c1(1) mvt set len u by (simp add: intsetAdd_def Let_def)
  moreover have "intset_rep ?is (?A @ v # ?B)"
  proof -
    have "\<forall>x \<in> set (?A @ v # ?B). fits (8 * e) x"
      using r v e fits_iff_valenc [of v e] by (auto simp: intset_rep_def e_def [symmetric] dest: in_set_takeD in_set_dropD)
    moreover have "sorted_wrt (<) (?A @ v # ?B)"
      using r pos by (intro sorted_insert_at) (auto simp: intset_rep_def)
    ultimately show ?thesis using e pos(2) unfolding intset_rep_def by (simp add: e_def [symmetric])
  qed
  ultimately show ?thesis
    by (intro exI [of _ ?is] exI [of _ "?A @ v # ?B"]) (simp only: set_insert_at simp_thms)
qed

text \<open>Widening in place, back to front: what is still to be moved is never overwritten.\<close>

definition upgrade_inv :: "nat \<Rightarrow> nat \<Rightarrow> nat \<Rightarrow> int list \<Rightarrow> nat \<Rightarrow> bytes \<Rightarrow> bool" where
  "upgrade_inv e e' prep xs k c \<longleftrightarrow> (length xs + 1) * e' \<le> length c \<and>
     take (k * e) c = concat (map (enc_int e) (take k xs)) \<and>
     take ((length xs - k) * e') (drop ((k + prep) * e') c) = concat (map (enc_int e') (drop k xs))"

lemma upgrade_inv_step:
  assumes inv: "upgrade_inv e e' prep xs (Suc k) c" and k: "k < length xs" and p: "prep \<le> 1" and e: "e \<le> e'"
  shows "rdn c (k * e) e = Some (enc_int e (xs ! k)) \<and>
    (\<exists>c'. wr c ((k + prep) * e') (enc_int e' (xs ! k)) = Some c' \<and> upgrade_inv e e' prep xs k c')"
proof
  have len: "(length xs + 1) * e' \<le> length c" using inv by (simp add: upgrade_inv_def)
  have pre: "take (Suc k * e) c = concat (map (enc_int e) (take k xs)) @ enc_int e (xs ! k)"
    using inv k by (simp add: upgrade_inv_def take_Suc_conv_app_nth)
  have pk: "length (concat (map (enc_int e) (take k xs))) = k * e"
    using k by (simp add: length_concat_width min_def)
  have "Suc k * e \<le> length c"
  proof -
    have "length (take (Suc k * e) c) = Suc k * e" using pre pk by simp
    then show ?thesis by (simp only: length_take min_def split: if_splits)
  qed
  moreover have "take e (drop (k * e) c) = enc_int e (xs ! k)"
  proof -
    have "take e (drop (k * e) c) = drop (k * e) (take (Suc k * e) c)" by (simp add: drop_take)
    then show ?thesis using pre pk by simp
  qed
  ultimately show "rdn c (k * e) e = Some (enc_int e (xs ! k))" by (simp add: rdn_def add.commute)
  define c' where "c' = take ((k + prep) * e') c @ enc_int e' (xs ! k) @ drop ((Suc k + prep) * e') c"
  have room: "(Suc k + prep) * e' \<le> length c"
  proof -
    have "(Suc k + prep) * e' \<le> (length xs + 1) * e'" using k p by (intro mult_le_mono) auto
    then show ?thesis using len by linarith
  qed
  then have w: "wr c ((k + prep) * e') (enc_int e' (xs ! k)) = Some c'"
    by (simp add: wr_def c'_def add.commute add.left_commute)
  have "k * e \<le> (k + prep) * e'" using e by (intro mult_le_mono) auto
  then have "take (k * e) c' = take (k * e) c"
    using room by (simp add: c'_def min_def)
  also have "take (k * e) c = take (k * e) (take (Suc k * e) c)" by (simp add: min_def)
  also have "\<dots> = concat (map (enc_int e) (take k xs))" using pk by (simp only: pre) simp
  finally have "take (k * e) c' = concat (map (enc_int e) (take k xs))" .
  moreover have "take ((length xs - k) * e') (drop ((k + prep) * e') c') = concat (map (enc_int e') (drop k xs))"
  proof -
    have "drop ((k + prep) * e') c' = enc_int e' (xs ! k) @ drop ((Suc k + prep) * e') c"
      using room by (simp add: c'_def)
    moreover have "(length xs - k) * e' = e' + (length xs - Suc k) * e'"
      using k by (simp add: Suc_diff_Suc flip: mult_Suc)
    moreover have "drop k xs = xs ! k # drop (Suc k) xs" using k by (simp add: Cons_nth_drop_Suc)
    ultimately show ?thesis using inv by (simp add: upgrade_inv_def)
  qed
  moreover have "length c' = length c" using w by (rule wr_length)
  ultimately show "\<exists>c'. wr c ((k + prep) * e') (enc_int e' (xs ! k)) = Some c' \<and> upgrade_inv e e' prep xs k c'"
    using w len by (auto simp: upgrade_inv_def)
qed

lemma intsetUpgrade_loop_spec:
  assumes "upgrade_inv e (encoding is) prep xs k (contents is)" "k \<le> length xs" "prep \<le> 1"
    "e \<in> {2, 4, 8}" "encoding is \<in> {2, 4, 8}" "e \<le> encoding is" "\<forall>x \<in> set xs. fits (8 * e) x"
  shows "\<exists>c. intsetUpgrade_loop is e prep k = Some (is\<lparr>contents := c\<rparr>) \<and>
    upgrade_inv e (encoding is) prep xs 0 c"
  using assms
proof (induction k arbitrary: "is")
  case 0
  then show ?case by (intro exI [of _ "contents is"]) simp
next
  case (Suc k)
  from upgrade_inv_step [OF Suc.prems(1)] Suc.prems(2,3,6) obtain c'
    where r: "rdn (contents is) (k * e) e = Some (enc_int e (xs ! k))"
      and w: "wr (contents is) ((k + prep) * encoding is) (enc_int (encoding is) (xs ! k)) = Some c'"
      and inv: "upgrade_inv e (encoding is) prep xs k c'" by auto
  have "intsetGetEncoded is (int k) e = Some (xs ! k)"
    using Suc.prems by (intro intsetGetEncoded_width r) auto
  moreover have "intsetSet is (int (k + prep)) (xs ! k) = Some (is\<lparr>contents := c'\<rparr>)"
    using Suc.prems(5) w by (rule intsetSet_width)
  moreover have "\<exists>c. intsetUpgrade_loop (is\<lparr>contents := c'\<rparr>) e prep k = Some (is\<lparr>contents := c'\<rparr>\<lparr>contents := c\<rparr>) \<and>
      upgrade_inv e (encoding (is\<lparr>contents := c'\<rparr>)) prep xs 0 c"
    using Suc.prems inv by (intro Suc.IH) auto
  ultimately show ?case by auto
qed

lemma outside_width:
  assumes "\<not> fits w v" "fits w x"
  shows "if v < 0 then v < x else x < v"
  using assms by (auto simp: fits_def)

lemma intsetUpgradeAndAdd_spec:
  assumes r: "intset_rep is xs" and n: "length xs < 2 ^ 29"
    and v: "int64 v" "encoding is < intsetValueEncoding v"
  shows "\<exists>is'. intsetUpgradeAndAdd al is v = Some is' \<and>
    intset_rep is' (if v < 0 then v # xs else xs @ [v])"
proof -
  define e where "e = encoding is"
  define e' where "e' = intsetValueEncoding v"
  define prep where "prep = (if v < 0 then 1 else 0 :: nat)"
  let ?is = "is\<lparr>encoding := e'\<rparr>"
  have e: "e \<in> {2, 4, 8}" "e' \<in> {2, 4, 8}" "e < e'" and len: "is_length is = length xs"
    using r v(2) valenc_range by (auto simp: intset_rep_def e_def e'_def)
  have prep: "prep \<le> 1" by (simp add: prep_def)
  have fx: "\<forall>x \<in> set xs. fits (8 * e) x" using r by (simp add: intset_rep_def e_def)
  have fx': "\<forall>x \<in> set xs. fits (8 * e') x" "fits (8 * e') v"
    using fx e(3) fits_valenc [OF v(1)] by (auto simp: e'_def intro: fits_mono [of "8 * e"])
  obtain rest where c: "contents is = concat (map (enc_int e) xs) @ rest"
    using r by (auto simp: intset_rep_def e_def)
  have ne: "length xs * e \<le> (length xs + 1) * e'" using e(3) by (intro mult_le_mono) auto
  obtain c1 where c1: "intsetResize al ?is (length xs + 1) = Some (?is\<lparr>contents := c1\<rparr>)"
    "(length xs + 1) * e' \<le> length c1" "take (length xs * e) c1 = concat (map (enc_int e) xs)"
    using intsetResize_spec [of "length xs + 1" ?is al] small_size [OF n e(2)] c ne
    by (auto simp: length_concat_width)
  have "upgrade_inv e e' prep xs (length xs) c1" using c1(2,3) by (simp add: upgrade_inv_def)
  then obtain c2 where c2: "intsetUpgrade_loop (?is\<lparr>contents := c1\<rparr>) e prep (length xs) =
      Some (?is\<lparr>contents := c2\<rparr>)" and inv: "upgrade_inv e e' prep xs 0 c2"
    using intsetUpgrade_loop_spec [of e "?is\<lparr>contents := c1\<rparr>" prep xs "length xs"] e fx prep
    by (simp add: less_imp_le) blast
  let ?body = "concat (map (enc_int e') xs)"
  have lb: "length ?body = length xs * e'" by (simp add: length_concat_width)
  have len2: "(length xs + 1) * e' \<le> length c2" and mid: "take (length xs * e') (drop (prep * e') c2) = ?body"
    using inv by (simp_all add: upgrade_inv_def)
  have "\<exists>c3 r3. intsetSet (?is\<lparr>contents := c2\<rparr>) (if v < 0 then 0 else int (length xs)) v = Some (?is\<lparr>contents := c3\<rparr>)
      \<and> c3 = (if v < 0 then enc_int e' v @ ?body else ?body @ enc_int e' v) @ r3"
  proof (cases "v < 0")
    case True
    have "take (length xs * e') (drop e' c2) = ?body" using mid True by (simp add: prep_def)
    then have "c2 = take e' c2 @ ?body @ drop (length xs * e') (drop e' c2)"
      by (metis append_take_drop_id)
    moreover have "length (take e' c2) = e'" using len2 by simp
    ultimately have "wr c2 0 (enc_int e' v) = Some ([] @ enc_int e' v @ ?body @ drop (length xs * e') (drop e' c2))"
      by (metis append_Nil length_enc_int list.size(3) wr_append)
    then show ?thesis using True e intsetSet_width [of "?is\<lparr>contents := c2\<rparr>" 0 v] by auto
  next
    case False
    have "take (length xs * e') c2 = ?body" using mid False by (simp add: prep_def)
    then have "c2 = ?body @ take e' (drop (length xs * e') c2) @ drop e' (drop (length xs * e') c2)"
      by (metis append_take_drop_id)
    moreover have "length (take e' (drop (length xs * e') c2)) = e'" using len2 by simp
    ultimately have "wr c2 (length xs * e') (enc_int e' v) =
        Some (?body @ enc_int e' v @ drop e' (drop (length xs * e') c2))"
      using lb by (metis length_enc_int wr_append)
    then show ?thesis using False e intsetSet_width [of "?is\<lparr>contents := c2\<rparr>" "length xs" v] by auto
  qed
  then obtain c3 r3 where c3: "intsetSet (?is\<lparr>contents := c2\<rparr>) (if v < 0 then 0 else int (length xs)) v =
      Some (?is\<lparr>contents := c3\<rparr>)" "c3 = (if v < 0 then enc_int e' v @ ?body else ?body @ enc_int e' v) @ r3"
    by blast
  have u: "u32add (length xs) 1 = length xs + 1" using n by simp
  have "intsetUpgradeAndAdd al is v = Some (?is\<lparr>contents := c3, is_length := length xs + 1\<rparr>)"
    using c1(1) c2 c3(1) len u
    by (cases "v < 0") (simp_all add: intsetUpgradeAndAdd_def Let_def e_def e'_def prep_def)
  moreover have "\<not> fits (8 * e) v" using fits_iff_valenc [OF v(1) e(1)] e(3) by (simp add: e'_def)
  then have "\<forall>x \<in> set xs. if v < 0 then v < x else x < v" using fx outside_width by blast
  then have "intset_rep (?is\<lparr>contents := c3, is_length := length xs + 1\<rparr>) (if v < 0 then v # xs else xs @ [v])"
    using r e(2) fx' c3(2) by (cases "v < 0") (simp_all add: intset_rep_def sorted_wrt_append)
  ultimately show ?thesis by blast
qed

lemma intsetAdd_rep:
  assumes r: "intset_rep is xs" and n: "length xs < 2 ^ 29" and v: "int64 v"
  shows "\<exists>is' ys. intsetAdd al is v = Some (is', v \<notin> set xs) \<and> intset_rep is' ys \<and>
    set ys = insert v (set xs)"
proof (cases "encoding is < intsetValueEncoding v")
  case True
  have "\<forall>x \<in> set xs. fits (8 * encoding is) x" "encoding is \<in> {2, 4, 8}" using r by (auto simp: intset_rep_def)
  then have "v \<notin> set xs" using True fits_iff_valenc [OF v, of "encoding is"] by auto
  moreover obtain is' where "intsetUpgradeAndAdd al is v = Some is'"
    "intset_rep is' (if v < 0 then v # xs else xs @ [v])"
    using intsetUpgradeAndAdd_spec [OF r n v True] by blast
  ultimately show ?thesis using True
    by (intro exI [of _ is'] exI [of _ "if v < 0 then v # xs else xs @ [v]"]) (auto simp: intsetAdd_def)
next
  case False
  show ?thesis
  proof (cases "v \<in> set xs")
    case True
    moreover obtain pos where "intsetSearch is v = Some (True, pos)"
      using intsetSearch_spec [OF r, of v] n True by auto
    ultimately show ?thesis using False r by (intro exI [of _ "is"] exI [of _ xs]) (auto simp: intsetAdd_def)
  next
    case new: False
    then show ?thesis using intsetAdd_nogrow [OF r n v _ new] False by auto
  qed
qed

lemma intsetRemove_rep:
  assumes r: "intset_rep is xs" and n: "length xs < 2 ^ 29" and v: "int64 v"
  shows "\<exists>is' ys. intsetRemove al is v = Some (is', v \<in> set xs) \<and> intset_rep is' ys \<and>
    set ys = set xs - {v}"
proof (cases "v \<in> set xs")
  case False
  then obtain pos where "intsetSearch is v = Some (False, pos)"
    using intsetSearch_spec [OF r, of v] n by auto
  then show ?thesis using False r
    by (intro exI [of _ "is"] exI [of _ xs]) (auto simp: intsetRemove_def Let_def)
next
  case True
  define e where "e = encoding is"
  let ?f = "enc_int e"
  have e: "e \<in> {2, 4, 8}" and len: "is_length is = length xs" using r by (auto simp: intset_rep_def e_def)
  obtain rest where c: "contents is = concat (map ?f xs) @ rest" using r by (auto simp: intset_rep_def e_def)
  have enc: "intsetValueEncoding v \<le> e"
    using True r fits_iff_valenc [OF v e] by (auto simp: intset_rep_def e_def)
  obtain pos where pos: "intsetSearch is v = Some (True, pos)" "pos < length xs" "xs ! pos = v"
    using intsetSearch_spec [OF r, of v] n True by auto
  let ?A = "take pos xs" and ?B = "drop (Suc pos) xs"
  have xs: "xs = ?A @ v # ?B" using id_take_nth_drop [OF pos(2)] pos(3) by simp
  have la: "length (concat (map ?f ?A)) = pos * e" "length (concat (map ?f ?B)) = (length xs - Suc pos) * e"
    using pos(2) by (simp_all add: length_concat_width min_def)
  have "contents is = concat (map ?f (?A @ v # ?B)) @ rest" using c xs by simp
  then have c': "contents is = concat (map ?f ?A) @ ?f v @ concat (map ?f ?B) @ rest"
    by (simp only: map_append list.map concat_append concat.simps append_assoc)
  have sz: "(if e = 8 then 8 else if e = 4 then 4 else 2) = e" using e by auto
  have mv: "memmove (contents is) (pos * e) ((pos + 1) * e) ((length xs - Suc pos) * e) =
      Some (concat (map ?f ?A) @ concat (map ?f ?B) @ drop (length (concat (map ?f ?B))) (?f v @ concat (map ?f ?B)) @ rest)"
    unfolding c' using la by (intro memmove_down) simp_all
  have small: "(length xs - Suc pos) * e mod 2 ^ 32 = (length xs - Suc pos) * e" using n e by auto
  obtain c1 r1 where c1: "(if pos < length xs - 1 then intsetMoveTail is (pos + 1) pos else Some is) =
      Some (is\<lparr>contents := c1\<rparr>)" "c1 = concat (map ?f (?A @ ?B)) @ r1"
  proof (cases "pos < length xs - 1")
    case t: True
    have "u32sub (is_length is) (pos + 1) = length xs - Suc pos" using n pos(2) len by simp
    then have "intsetMoveTail is (pos + 1) pos = Some (is\<lparr>contents := concat (map ?f ?A) @ concat (map ?f ?B) @
        drop (length (concat (map ?f ?B))) (?f v @ concat (map ?f ?B)) @ rest\<rparr>)"
      using mv small sz by (simp only: intsetMoveTail_def Let_def e_def [symmetric]) simp
    then show ?thesis using that t by (simp only: if_True map_append concat_append append_assoc)
  next
    case False
    then have "?B = []" using pos(2) by simp
    then show ?thesis using that [of "contents is" "?f v @ rest"] False c' by simp
  qed
  have lxs: "length (?A @ ?B) = length xs - 1" using pos(2) by simp
  have lcat: "length (concat (map ?f (?A @ ?B))) = (length xs - 1) * e"
    using lxs by (simp only: length_concat_width [OF length_enc_int])
  have lc1: "(length xs - 1) * e \<le> length c1" using lcat by (simp only: c1(2) length_append)
  have "(length xs - 1) * e \<le> (length xs + 1) * e" by (intro mult_le_mono) auto
  then have "(length xs - 1) * encoding (is\<lparr>contents := c1\<rparr>) \<le> SIZE_MAX - 8"
    using small_size [OF n e] by (simp add: e_def)
  from intsetResize_spec [OF this, of al] lc1 obtain c2 where
    c2: "intsetResize al (is\<lparr>contents := c1\<rparr>) (length xs - 1) = Some (is\<lparr>contents := c2\<rparr>)"
      "take ((length xs - 1) * e) c2 = take ((length xs - 1) * e) c1"
    by (auto simp: e_def)
  have "take ((length xs - 1) * e) c1 = concat (map ?f (?A @ ?B))"
    unfolding c1(2) lcat [symmetric] by (simp only: take_append) simp
  then have c2': "\<exists>r2. c2 = concat (map ?f (?A @ ?B)) @ r2" using c2(2) by (metis append_take_drop_id)
  have "intsetRemove al is v = Some (is\<lparr>contents := c2, is_length := length xs - 1\<rparr>, True)"
    using pos(1) enc c1(1) c2(1) len by (simp add: intsetRemove_def Let_def e_def)
  moreover have "sorted_wrt (<) (?A @ v # ?B)" using r xs by (simp add: intset_rep_def)
  then have "sorted_wrt (<) (?A @ ?B)" "set (?A @ ?B) = set (?A @ v # ?B) - {v}"
    by (auto simp: sorted_wrt_append)
  moreover have "\<forall>x \<in> set (?A @ v # ?B). fits (8 * e) x" using r xs by (simp add: intset_rep_def e_def)
  ultimately show ?thesis using True e lxs c2' xs
    by (intro exI [of _ "is\<lparr>contents := c2, is_length := length xs - 1\<rparr>"] exI [of _ "?A @ ?B"])
      (simp add: intset_rep_def e_def [symmetric])
qed

lemma intsetFind_rep:
  assumes r: "intset_rep is xs" and n: "length xs < 2 ^ 31" and v: "int64 v"
  shows "intsetFind is v = Some (v \<in> set xs)"
proof (cases "intsetValueEncoding v \<le> encoding is")
  case True
  then show ?thesis using intsetSearch_spec [OF r n, of v] by (auto simp: intsetFind_def)
next
  case False
  have "\<forall>x \<in> set xs. fits (8 * encoding is) x" "encoding is \<in> {2, 4, 8}" using r by (auto simp: intset_rep_def)
  then have "v \<notin> set xs" using False fits_iff_valenc [OF v, of "encoding is"] by auto
  then show ?thesis using False by (simp add: intsetFind_def)
qed

lemma intsetNew_rep: "intset_rep (intsetNew al) []"
  by (simp add: intsetNew_def intset_rep_def)

section \<open>Validation of a serialised set\<close>

lemma intsetGet_at_high: "i = 2 ^ 31 \<Longrightarrow> intsetGet_at is (u2s 32 i) = None"
  by (simp add: u2s_def intsetGet_at_def intsetGetEncoded_def)

lemma sorted_skip: "p < y \<Longrightarrow> sorted_wrt (<) (p # y # ys) \<longleftrightarrow> sorted_wrt (<) (y # ys)" for p y :: int
  by (auto intro: order_less_trans)

lemma intsetValidate_loop_rep:
  assumes "\<And>j. j < length ys \<Longrightarrow> intsetGet_at is (int (i + j)) = Some (ys ! j)" "i \<le> 2 ^ 31"
  shows "intsetValidate_loop is i (length ys) p =
    (if 2 ^ 31 < i + length ys \<and> sorted_wrt (<) (p # take (2 ^ 31 - i) ys) then None
     else Some (sorted_wrt (<) (p # ys)))"
  using assms
proof (induction ys arbitrary: i p)
  case (Cons y ys)
  show ?case
  proof (cases "i = 2 ^ 31")
    case True
    then show ?thesis using intsetGet_at_high [of i "is"] by simp
  next
    case False
    then have i: "i < 2 ^ 31" using Cons.prems(2) by simp
    then have y: "intsetGet_at is (u2s 32 i) = Some y" using Cons.prems(1) [of 0] by (simp add: u2s_def)
    have t: "take (2 ^ 31 - i) (y # ys) = y # take (2 ^ 31 - Suc i) ys" using i by (simp add: take_Cons')
    have "intsetGet_at is (int (Suc i + j)) = Some (ys ! j)" if "j < length ys" for j
      using Cons.prems(1) [of "Suc j"] that by simp
    then have IH: "intsetValidate_loop is (Suc i) (length ys) y =
      (if 2 ^ 31 < Suc i + length ys \<and> sorted_wrt (<) (y # take (2 ^ 31 - Suc i) ys) then None
       else Some (sorted_wrt (<) (y # ys)))" using i by (intro Cons.IH) auto
    show ?thesis
    proof (cases "p < y")
      case True
      then show ?thesis using y IH unfolding t sorted_skip [OF True] by simp
    next
      case False
      then show ?thesis using y unfolding t by simp
    qed
  qed
qed simp

text \<open>Any block of the right size holds some list of fixed-width integers.\<close>

lemma width_exhaust:
  assumes "0 < e" "length c = n * e"
  shows "\<exists>xs. length xs = n \<and> (\<forall>x \<in> set xs. fits (8 * e) x) \<and> c = concat (map (enc_int e) xs)"
  using assms(2)
proof (induction n arbitrary: c)
  case (Suc n)
  let ?x = "u2s (8 * e) (le_val (take e c))"
  have te: "length (take e c) = e" using Suc.prems by simp
  have b: "le_val (take e c) < 2 ^ (8 * e)" using le_val_bound [of "take e c"] te by (simp add: power_mult)
  have "s2u (8 * e) ?x = le_val (take e c)"
  proof -
    have "?x mod 2 ^ (8 * e) = int (le_val (take e c)) mod 2 ^ (8 * e)" by (simp add: u2s_def)
    also have "\<dots> = int (le_val (take e c))"
    proof (rule mod_pos_pos_trivial)
      have "int (le_val (take e c)) < int (2 ^ (8 * e))" using b by (simp only: of_nat_less_iff)
      then show "int (le_val (take e c)) < 2 ^ (8 * e)" by simp
    qed simp
    finally show ?thesis by (simp add: s2u_def)
  qed
  then have x: "enc_int e ?x = take e c" using te by (simp add: enc_int_def le_bytes_le_val)
  obtain xs where "length xs = n" "\<forall>x \<in> set xs. fits (8 * e) x" "drop e c = concat (map (enc_int e) xs)"
    using Suc.IH [of "drop e c"] Suc.prems by auto
  moreover have "fits (8 * e) ?x" using b assms(1) by (intro fits_u2s) auto
  moreover have "c = enc_int e ?x @ drop e c" using x by simp
  ultimately show ?case by (intro exI [of _ "?x # xs"]) simp
qed simp

lemma intset_rep_of_bytes:
  assumes "encoding is \<in> {2, 4, 8}" "length (contents is) = is_length is * encoding is"
  shows "length (intset_elems is) = is_length is"
    and "intset_ok is \<longleftrightarrow> sorted_wrt (<) (intset_elems is)"
    and "i < is_length is \<Longrightarrow> intsetGet_at is (int i) = Some (intset_elems is ! i)"
proof -
  have "0 < encoding is" using assms(1) by auto
  from width_exhaust [OF this assms(2)] obtain xs where xs: "length xs = is_length is"
    "\<forall>x \<in> set xs. fits (8 * encoding is) x" "contents is = concat (map (enc_int (encoding is)) xs)" by blast
  have get: "intsetGet_at is (int i) = Some (xs ! i)" if "i < length xs" for i
    unfolding intsetGet_at_def using that assms(1) xs rdn_width [of "enc_int (encoding is)" "encoding is" i xs "[]"]
    by (intro intsetGetEncoded_width) auto
  have el: "intset_elems is = xs"
    using get xs(1) by (intro nth_equalityI) (auto simp: intset_elems_def)
  show "length (intset_elems is) = is_length is" using el xs by simp
  show "intset_ok is \<longleftrightarrow> sorted_wrt (<) (intset_elems is)"
    using el xs assms(1) by (auto simp: intset_ok_def intset_rep_def)
  show "i < is_length is \<Longrightarrow> intsetGet_at is (int i) = Some (intset_elems is ! i)" using get el xs by simp
qed

lemma intsetValidate_deep:
  assumes "8 \<le> length p" "encoding (intset_of_bytes p) \<in> {2, 4, 8}"
    "length p = 8 + is_length (intset_of_bytes p) * encoding (intset_of_bytes p)"
    "0 < is_length (intset_of_bytes p)"
  shows "intsetValidateIntegrity p (length p) True =
    (if 2 ^ 31 < is_length (intset_of_bytes p) \<and> sorted_wrt (<) (take (2 ^ 31) (intset_elems (intset_of_bytes p))) then None
     else Some (intset_ok (intset_of_bytes p)))"
proof -
  let ?is = "intset_of_bytes p"
  have "length (contents ?is) = length p - 8" by (simp add: intset_of_bytes_def)
  then have c: "length (contents ?is) = is_length ?is * encoding ?is" using assms(3) by linarith
  note f = intset_rep_of_bytes [OF assms(2) c]
  obtain x ys where xy: "intset_elems ?is = x # ys" using f(1) assms(4) by (cases "intset_elems ?is") auto
  have get: "intsetGet_at ?is (int (1 + j)) = Some (ys ! j)" if "j < length ys" for j
    using f(1) f(3) [of "1 + j"] xy that by simp
  have "intsetGet_at ?is 0 = Some x" using f(3) [of 0] assms(4) xy by simp
  moreover have "intsetValidate_loop ?is 1 (is_length ?is - 1) x =
    (if 2 ^ 31 < is_length ?is \<and> sorted_wrt (<) (take (2 ^ 31) (intset_elems ?is)) then None
     else Some (sorted_wrt (<) (x # ys)))"
  proof -
    have n: "is_length ?is = Suc (length ys)" using f(1) xy by simp
    have "take (2 ^ 31) (intset_elems ?is) = x # take (2 ^ 31 - 1) ys" unfolding xy by (simp add: take_Cons')
    then show ?thesis using intsetValidate_loop_rep [OF get, of x] n by simp
  qed
  moreover have "encoding ?is = 8 \<or> encoding ?is = 4 \<or> encoding ?is = 2" using assms(2) by auto
  moreover have "\<not> length p < 8" "is_length ?is \<noteq> 0" using assms(1,4) by simp_all
  ultimately show ?thesis using f(2) xy
    by (simp only: intsetValidateIntegrity_def Let_def assms(3) [symmetric]) simp
qed

section \<open>The set contract\<close>

lemma intset_ok_card: "intset_ok is \<Longrightarrow> card (set (intset_elems is)) = is_length is"
  by (auto simp: intset_ok_def intset_rep_def distinct_card strict_sorted_iff)

lemma intset_ok_length: "intset_ok is \<Longrightarrow> length (intset_elems is) = is_length is"
  by (simp add: intset_elems_def)

interpretation iset: bounded_set "intsetAdd al" "intsetRemove al" intsetFind "\<lambda>is. set (intset_elems is)"
  intset_ok "fits 64" "2 ^ 29" for al
proof
  fix s x
  assume ok: "intset_ok s" "card (set (intset_elems s)) < 2 ^ 29" "int64 x"
  then have r: "intset_rep s (intset_elems s)" "length (intset_elems s) < 2 ^ 29"
    by (simp_all add: intset_ok_card intset_ok_length) (simp add: intset_ok_def)
  show "\<exists>s'. intsetAdd al s x = Some (s', x \<notin> set (intset_elems s)) \<and> intset_ok s' \<and>
      set (intset_elems s') = insert x (set (intset_elems s))"
    using intsetAdd_rep [OF r ok(3), of al] intset_rep_ok intset_rep_elems by metis
  show "\<exists>s'. intsetRemove al s x = Some (s', x \<in> set (intset_elems s)) \<and> intset_ok s' \<and>
      set (intset_elems s') = set (intset_elems s) - {x}"
    using intsetRemove_rep [OF r ok(3), of al] intset_rep_ok intset_rep_elems by metis
  show "intsetFind s x = Some (x \<in> set (intset_elems s))"
    using intsetFind_rep [OF r(1) _ ok(3)] r(2) by simp
qed simp

interpretation isized: sized_set "intsetAdd al" "intsetRemove al" intsetFind "\<lambda>is. set (intset_elems is)"
  intset_ok "fits 64" "2 ^ 29" intsetLen for al
  by unfold_locales (simp add: intsetLen_def intset_ok_card)

section \<open>Properties\<close>

text \<open>A set of one element for the witnesses.\<close>

definition intset_five :: intset where
  "intset_five = \<lparr>encoding = 2, is_length = 1, contents = [5, 0]\<rparr>"

lemma intset_five: "intset_ok intset_five" "intset_elems intset_five = [5]" "is_length intset_five = 1"
proof -
  have "intset_rep intset_five [5]"
    by (auto simp: intset_rep_def intset_five_def enc_int_def s2u_def fits_def le_bytes.simps numeral_2_eq_2)
  then show "intset_ok intset_five" "intset_elems intset_five = [5]"
    using intset_rep_ok intset_rep_elems by blast+
qed (simp add: intset_five_def)

text \<open>
  C10. \<^verbatim>\<open>intsetAdd\<close> on a well-formed set of fewer than \<open>2 ^ 29\<close> elements returns (no assertion
  fails, no access leaves the array), reports whether the value was new, and yields a
  well-formed set (sorted, one width for all elements, as many as the header says) with
  exactly the old elements and the value, widening the array when the value needs it.
\<close>

theorem intsetAdd_set:
  assumes "intset_ok is" "is_length is < 2 ^ 29" "int64 v"
  shows "\<exists>is'. intsetAdd al is v = Some (is', v \<notin> set (intset_elems is)) \<and> intset_ok is' \<and>
    set (intset_elems is') = insert v (set (intset_elems is))"
  using assms by (intro iset.add_law) (simp_all add: intset_ok_card)

theorem intsetAdd_set_witness:
  "\<exists>is'. intsetAdd exact_alloc intset_five 100000 = Some (is', True) \<and> intset_ok is' \<and>
     set (intset_elems is') = {5, 100000}"
  using intsetAdd_set [of intset_five 100000 exact_alloc] by (simp add: intset_five fits_def insert_commute)

text \<open>
  C22. \<^verbatim>\<open>intsetRemove\<close> on a well-formed set returns, reports whether the value was there, and
  yields a well-formed set with exactly the other elements.
\<close>

theorem intsetRemove_set:
  assumes "intset_ok is" "is_length is < 2 ^ 29" "int64 v"
  shows "\<exists>is'. intsetRemove al is v = Some (is', v \<in> set (intset_elems is)) \<and> intset_ok is' \<and>
    set (intset_elems is') = set (intset_elems is) - {v}"
  using assms by (intro iset.del_law) (simp_all add: intset_ok_card)

theorem intsetRemove_set_witness:
  "\<exists>is'. intsetRemove exact_alloc intset_five 5 = Some (is', True) \<and> intset_ok is' \<and>
     set (intset_elems is') = {}"
  using intsetRemove_set [of intset_five 5 exact_alloc] by (simp add: intset_five fits_def)

text \<open>
  C23. The bisection of \<^verbatim>\<open>intsetFind\<close> ends and answers membership, for every 64-bit value and
  for well-formed sets of fewer than \<open>2 ^ 31\<close> elements.
\<close>

theorem intsetFind_set:
  assumes "intset_ok is" "is_length is < 2 ^ 31" "int64 v"
  shows "intsetFind is v = Some (v \<in> set (intset_elems is))"
  using assms intsetFind_rep [of "is" "intset_elems is" v] by (simp add: intset_ok_def intset_elems_def)

theorem intsetFind_set_witness: "intsetFind intset_five 5 = Some True \<and> intsetFind intset_five 70000 = Some False"
  using intsetFind_set [of intset_five 5] intsetFind_set [of intset_five 70000]
  by (simp add: intset_five fits_def)

text \<open>
  C28. \<^verbatim>\<open>intsetValidateIntegrity\<close> with \<open>deep\<close> set accepts exactly the blobs whose header names a known width, whose size is
  what the header says, which are not empty, and whose elements make a well-formed (strictly sorted) set, and it reads outside
  the blob in exactly one case: the header is right, there are more than \<open>2 ^ 31\<close> elements and the first \<open>2 ^ 31\<close> are sorted.
  Then the position \<open>2 ^ 31\<close> is negative as an \<^verbatim>\<open>int\<close>.
\<close>

theorem intsetValidateIntegrity_deep_iff:
  "intsetValidateIntegrity p (length p) True =
    (if 8 \<le> length p \<and> encoding (intset_of_bytes p) \<in> {2, 4, 8} \<and>
       length p = 8 + is_length (intset_of_bytes p) * encoding (intset_of_bytes p) \<and>
       2 ^ 31 < is_length (intset_of_bytes p) \<and> sorted_wrt (<) (take (2 ^ 31) (intset_elems (intset_of_bytes p))) then None
     else Some (8 \<le> length p \<and> encoding (intset_of_bytes p) \<in> {2, 4, 8} \<and>
       length p = 8 + is_length (intset_of_bytes p) * encoding (intset_of_bytes p) \<and>
       0 < is_length (intset_of_bytes p) \<and> intset_ok (intset_of_bytes p)))"
proof (cases "8 \<le> length p \<and> encoding (intset_of_bytes p) \<in> {2, 4, 8} \<and>
       length p = 8 + is_length (intset_of_bytes p) * encoding (intset_of_bytes p) \<and>
       0 < is_length (intset_of_bytes p)")
  case True
  then show ?thesis using intsetValidate_deep [of p] by simp
next
  case False
  then show ?thesis by (auto simp: intsetValidateIntegrity_def Let_def)
qed

text \<open>
  C35. \<^verbatim>\<open>intsetMoveTail\<close> counts the bytes it moves in a \<^verbatim>\<open>uint32_t\<close>. With \<open>2 ^ 29\<close> elements of 8
  bytes the count wraps to 0: the call that should open a gap at the front moves nothing.
  \<^verbatim>\<open>intsetMaxEntries\<close> of \<^verbatim>\<open>t_set.c\<close> lets sets grow to \<open>2 ^ 30\<close> elements.
\<close>

theorem intsetMoveTail_wraps:
  assumes "is_length is = 2 ^ 29" "encoding is = 8" "8 \<le> length (contents is)"
  shows "intsetMoveTail is 0 1 = Some is"
  using assms by (simp add: intsetMoveTail_def Let_def u32sub_def memmove_def rdn_def wr_def)

theorem intsetMoveTail_wraps_witness:
  "intsetMoveTail \<lparr>encoding = 8, is_length = 536870912, contents = replicate 4294967304 0\<rparr> 0 1 =
     Some \<lparr>encoding = 8, is_length = 536870912, contents = replicate 4294967304 0\<rparr>"
  by (rule intsetMoveTail_wraps) simp_all

end
