(* ===== verification/Util.thy ===== *)
theory Util
  imports Prelude
begin

text \<open>
  \<^verbatim>\<open>redis-stable/src/util.c\<close>: conversions between 64 bit integers and their decimal
  strings, and small string helpers. A C string argument with its length is the list of
  its bytes; a destination buffer is a block, an offset into it and the room \<open>dstlen\<close>
  the caller announces. The reference is \<open>ll_repr\<close>, the usual decimal notation.
\<close>

definition ascii :: "string \<Rightarrow> bytes" where
  "ascii s = map of_char s"

abbreviation ULLONG_MAX :: nat where "ULLONG_MAX \<equiv> 18446744073709551615"
abbreviation LLONG_MAX :: int where "LLONG_MAX \<equiv> 9223372036854775807"
abbreviation LLONG_MIN :: int where "LLONG_MIN \<equiv> - 9223372036854775808"
abbreviation LONG_STR_SIZE :: nat where "LONG_STR_SIZE \<equiv> 21"

section \<open>Definitions\<close>

fun digits10 :: "nat \<Rightarrow> nat" where
  "digits10 v =
    (if v < 10 then 1
     else if v < 100 then 2
     else if v < 1000 then 3
     else if v < 1000000000000 then
       (if v < 100000000 then
          (if v < 1000000 then
             (if v < 10000 then 4 else 5 + of_bool (v \<ge> 100000))
           else 7 + of_bool (v \<ge> 10000000))
        else if v < 10000000000 then 9 + of_bool (v \<ge> 1000000000)
        else 11 + of_bool (v \<ge> 100000000000))
     else 12 + digits10 (v div 1000000000000))"

definition sdigits10 :: "int \<Rightarrow> nat" where
  "sdigits10 v =
    (if v < 0 then
       (let uv = (if v \<noteq> LLONG_MIN then nat (- v) else nat LLONG_MAX + 1) in digits10 uv + 1)
     else digits10 (nat v))"

definition digits :: bytes where
  "digits = ascii (
     ''0001020304050607080910111213141516171819'' @
     ''2021222324252627282930313233343536373839'' @
     ''4041424344454647484950515253545556575859'' @
     ''6061626364656667686970717273747576777879'' @
     ''8081828384858687888990919293949596979899'')"

fun ull2string_loop :: "bytes \<Rightarrow> nat \<Rightarrow> nat \<Rightarrow> nat \<Rightarrow> (bytes \<times> nat \<times> nat) option" where
  "ull2string_loop m dst next value =
    (if value \<ge> 100 then
       (let i = (value mod 100) * 2 in
        do {
          m \<leftarrow> wr m (dst + next) [digits ! (i + 1)];
          m \<leftarrow> wr m (dst + u32sub next 1) [digits ! i];
          ull2string_loop m dst (u32sub next 2) (value div 100)
        })
     else Some (m, next, value))"

declare ull2string_loop.simps [simp del] digits10.simps [simp del]

definition ull2string :: "bytes \<Rightarrow> nat \<Rightarrow> nat \<Rightarrow> nat \<Rightarrow> (bytes \<times> nat) option" where
  "ull2string m dst dstlen value =
    (let len = digits10 value in
     if len \<ge> dstlen then
       (if dstlen > 0 then do { m \<leftarrow> wr m dst [0]; Some (m, 0) } else Some (m, 0))
     else do {
       let next = u32sub len 1;
       m \<leftarrow> wr m (dst + (next + 1)) [0];
       (m, next, value) \<leftarrow> ull2string_loop m dst next value;
       (if value < 10 then do {
          m \<leftarrow> wr m (dst + next) [48 + word_of_nat value];
          Some (m, len)
        } else do {
          let i = value * 2;
          m \<leftarrow> wr m (dst + next) [digits ! (i + 1)];
          m \<leftarrow> wr m (dst + u32sub next 1) [digits ! i];
          Some (m, len)
        })
     })"

definition ll2string :: "bytes \<Rightarrow> nat \<Rightarrow> nat \<Rightarrow> int \<Rightarrow> (bytes \<times> nat) option" where
  "ll2string m dst dstlen svalue =
    (if svalue < 0 then
       (let value = (if svalue \<noteq> LLONG_MIN then nat (- svalue) else nat LLONG_MAX + 1) in
        if dstlen < 2 then
          (if dstlen > 0 then do { m \<leftarrow> wr m dst [0]; Some (m, 0) } else Some (m, 0))
        else do {
          m \<leftarrow> wr m dst [45];
          (m, len) \<leftarrow> ull2string m (dst + 1) (dstlen - 1) value;
          (if len = 0 then Some (m, 0) else Some (m, len + 1))
        })
     else do {
       (m, len) \<leftarrow> ull2string m dst dstlen (nat svalue);
       (if len = 0 then Some (m, 0) else Some (m, len))
     })"

fun string2ll_loop :: "nat \<Rightarrow> bytes \<Rightarrow> (nat \<times> bytes) option" where
  "string2ll_loop v [] = Some (v, [])"
| "string2ll_loop v (c # p) =
    (if 48 \<le> c \<and> c \<le> 57 then
       (if v > ULLONG_MAX div 10 then None
        else if v * 10 > ULLONG_MAX - unat (c - 48) then None
        else string2ll_loop (v * 10 + unat (c - 48)) p)
     else Some (v, c # p))"

definition string2ll :: "bytes \<Rightarrow> int option" where
  "string2ll s =
    (if length s = 0 \<or> length s \<ge> LONG_STR_SIZE then None
     else if length s = 1 \<and> s ! 0 = 48 then Some 0
     else
       (let negative = (s ! 0 = 45);
            p = (if negative then tl s else s)
        in case p of
             [] \<Rightarrow> None
           | c # p' \<Rightarrow>
               (if 49 \<le> c \<and> c \<le> 57 then
                  (case string2ll_loop (unat (c - 48)) p' of
                     None \<Rightarrow> None
                   | Some (v, rest) \<Rightarrow>
                       (if rest \<noteq> [] then None
                        else if negative then
                          (if v > nat (- (LLONG_MIN + 1)) + 1 then None else Some (- int v))
                        else
                          (if int v > LLONG_MAX then None else Some (int v))))
                else None)))"

definition string2l :: "bytes \<Rightarrow> int option" where
  "string2l s =
    (case string2ll s of
       None \<Rightarrow> None
     | Some llval \<Rightarrow> (if llval < LLONG_MIN \<or> llval > LLONG_MAX then None else Some llval))"

fun mempbrk :: "bytes \<Rightarrow> bytes \<Rightarrow> nat option" where
  "mempbrk [] chars = None"
| "mempbrk (c # s) chars = (if c \<in> set chars then Some 0 else map_option Suc (mempbrk s chars))"

fun mapchar :: "byte \<Rightarrow> bytes \<Rightarrow> bytes \<Rightarrow> byte" where
  "mapchar c (f # from) (t # to) = (if c = f then t else mapchar c from to)"
| "mapchar c from to = c"

definition memmapchars :: "bytes \<Rightarrow> bytes \<Rightarrow> bytes \<Rightarrow> bytes" where
  "memmapchars s from to = map (\<lambda>c. mapchar c from to) s"

section \<open>Decimal notation\<close>

fun dec :: "nat \<Rightarrow> bytes" where
  "dec n = (if n < 10 then [48 + word_of_nat n] else dec (n div 10) @ [48 + word_of_nat (n mod 10)])"

declare dec.simps [simp del]

definition ll_repr :: "int \<Rightarrow> bytes" where
  "ll_repr z = (if z < 0 then 45 # dec (nat (- z)) else dec (nat z))"

lemma dec_small [simp]: "n < 10 \<Longrightarrow> dec n = [48 + word_of_nat n]"
  by (simp add: dec.simps)

lemma dec_step: "10 \<le> n \<Longrightarrow> dec n = dec (n div 10) @ [48 + word_of_nat (n mod 10)]"
  by (subst dec.simps) simp

lemma dec_nonempty [simp]: "dec n \<noteq> []"
  by (subst dec.simps) simp

lemma dec_step2:
  assumes "100 \<le> n"
  shows "dec n = dec (n div 100) @ [48 + word_of_nat (n div 10 mod 10), 48 + word_of_nat (n mod 10)]"
proof -
  have "n div 10 div 10 = n div 100" by (simp add: div_mult2_eq [symmetric])
  moreover have "10 \<le> n div 10" using assms by linarith
  ultimately show ?thesis using assms by (simp add: dec_step [of n] dec_step [of "n div 10"])
qed

lemma length_dec_step: "10 \<le> n \<Longrightarrow> length (dec n) = Suc (length (dec (n div 10)))"
  by (simp add: dec_step)

lemma length_dec_bounds: "0 < n \<Longrightarrow> 10 ^ (length (dec n) - 1) \<le> n \<and> n < 10 ^ length (dec n)"
proof (induction n rule: dec.induct)
  case (1 n)
  show ?case
  proof (cases "n < 10")
    case False
    then have IH: "10 ^ (length (dec (n div 10)) - 1) \<le> n div 10" "n div 10 < 10 ^ length (dec (n div 10))"
      using 1 by auto
    obtain k where k: "length (dec (n div 10)) = Suc k"
      by (metis Suc_pred dec_nonempty length_greater_0_conv)
    from IH k have "10 ^ k \<le> n div 10" "n div 10 < 10 * 10 ^ k" by simp_all
    then have "10 * 10 ^ k \<le> n" "n < 10 * (10 * 10 ^ k)" by linarith+
    then show ?thesis using False k by (simp add: length_dec_step)
  qed (use 1 in simp)
qed

lemma length_dec_eq:
  assumes "10 ^ k \<le> n" "n < 10 ^ Suc k"
  shows "length (dec n) = Suc k"
proof -
  have pos: "0 < n" using assms(1) by (metis gr0I not_less power_eq_0_iff le_zero_eq zero_neq_numeral)
  note b = length_dec_bounds [OF pos]
  have "(10::nat) ^ k < 10 ^ length (dec n)" using assms b by linarith
  then have "k < length (dec n)" by simp
  moreover have "(10::nat) ^ (length (dec n) - 1) < 10 ^ Suc k" using assms b by linarith
  then have "length (dec n) - 1 < Suc k" by (simp only: power_strict_increasing_iff)
  ultimately show ?thesis by linarith
qed


lemma length_dec_div: "10 ^ k \<le> v \<Longrightarrow> length (dec v) = k + length (dec (v div 10 ^ k))"
proof (induction k arbitrary: v)
  case (Suc k)
  have "1 * 10 \<le> 10 ^ k * (10::nat)" by (intro mult_le_mono) simp_all
  then have v: "10 \<le> v" using Suc.prems by (simp only: power_Suc mult.commute)
  have "10 ^ k \<le> v div 10"
    using Suc.prems by (simp add: less_eq_div_iff_mult_less_eq mult.commute)
  then have "length (dec (v div 10)) = k + length (dec (v div 10 div 10 ^ k))"
    by (rule Suc.IH)
  then show ?case using length_dec_step [OF v] by (simp only: div_mult2_eq power_Suc add_Suc)
qed simp

lemma digits10_range:
  assumes "10 ^ k \<le> v" "v < 10 ^ Suc k" "k < 12"
  shows "digits10 v = Suc k"
proof -
  have "k = 0 \<or> k = 1 \<or> k = 2 \<or> k = 3 \<or> k = 4 \<or> k = 5 \<or> k = 6 \<or> k = 7 \<or> k = 8
    \<or> k = 9 \<or> k = 10 \<or> k = 11" using assms(3) by arith
  then show ?thesis
    by (elim disjE) (use assms(1,2) in \<open>simp, subst digits10.simps, simp\<close>)+
qed

lemma digits10_dec: "digits10 v = length (dec v)"
proof (induction v rule: digits10.induct)
  case (1 v)
  consider "1000000000000 \<le> v" | "v = 0" | "0 < v" "v < 1000000000000" by linarith
  then show ?case
  proof cases
    case big: 1
    then have "digits10 v = 12 + digits10 (v div 1000000000000)" by (subst digits10.simps) simp
    also have "digits10 (v div 1000000000000) = length (dec (v div 1000000000000))"
      using big by (intro "1.IH") simp_all
    finally show ?thesis using big length_dec_div [of 12 v] by (simp only:) simp
  next
    case 2
    then show ?thesis by (subst digits10.simps) simp
  next
    case 3
    define k where "k = length (dec v) - 1"
    have k: "length (dec v) = Suc k" by (simp add: k_def)
    have b: "10 ^ k \<le> v" "v < 10 ^ Suc k" using length_dec_bounds [OF 3(1)] by (simp_all add: k)
    have "(10::nat) ^ k < 10 ^ 12" using b(1) 3(2) by simp
    then have "k < 12" by (simp only: power_strict_increasing_iff)
    with b k show ?thesis by (simp add: digits10_range)
  qed
qed

lemma length_dec_le20: "v \<le> ULLONG_MAX \<Longrightarrow> length (dec v) \<le> 20"
proof (cases "v = 0")
  case False
  assume "v \<le> ULLONG_MAX"
  then have "(10::nat) ^ (length (dec v) - 1) < 10 ^ 20" using length_dec_bounds [of v] False by simp
  then have "length (dec v) - 1 < 20" by (simp only: power_strict_increasing_iff)
  then show ?thesis by simp
qed simp

lemma digits_table:
  "digits = concat (map (\<lambda>i. [48 + word_of_nat (i div 10), 48 + word_of_nat (i mod 10)]) [0..<100])"
  by (simp add: digits_def ascii_def upt_rec)

lemma nth_concat_pairs:
  "i < n \<Longrightarrow> concat (map (\<lambda>i. [f i, g i]) [0..<n]) ! (i * 2) = f i
     \<and> concat (map (\<lambda>i. [f i, g i]) [0..<n]) ! Suc (i * 2) = g i"
proof (induction n)
  case (Suc n)
  have l: "length (concat (map (\<lambda>i. [f i, g i]) [0..<n])) = n * 2"
    by (induction n) simp_all
  show ?case using Suc l by (cases "i = n") (auto simp: nth_append)
qed simp

lemma digits_nth:
  assumes "i < 100"
  shows "digits ! (i * 2) = 48 + word_of_nat (i div 10)
    \<and> digits ! Suc (i * 2) = 48 + word_of_nat (i mod 10)"
  unfolding digits_table by (rule nth_concat_pairs [OF assms])

lemma ull2string_loop_spec:
  assumes "l = length (dec val)" "l < 2 ^ 32" "dst + l \<le> length m"
  shows "\<exists>val' t. val' < 100 \<and> dec val = dec val' @ t \<and>
    ull2string_loop m dst (l - 1) val =
      Some (take (dst + length (dec val')) m @ t @ drop (dst + l) m, length (dec val') - 1, val')"
  using assms
proof (induction val arbitrary: m l rule: less_induct)
  case (less val)
  show ?case
  proof (cases "100 \<le> val")
    case False
    then show ?thesis using less.prems
      by (intro exI [of _ val] exI [of _ "[]"]) (auto simp: ull2string_loop.simps)
  next
    case True
    define L where "L = length (dec (val div 100))"
    let ?a = "48 + word_of_nat (val div 10 mod 10) :: byte" and ?b = "48 + word_of_nat (val mod 10) :: byte"
    have d: "dec val = dec (val div 100) @ [?a, ?b]" using True by (rule dec_step2)
    have l: "l = L + 2" "0 < L" using less.prems(1) d by (auto simp: L_def)
    define m1 where "m1 = take (dst + L) m @ [?a, ?b] @ drop (dst + l) m"
    have w1: "wr m (dst + (l - 1)) [?b] = Some (take (dst + L + 1) m @ [?b] @ drop (dst + l) m)"
      using less.prems(3) unfolding l by (simp add: wr_def)
    have w2: "wr (take (dst + L + 1) m @ [?b] @ drop (dst + l) m) (dst + L) [?a] = Some m1"
      using less.prems(3) unfolding l m1_def by (simp add: wr_def min_def)
    have dg: "digits ! (val mod 100 * 2) = ?a" "digits ! Suc (val mod 100 * 2) = ?b"
      using digits_nth [of "val mod 100"] by (simp_all add: mod_mult2_eq [of val 10 10, simplified] mod_mod_cancel)
    have "ull2string_loop m dst (l - 1) val = ull2string_loop m1 dst (L - 1) (val div 100)"
      using True w1 w2 dg l less.prems(2) by (subst ull2string_loop.simps) (simp add: Let_def)
    moreover have "val div 100 < val" "L < 2 ^ 32" "dst + L \<le> length m1"
      using True less.prems l by (auto simp: m1_def)
    from less.IH [OF this(1) L_def this(2,3)] obtain val' t
      where "val' < 100" "dec (val div 100) = dec val' @ t"
        "ull2string_loop m1 dst (L - 1) (val div 100) =
          Some (take (dst + length (dec val')) m1 @ t @ drop (dst + L) m1, length (dec val') - 1, val')"
      by blast
    moreover have "length (dec val') \<le> L"
      using calculation(3) by (simp add: L_def)
    moreover have "take (dst + length (dec val')) m1 = take (dst + length (dec val')) m"
      "drop (dst + L) m1 = [?a, ?b] @ drop (dst + l) m"
      using less.prems(3) calculation(5) unfolding l m1_def by (simp_all add: min_def)
    ultimately show ?thesis using d
      by (intro exI [of _ val'] exI [of _ "t @ [?a, ?b]"]) simp
  qed
qed

lemma ull2string_dec:
  assumes "dst + dstlen \<le> length m" "length (dec v) < dstlen" "length (dec v) < 2 ^ 32"
  shows "ull2string m dst dstlen v =
    Some (take dst m @ dec v @ [0] @ drop (dst + length (dec v) + 1) m, length (dec v))"
proof -
  define l where "l = length (dec v)"
  have l: "0 < l" "l < dstlen" "l < 2 ^ 32" using assms by (auto simp: l_def)
  define m0 where "m0 = take (dst + l) m @ [0] @ drop (dst + l + 1) m"
  have w0: "wr m (dst + (l - 1 + 1)) [0] = Some m0"
    using l assms(1) by (simp add: wr_def m0_def)
  have "dst + l \<le> length m0" using l assms(1) by (simp add: m0_def)
  from ull2string_loop_spec [OF l_def l(3) this] obtain v' t
    where v': "v' < 100" "dec v = dec v' @ t"
      and loop: "ull2string_loop m0 dst (l - 1) v =
        Some (take (dst + length (dec v')) m0 @ t @ drop (dst + l) m0, length (dec v') - 1, v')"
    by blast
  have len: "length (dec v') \<le> l" using v'(2) by (simp add: l_def)
  have m1: "take (dst + length (dec v')) m0 = take (dst + length (dec v')) m"
      "drop (dst + l) m0 = [0] @ drop (dst + l + 1) m"
    using len l assms(1) by (simp_all add: m0_def min_def)
  have d: "digits10 v = l" by (simp add: digits10_dec l_def)
  show ?thesis
  proof (cases "v' < 10")
    case True
    then have "wr (take (dst + length (dec v')) m @ t @ [0] @ drop (dst + l + 1) m) dst [48 + word_of_nat v']
        = Some (take dst m @ dec v @ [0] @ drop (dst + l + 1) m)"
      using v'(2) len l assms(1) by (simp add: wr_def min_def)
    then show ?thesis using True d l w0 loop m1 by (simp add: ull2string_def Let_def l_def [symmetric])
  next
    case False
    have dv: "dec v' = [48 + word_of_nat (v' div 10), 48 + word_of_nat (v' mod 10)]"
      using False v'(1) by (simp add: dec_step)
    define m2 where "m2 = take (Suc dst) m @ [48 + word_of_nat (v' mod 10)] @ t @ [0] @ drop (dst + l + 1) m"
    have "wr (take (dst + length (dec v')) m @ t @ [0] @ drop (dst + l + 1) m) (dst + 1)
        [48 + word_of_nat (v' mod 10)] = Some m2"
      using len l assms(1) by (simp add: wr_def min_def m2_def dv)
    moreover have "wr m2 dst [48 + word_of_nat (v' div 10)]
        = Some (take dst m @ dec v @ [0] @ drop (dst + l + 1) m)"
      using v'(2) len l assms(1) by (simp add: wr_def min_def m2_def dv)
    ultimately show ?thesis using False d l w0 loop m1 digits_nth [OF v'(1)]
      by (simp add: ull2string_def Let_def l_def [symmetric] dv)
  qed
qed

lemma int64_iff: "int64 z \<longleftrightarrow> LLONG_MIN \<le> z \<and> z \<le> LLONG_MAX"
  by (auto simp: fits_def)

lemma length_ll_repr: "int64 z \<Longrightarrow> length (ll_repr z) \<le> 20"
proof -
  assume z: "int64 z"
  define n where "n = nat (if z < 0 then - z else z)"
  have n: "n \<le> 9223372036854775808" using z by (auto simp: n_def int64_iff)
  have "length (dec n) \<le> 19"
  proof (cases "n = 0")
    case False
    then have "(10::nat) ^ (length (dec n) - 1) < 10 ^ 19" using length_dec_bounds [of n] n by simp
    then have "length (dec n) - 1 < 19" by (simp only: power_strict_increasing_iff)
    then show ?thesis by simp
  qed simp
  then show ?thesis by (cases "z < 0") (simp_all add: ll_repr_def n_def)
qed

lemma ll2string_spec:
  assumes "int64 z" "dst + dstlen \<le> length m" "length (ll_repr z) < dstlen"
  shows "ll2string m dst dstlen z =
    Some (take dst m @ ll_repr z @ [0] @ drop (dst + length (ll_repr z) + 1) m, length (ll_repr z))"
proof (cases "z < 0")
  case False
  have "length (dec (nat z)) < 2 ^ 32" using length_ll_repr [OF assms(1)] False by (simp add: ll_repr_def)
  then show ?thesis using False assms ull2string_dec [of dst dstlen m "nat z"]
    by (simp add: ll2string_def ll_repr_def)
next
  case True
  have v: "(if z \<noteq> LLONG_MIN then nat (- z) else nat LLONG_MAX + 1) = nat (- z)" by simp
  define m1 where "m1 = take dst m @ [45] @ drop (dst + 1) m"
  have w: "wr m dst [45] = Some m1" using assms(2,3) True by (simp add: wr_def m1_def)
  have len: "length (dec (nat (- z))) < 2 ^ 32" "length (dec (nat (- z))) + 1 < dstlen"
    using length_ll_repr [OF assms(1)] assms(3) True by (simp_all add: ll_repr_def)
  have "ull2string m1 (dst + 1) (dstlen - 1) (nat (- z)) =
      Some (take (dst + 1) m1 @ dec (nat (- z)) @ [0] @ drop (dst + 1 + length (dec (nat (- z))) + 1) m1,
        length (dec (nat (- z))))"
    using len assms(2) True by (intro ull2string_dec) (auto simp: m1_def)
  moreover have "take (dst + 1) m1 = take dst m @ [45]"
    "drop (dst + 1 + length (dec (nat (- z))) + 1) m1 = drop (dst + length (ll_repr z) + 1) m"
    using len assms(2) True by (simp_all add: m1_def ll_repr_def min_def add.commute)
  ultimately show ?thesis using True w len v
    by (simp add: ll2string_def Let_def ll_repr_def)
qed

section \<open>Parsing\<close>

definition is_digit :: "byte \<Rightarrow> bool" where
  "is_digit c \<longleftrightarrow> 48 \<le> c \<and> c \<le> 57"

definition dval :: "nat \<Rightarrow> bytes \<Rightarrow> nat" where
  "dval a p = foldl (\<lambda>a c. a * 10 + unat (c - 48)) a p"

lemma dval_simps [simp]: "dval a [] = a" "dval a (c # p) = dval (a * 10 + unat (c - 48)) p"
  "dval a (p @ [c]) = dval a p * 10 + unat (c - 48)"
  by (simp_all add: dval_def)

lemma dval_ge: "a \<le> dval a p"
proof (induction p arbitrary: a)
  case (Cons c p)
  have "a \<le> a * 10 + unat (c - 48)" by simp
  then show ?case using Cons [of "a * 10 + unat (c - 48)"] by (simp add: order_trans)
qed simp

lemma digit_val: "is_digit c \<Longrightarrow> unat (c - 48) < 10 \<and> 48 + word_of_nat (unat (c - 48)) = c"
proof -
  assume d: "is_digit c"
  then have "unat (c - 48) = unat c - 48" by (simp add: is_digit_def unat_sub)
  moreover have "unat c \<le> 57" using d by (simp add: is_digit_def word_le_nat_alt)
  moreover have "48 + word_of_nat (unat (c - 48)) = c" by simp
  ultimately show ?thesis by linarith
qed

lemma digit_of_nat: "n < 10 \<Longrightarrow> is_digit (48 + word_of_nat n) \<and> unat (48 + word_of_nat n - 48 :: byte) = n"
proof -
  assume "n < 10"
  then have "unat (48 + word_of_nat n :: byte) = 48 + n"
    by (simp add: unat_word_ariths unat_of_nat)
  then show ?thesis using \<open>n < 10\<close> by (simp add: is_digit_def word_le_nat_alt)
qed

lemma string2ll_loop_Some:
  "v \<le> ULLONG_MAX \<Longrightarrow> string2ll_loop v p = Some (v', []) \<longleftrightarrow>
     list_all is_digit p \<and> v' = dval v p \<and> dval v p \<le> ULLONG_MAX"
proof (induction p arbitrary: v)
  case (Cons c p)
  let ?d = "unat (c - 48)"
  show ?case
  proof (cases "is_digit c \<and> v * 10 + ?d \<le> ULLONG_MAX")
    case True
    then have "\<not> ULLONG_MAX div 10 < v" "\<not> ULLONG_MAX - ?d < v * 10" by linarith+
    then show ?thesis using True Cons.IH [of "v * 10 + ?d"] by (simp add: is_digit_def)
  next
    case False
    have "\<not> dval (v * 10 + ?d) p \<le> ULLONG_MAX" if "\<not> v * 10 + ?d \<le> ULLONG_MAX"
      using that dval_ge [of "v * 10 + ?d" p] by linarith
    moreover have "string2ll_loop v (c # p) = None" if d: "is_digit c" "\<not> v * 10 + ?d \<le> ULLONG_MAX"
    proof (cases "ULLONG_MAX div 10 < v")
      case False
      then have "ULLONG_MAX - ?d < v * 10" using d digit_val [OF d(1)] by linarith
      then show ?thesis using d by (simp add: is_digit_def)
    qed (use d in \<open>simp add: is_digit_def\<close>)
    ultimately show ?thesis using False by (cases "is_digit c") (auto simp: is_digit_def)
  qed
qed auto

lemma dec_dval: "1 \<le> d \<Longrightarrow> d < 10 \<Longrightarrow> list_all is_digit p \<Longrightarrow> dec (dval d p) = (48 + word_of_nat d) # p"
proof (induction p rule: rev_induct)
  case (snoc c p)
  have "1 \<le> dval d p" using snoc.prems dval_ge [of d p] by linarith
  then show ?case using snoc digit_val [of c] by (simp add: dec_step)
qed simp

lemma dec_digits:
  "0 < n \<Longrightarrow> \<exists>d p. dec n = (48 + word_of_nat d) # p \<and> 1 \<le> d \<and> d < 10 \<and> list_all is_digit p \<and> dval d p = n"
proof (induction n rule: dec.induct)
  case (1 n)
  show ?case
  proof (cases "n < 10")
    case True
    then show ?thesis using 1 by (intro exI [of _ n] exI [of _ "[]"]) simp
  next
    case False
    then obtain d p where "dec (n div 10) = (48 + word_of_nat d) # p" "1 \<le> d" "d < 10"
      "list_all is_digit p" "dval d p = n div 10"
      using 1 by (metis div_greater_zero_iff not_less zero_less_numeral)
    then show ?thesis using False digit_of_nat [of "n mod 10"]
      by (intro exI [of _ d] exI [of _ "p @ [48 + word_of_nat (n mod 10)]"]) (simp add: dec_step)
  qed
qed

lemma string2ll_ll_repr: "int64 z \<Longrightarrow> string2ll (ll_repr z) = Some z"
proof -
  assume z: "int64 z"
  have len: "\<not> LONG_STR_SIZE \<le> length (ll_repr z)" using length_ll_repr [OF z] by simp
  show ?thesis
  proof (cases "z = 0")
    case True
    then show ?thesis by (simp add: string2ll_def ll_repr_def)
  next
    case False
    define n where "n = nat \<bar>z\<bar>"
    have "0 < n" using False by (simp add: n_def)
    from dec_digits [OF this] obtain d p where dp: "dec n = (48 + word_of_nat d) # p" "1 \<le> d" "d < 10"
      "list_all is_digit p" "dval d p = n" by blast
    let ?c = "48 + word_of_nat d :: byte"
    have u: "unat ?c = 48 + d" using dp(3) by (simp add: unat_word_ariths unat_of_nat)
    have c: "49 \<le> ?c" "?c \<le> 57" "unat (?c - 48) = d" "?c \<noteq> 45" "?c \<noteq> 48"
      using u dp(2,3) digit_of_nat [OF dp(3)] unfolding word_le_nat_alt word_unat_eq_iff by simp_all
    have n: "n \<le> ULLONG_MAX" using z by (auto simp: n_def int64_iff)
    have "string2ll_loop d p = Some (n, [])"
      using string2ll_loop_Some [of d p n] dp n by simp
    then show ?thesis using z len c dp(1) False
      by (cases "z < 0") (auto simp: string2ll_def ll_repr_def Let_def n_def int64_iff)
  qed
qed

lemma string2ll_Some_repr:
  assumes "string2ll s = Some z"
  shows "int64 z \<and> s = ll_repr z"
proof (cases "length s = 1 \<and> s ! 0 = 48")
  case True
  then have "s = [48]" by (cases s) auto
  then show ?thesis using assms by (simp add: string2ll_def int64_iff ll_repr_def)
next
  case False
  define neg where "neg = (s ! 0 = 45)"
  from assms False obtain c p v where s: "(if neg then tl s else s) = c # p" "s \<noteq> []"
    and c: "49 \<le> c" "c \<le> 57" and loop: "string2ll_loop (unat (c - 48)) p = Some (v, [])"
    and z: "if neg then v \<le> 9223372036854775808 \<and> z = - int v else int v \<le> LLONG_MAX \<and> z = int v"
    by (auto simp: string2ll_def Let_def neg_def split: if_splits list.splits option.splits)
  have dig: "is_digit c" using c by (simp add: is_digit_def word_le_nat_alt)
  note d = digit_val [OF dig]
  have "unat c \<ge> 49" using c by (simp add: word_le_nat_alt)
  moreover have "48 \<le> c" using dig by (simp add: is_digit_def)
  ultimately have d1: "1 \<le> unat (c - 48)" by (simp add: unat_sub)
  have v: "list_all is_digit p" "v = dval (unat (c - 48)) p"
    using loop string2ll_loop_Some [of "unat (c - 48)" p v] d by auto
  then have dec: "dec v = c # p" using dec_dval [OF d1 _ v(1)] d by simp
  have vpos: "0 < v" using v(2) d1 dval_ge [of "unat (c - 48)" p] by linarith
  show ?thesis
  proof (cases neg)
    case True
    then have "s = 45 # c # p" using s by (cases s) (auto simp: neg_def)
    then show ?thesis using True z vpos dec by (auto simp: ll_repr_def int64_iff)
  next
    case False
    then show ?thesis using s z vpos dec by (auto simp: ll_repr_def int64_iff)
  qed
qed

section \<open>Properties\<close>

text \<open>
  C33. \<^verbatim>\<open>ll2string\<close> with a buffer of at least \<^verbatim>\<open>LONG_STR_SIZE\<close> bytes prints every \<^verbatim>\<open>long long\<close>,
  terminates it with a NUL and leaves every byte outside the buffer alone; \<^verbatim>\<open>string2ll\<close> on
  what it printed returns the number.
\<close>

theorem ll2string_string2ll:
  assumes "int64 z" "dst + dstlen \<le> length m" "LONG_STR_SIZE \<le> dstlen"
  shows "\<exists>m' n. ll2string m dst dstlen z = Some (m', n) \<and> string2ll (take n (drop dst m')) = Some z \<and>
    m' ! (dst + n) = 0 \<and> n < dstlen \<and>
    length m' = length m \<and> take dst m' = take dst m \<and> drop (dst + dstlen) m' = drop (dst + dstlen) m"
proof -
  let ?s = "ll_repr z"
  have len: "length ?s < dstlen" using length_ll_repr [OF assms(1)] assms(3) by linarith
  show ?thesis
    unfolding ll2string_spec [OF assms(1,2) len]
    using assms(2) len string2ll_ll_repr [OF assms(1)]
    by (cases "dstlen - length ?s") (auto simp: nth_append min_def intro!: arg_cong [of _ _ "\<lambda>k. drop k m"])
qed

theorem ll2string_string2ll_witness:
  "\<exists>m' n. ll2string (replicate 30 7) 2 21 (- 9223372036854775808) = Some (m', n) \<and>
     string2ll (take n (drop 2 m')) = Some (- 9223372036854775808)"
  using ll2string_string2ll [of "- 9223372036854775808" 2 21 "replicate 30 7"] by (auto simp: fits_def)

text \<open>
  C34. \<^verbatim>\<open>string2ll\<close> accepts exactly the canonical decimal representations of the 64-bit signed
  integers (no sign \<open>+\<close>, no leading zero, no space, no \<open>-0\<close>, nothing out of range), and
  returns the number represented.
\<close>

theorem string2ll_iff: "string2ll s = Some z \<longleftrightarrow> LLONG_MIN \<le> z \<and> z \<le> LLONG_MAX \<and> s = ll_repr z"
  using string2ll_ll_repr [of z] string2ll_Some_repr [of s z] by (auto simp: int64_iff)

text \<open>
  \<^verbatim>\<open>digits10\<close>, which divides by \<open>10 ^ 12\<close> and then compares with powers of ten, counts the
  characters of the decimal representation of every number.
\<close>

theorem digits10_counts: "digits10 v = length (dec v)"
  by (rule digits10_dec)

text \<open>
  \<^verbatim>\<open>ll2string\<close> with a buffer too small for the number returns 0, leaves a NUL inside the
  buffer and writes nothing outside it.
\<close>

theorem ll2string_too_small:
  assumes "int64 z" "0 < dstlen" "dstlen \<le> length (ll_repr z)" "dst + dstlen \<le> length m"
  shows "\<exists>m'. ll2string m dst dstlen z = Some (m', 0) \<and> 0 \<in> set (take dstlen (drop dst m')) \<and>
    length m' = length m \<and> take dst m' = take dst m \<and> drop (dst + dstlen) m' = drop (dst + dstlen) m"
proof (cases "z < 0")
  case False
  then have "dstlen \<le> length (dec (nat z))" using assms(3) by (simp add: ll_repr_def)
  then show ?thesis using False assms(2,4)
    by (cases dstlen) (auto simp: ll2string_def ull2string_def digits10_dec wr_def Let_def add.commute)
next
  case True
  show ?thesis
  proof (cases "dstlen < 2")
    case c: True
    then have "dstlen = 1" using assms(2) by simp
    then show ?thesis using True assms(4) by (auto simp: ll2string_def wr_def Let_def)
  next
    case False
    then obtain k where k: "dstlen = Suc (Suc k)" by (metis One_nat_def not_less_eq numeral_2_eq_2 old.nat.exhaust zero_less_Suc)
    have v: "(if z \<noteq> LLONG_MIN then nat (- z) else nat LLONG_MAX + 1) = nat (- z)" by simp
    have "Suc k \<le> length (dec (nat (- z)))" using assms(3) True k by (simp add: ll_repr_def)
    then show ?thesis using True assms(4) k v
      by (auto simp: ll2string_def ull2string_def digits10_dec wr_def Let_def min_def add.commute)
  qed
qed

theorem ll2string_too_small_witness:
  "\<exists>m'. ll2string (replicate 9 7) 2 3 (- 123) = Some (m', 0) \<and> 0 \<in> set (take 3 (drop 2 m'))"
  using ll2string_too_small [of "- 123" 3 2 "replicate 9 7"] by (auto simp: fits_def ll_repr_def dec.simps)

end
