(* ===== verification/Listpack.thy ===== *)
theory Listpack
  imports Util
begin

text \<open>
  \<^verbatim>\<open>redis-stable/src/listpack.c\<close>: a list of strings and integers serialised into one
  allocation: a 6 byte header (total bytes, number of elements), the entries, a
  terminator byte 0xFF. An entry is an encoding byte with its length bytes, the data, and
  the length of all that once more, written so that it can be read backwards.

  The allocation is a block, an element pointer \<open>p\<close> is its offset \<open>p - lp\<close>, NULL is
  \<^term>\<open>None\<close>. The outer option is the outcome: \<^term>\<open>None\<close> when an \<^verbatim>\<open>assert\<close> fails or an
  access leaves the allocation. \<^verbatim>\<open>lp_malloc_size(lp)\<close> is the length of the block.
  This theory holds the definitions; \<open>Listpack_Refine\<close> relates them to lists.
\<close>

section \<open>Encodings\<close>

abbreviation LP_HDR_SIZE :: nat where "LP_HDR_SIZE \<equiv> 6"
abbreviation LP_HDR_NUMELE_UNKNOWN :: nat where "LP_HDR_NUMELE_UNKNOWN \<equiv> 65535"
abbreviation LP_INTBUF_SIZE :: nat where "LP_INTBUF_SIZE \<equiv> 21"
abbreviation UINT32_MAX :: nat where "UINT32_MAX \<equiv> 4294967295"
abbreviation LP_EOF :: byte where "LP_EOF \<equiv> 0xFF"

definition IS_7BIT_UINT :: "byte \<Rightarrow> bool" where "IS_7BIT_UINT b \<longleftrightarrow> b AND 0x80 = 0"
definition IS_6BIT_STR :: "byte \<Rightarrow> bool" where "IS_6BIT_STR b \<longleftrightarrow> b AND 0xC0 = 0x80"
definition IS_13BIT_INT :: "byte \<Rightarrow> bool" where "IS_13BIT_INT b \<longleftrightarrow> b AND 0xE0 = 0xC0"
definition IS_12BIT_STR :: "byte \<Rightarrow> bool" where "IS_12BIT_STR b \<longleftrightarrow> b AND 0xF0 = 0xE0"
definition IS_16BIT_INT :: "byte \<Rightarrow> bool" where "IS_16BIT_INT b \<longleftrightarrow> b AND 0xFF = 0xF1"
definition IS_24BIT_INT :: "byte \<Rightarrow> bool" where "IS_24BIT_INT b \<longleftrightarrow> b AND 0xFF = 0xF2"
definition IS_32BIT_INT :: "byte \<Rightarrow> bool" where "IS_32BIT_INT b \<longleftrightarrow> b AND 0xFF = 0xF3"
definition IS_64BIT_INT :: "byte \<Rightarrow> bool" where "IS_64BIT_INT b \<longleftrightarrow> b AND 0xFF = 0xF4"
definition IS_32BIT_STR :: "byte \<Rightarrow> bool" where "IS_32BIT_STR b \<longleftrightarrow> b AND 0xFF = 0xF0"

text \<open>The bytes combined with shifts and \<^verbatim>\<open>|\<close> have no bit in common, so \<^verbatim>\<open>|\<close> is a sum.\<close>

definition STR_LEN_6BIT :: "bytes \<Rightarrow> nat \<Rightarrow> nat option" where
  "STR_LEN_6BIT lp p = do { b \<leftarrow> rd lp p; Some (unat (b AND 0x3F)) }"

definition STR_LEN_12BIT :: "bytes \<Rightarrow> nat \<Rightarrow> nat option" where
  "STR_LEN_12BIT lp p = do {
     b \<leftarrow> rd lp p; c \<leftarrow> rd lp (p + 1); Some (unat (b AND 0xF) * 256 + unat c)
   }"

definition STR_LEN_32BIT :: "bytes \<Rightarrow> nat \<Rightarrow> nat option" where
  "STR_LEN_32BIT lp p = do { v \<leftarrow> rdn lp (p + 1) 4; Some (le_val v) }"

definition lpGetTotalBytes :: "bytes \<Rightarrow> nat option" where
  "lpGetTotalBytes lp = do { v \<leftarrow> rdn lp 0 4; Some (le_val v) }"

definition lpGetNumElements :: "bytes \<Rightarrow> nat option" where
  "lpGetNumElements lp = do { v \<leftarrow> rdn lp 4 2; Some (le_val v) }"

definition lpSetTotalBytes :: "bytes \<Rightarrow> nat \<Rightarrow> bytes option" where
  "lpSetTotalBytes lp v = wr lp 0 (le_bytes 4 v)"

definition lpSetNumElements :: "bytes \<Rightarrow> nat \<Rightarrow> bytes option" where
  "lpSetNumElements lp v = wr lp 4 (le_bytes 2 v)"

definition lpBytes :: "bytes \<Rightarrow> nat option" where
  "lpBytes lp = lpGetTotalBytes lp"

definition lpSafeToAdd :: "bytes option \<Rightarrow> nat \<Rightarrow> bool option" where
  "lpSafeToAdd lp add = do {
     len \<leftarrow> (case lp of Some lp \<Rightarrow> lpGetTotalBytes lp | None \<Rightarrow> Some 0);
     Some (\<not> len + add > 2 ^ 30)
   }"

fun lpStringToInt64_loop :: "nat \<Rightarrow> bytes \<Rightarrow> (nat \<times> bytes) option" where
  "lpStringToInt64_loop v [] = Some (v, [])"
| "lpStringToInt64_loop v (c # p) =
    (if 48 \<le> c \<and> c \<le> 57 then
       (if v > ULLONG_MAX div 10 then None
        else if v * 10 > ULLONG_MAX - unat (c - 48) then None
        else lpStringToInt64_loop (v * 10 + unat (c - 48)) p)
     else Some (v, c # p))"

definition lpStringToInt64 :: "bytes \<Rightarrow> int option" where
  "lpStringToInt64 s =
    (if length s = 0 \<or> length s \<ge> LONG_STR_SIZE then None
     else if length s = 1 \<and> s ! 0 = 48 then Some 0
     else
       (let negative = (s ! 0 = 45);
            p = (if negative then tl s else s)
        in case p of
             [] \<Rightarrow> None
           | c # p' \<Rightarrow>
               (if 49 \<le> c \<and> c \<le> 57 then
                  (case lpStringToInt64_loop (unat (c - 48)) p' of
                     None \<Rightarrow> None
                   | Some (v, rest) \<Rightarrow>
                       (if rest \<noteq> [] then None
                        else if negative then
                          (if v > nat (- (LLONG_MIN + 1)) + 1 then None else Some (- int v))
                        else
                          (if int v > LLONG_MAX then None else Some (int v))))
                else None)))"

definition lpNew :: "allocator \<Rightarrow> nat \<Rightarrow> bytes option" where
  "lpNew al capacity =
    (let lp = zmalloc al (if capacity > LP_HDR_SIZE + 1 then capacity else LP_HDR_SIZE + 1) in
     do {
       lp \<leftarrow> lpSetTotalBytes lp (LP_HDR_SIZE + 1);
       lp \<leftarrow> lpSetNumElements lp 0;
       wr lp LP_HDR_SIZE [LP_EOF]
     })"

definition lpShrinkToFit :: "allocator \<Rightarrow> bytes \<Rightarrow> bytes option" where
  "lpShrinkToFit al lp = do {
     sz \<leftarrow> lpGetTotalBytes lp;
     (if sz < length lp then Some (zrealloc al lp sz) else Some lp)
   }"

text \<open>The buffer \<^verbatim>\<open>intenc\<close> is returned; its length is \<^verbatim>\<open>*enclen\<close>.\<close>

definition lpEncodeIntegerGetType :: "int \<Rightarrow> bytes" where
  "lpEncodeIntegerGetType v =
    (if v \<ge> 0 \<and> v \<le> 127 then [word_of_int v]
     else if v \<ge> - 4096 \<and> v \<le> 4095 then
       (let v = (if v < 0 then 2 ^ 13 + v else v) in
        [word_of_int (v div 256) OR 0xC0, word_of_int (v mod 256)])
     else if v \<ge> - 32768 \<and> v \<le> 32767 then
       (let v = (if v < 0 then 2 ^ 16 + v else v) in 0xF1 # le_bytes 2 (nat v))
     else if v \<ge> - 8388608 \<and> v \<le> 8388607 then
       (let v = (if v < 0 then 2 ^ 24 + v else v) in 0xF2 # le_bytes 3 (nat v))
     else if v \<ge> - 2147483648 \<and> v \<le> 2147483647 then
       (let v = (if v < 0 then 2 ^ 32 + v else v) in 0xF3 # le_bytes 4 (nat v))
     else 0xF4 # le_bytes 8 (s2u 64 v))"

datatype enctype = LP_ENCODING_INT bytes | LP_ENCODING_STRING

definition lpEncodeGetType :: "bytes \<Rightarrow> enctype \<times> nat" where
  "lpEncodeGetType ele =
    (case lpStringToInt64 ele of
       Some v \<Rightarrow> (let intenc = lpEncodeIntegerGetType v in (LP_ENCODING_INT intenc, length intenc))
     | None \<Rightarrow>
         (let sz = length ele in
          (LP_ENCODING_STRING,
           if sz < 64 then 1 + sz else if sz < 4096 then 2 + sz else 5 + sz)))"

definition lpEncodeBacklen :: "nat \<Rightarrow> bytes" where
  "lpEncodeBacklen l =
    (if l \<le> 127 then [word_of_nat l]
     else if l < 16383 then [word_of_nat (l div 2 ^ 7), word_of_nat (l mod 128) OR 128]
     else if l < 2097151 then
       [word_of_nat (l div 2 ^ 14), word_of_nat (l div 2 ^ 7 mod 128) OR 128,
        word_of_nat (l mod 128) OR 128]
     else if l < 268435455 then
       [word_of_nat (l div 2 ^ 21), word_of_nat (l div 2 ^ 14 mod 128) OR 128,
        word_of_nat (l div 2 ^ 7 mod 128) OR 128, word_of_nat (l mod 128) OR 128]
     else
       [word_of_nat (l div 2 ^ 28), word_of_nat (l div 2 ^ 21 mod 128) OR 128,
        word_of_nat (l div 2 ^ 14 mod 128) OR 128, word_of_nat (l div 2 ^ 7 mod 128) OR 128,
        word_of_nat (l mod 128) OR 128])"

definition lpEncodeBacklenBytes :: "nat \<Rightarrow> nat" where
  "lpEncodeBacklenBytes l =
    (if l \<le> 127 then 1 else if l < 16383 then 2 else if l < 2097151 then 3
     else if l < 268435455 then 4 else 5)"

text \<open>\<open>p\<close> is decremented past the start of the block only when the block is corrupt.\<close>

function lpDecodeBacklen_loop :: "bytes \<Rightarrow> nat \<Rightarrow> nat \<Rightarrow> nat \<Rightarrow> nat option" where
  "lpDecodeBacklen_loop lp p val shift = do {
     b \<leftarrow> rd lp p;
     let val = val + unat (b AND 127) * 2 ^ shift;
     (if b AND 128 = 0 then Some val
      else if shift + 7 > 28 then Some ULLONG_MAX
      else if p = 0 then None
      else lpDecodeBacklen_loop lp (p - 1) val (shift + 7))
   }"
  by pat_completeness auto
termination
  by (relation "measure (\<lambda>(lp, p, val, shift). 28 - shift)") auto

declare lpDecodeBacklen_loop.simps [simp del]

definition lpDecodeBacklen :: "bytes \<Rightarrow> nat \<Rightarrow> nat option" where
  "lpDecodeBacklen lp p = lpDecodeBacklen_loop lp p 0 0"

definition lpEncodeString :: "bytes \<Rightarrow> bytes" where
  "lpEncodeString s =
    (let len = length s in
     if len < 64 then (word_of_nat len OR 0x80) # s
     else if len < 4096 then (word_of_nat (len div 256) OR 0xE0) # word_of_nat (len mod 256) # s
     else 0xF0 # le_bytes 4 len @ s)"

definition lpCurrentEncodedSizeUnsafe :: "bytes \<Rightarrow> nat \<Rightarrow> nat option" where
  "lpCurrentEncodedSizeUnsafe lp p = do {
     b \<leftarrow> rd lp p;
     (if IS_7BIT_UINT b then Some 1
      else if IS_6BIT_STR b then do { n \<leftarrow> STR_LEN_6BIT lp p; Some (1 + n) }
      else if IS_13BIT_INT b then Some 2
      else if IS_16BIT_INT b then Some 3
      else if IS_24BIT_INT b then Some 4
      else if IS_32BIT_INT b then Some 5
      else if IS_64BIT_INT b then Some 9
      else if IS_12BIT_STR b then do { n \<leftarrow> STR_LEN_12BIT lp p; Some (2 + n) }
      else if IS_32BIT_STR b then do { n \<leftarrow> STR_LEN_32BIT lp p; Some (u32add 5 n) }
      else if b = LP_EOF then Some 1
      else Some 0)
   }"

definition lpCurrentEncodedSizeBytes :: "byte \<Rightarrow> nat" where
  "lpCurrentEncodedSizeBytes b =
    (if IS_7BIT_UINT b then 1
     else if IS_6BIT_STR b then 1
     else if IS_13BIT_INT b then 1
     else if IS_16BIT_INT b then 1
     else if IS_24BIT_INT b then 1
     else if IS_32BIT_INT b then 1
     else if IS_64BIT_INT b then 1
     else if IS_12BIT_STR b then 2
     else if IS_32BIT_STR b then 5
     else if b = LP_EOF then 1
     else 0)"

section \<open>Walking\<close>

definition lpSkip :: "bytes \<Rightarrow> nat \<Rightarrow> nat option" where
  "lpSkip lp p = do {
     entrylen \<leftarrow> lpCurrentEncodedSizeUnsafe lp p;
     Some (p + (entrylen + lpEncodeBacklenBytes entrylen))
   }"

text \<open>The result is the C return value and the value \<^verbatim>\<open>*pp\<close> has afterwards.\<close>

definition lpValidateNext :: "bytes \<Rightarrow> nat option \<Rightarrow> nat \<Rightarrow> (bool \<times> nat option) option" where
  "lpValidateNext lp pp lpbytes =
    (let out_of_range = (\<lambda>p. p < LP_HDR_SIZE \<or> p \<ge> lpbytes) in
     case pp of
       None \<Rightarrow> Some (False, pp)
     | Some p \<Rightarrow>
         (if out_of_range p then Some (False, pp)
          else do {
            b \<leftarrow> rd lp p;
            (if b = LP_EOF then Some (True, None)
             else
               (let lenbytes = lpCurrentEncodedSizeBytes b in
                if lenbytes = 0 then Some (False, pp)
                else if out_of_range (p + lenbytes) then Some (False, pp)
                else do {
                  entrylen \<leftarrow> lpCurrentEncodedSizeUnsafe lp p;
                  let encodedBacklen = lpEncodeBacklenBytes entrylen;
                  let entrylen = entrylen + encodedBacklen;
                  (if out_of_range (p + entrylen) then Some (False, pp)
                   else do {
                     prevlen \<leftarrow> lpDecodeBacklen lp (p + entrylen - 1);
                     (if (prevlen + encodedBacklen) mod 2 ^ 64 \<noteq> entrylen then Some (False, pp)
                      else Some (True, Some (p + entrylen)))
                   })
                }))
          }))"

definition lpAssertValidEntry :: "bytes \<Rightarrow> nat \<Rightarrow> nat \<Rightarrow> unit option" where
  "lpAssertValidEntry lp lpbytes p = do {
     (ok, _) \<leftarrow> lpValidateNext lp (Some p) lpbytes;
     (if ok then Some () else None)
   }"

definition lpNextWithBytes :: "bytes \<Rightarrow> nat \<Rightarrow> nat \<Rightarrow> nat option option" where
  "lpNextWithBytes lp p lpbytes = do {
     p \<leftarrow> lpSkip lp p;
     b \<leftarrow> rd lp p;
     (if b = LP_EOF then Some None
      else do { lpAssertValidEntry lp lpbytes p; Some (Some p) })
   }"

definition lpNext :: "bytes \<Rightarrow> nat \<Rightarrow> nat option option" where
  "lpNext lp p = do {
     p \<leftarrow> lpSkip lp p;
     b \<leftarrow> rd lp p;
     (if b = LP_EOF then Some None
      else do { n \<leftarrow> lpBytes lp; lpAssertValidEntry lp n p; Some (Some p) })
   }"

definition lpPrev :: "bytes \<Rightarrow> nat \<Rightarrow> nat option option" where
  "lpPrev lp p =
    (if p = LP_HDR_SIZE then Some None
     else if p = 0 then None
     else do {
       let p = p - 1;
       prevlen \<leftarrow> lpDecodeBacklen lp p;
       let prevlen = (prevlen + lpEncodeBacklenBytes prevlen) mod 2 ^ 64;
       (if prevlen - 1 > p then None
        else do {
          let p = p - (prevlen - 1);
          n \<leftarrow> lpBytes lp;
          lpAssertValidEntry lp n p;
          Some (Some p)
        })
     })"

definition lpFirst :: "bytes \<Rightarrow> nat option option" where
  "lpFirst lp = do {
     let p = LP_HDR_SIZE;
     b \<leftarrow> rd lp p;
     (if b = LP_EOF then Some None
      else do { n \<leftarrow> lpBytes lp; lpAssertValidEntry lp n p; Some (Some p) })
   }"

definition lpLast :: "bytes \<Rightarrow> nat option option" where
  "lpLast lp = do {
     n \<leftarrow> lpGetTotalBytes lp;
     (if n = 0 then None else lpPrev lp (n - 1))
   }"

partial_function (option) lpLength_loop :: "bytes \<Rightarrow> nat option \<Rightarrow> nat \<Rightarrow> nat option" where
  "lpLength_loop lp p count =
    (case p of
       None \<Rightarrow> Some count
     | Some q \<Rightarrow> do { p \<leftarrow> lpNext lp q; lpLength_loop lp p (u32add count 1) })"

text \<open>The length, and the block with its header count refreshed.\<close>

definition lpLength :: "bytes \<Rightarrow> (nat \<times> bytes) option" where
  "lpLength lp = do {
     numele \<leftarrow> lpGetNumElements lp;
     (if numele \<noteq> LP_HDR_NUMELE_UNKNOWN then Some (numele, lp)
      else do {
        p \<leftarrow> lpFirst lp;
        count \<leftarrow> lpLength_loop lp p 0;
        (if count < LP_HDR_NUMELE_UNKNOWN
         then do { lp \<leftarrow> lpSetNumElements lp count; Some (count, lp) }
         else Some (count, lp))
      })
   }"

section \<open>Reading\<close>

text \<open>
  What \<^verbatim>\<open>lpGet\<close> returns: a pointer into the listpack with the string length in \<^verbatim>\<open>*count\<close>,
  the integer in \<^verbatim>\<open>*count\<close> with a NULL result, or the caller's buffer and the number
  of characters printed to it.
\<close>

datatype lp_ret = Ptr nat int | Val int | Buf bytes nat

text \<open>The unsigned value and the two bounds of its two's complement reading.\<close>

definition lpSigned :: "nat \<Rightarrow> nat \<Rightarrow> nat \<Rightarrow> int" where
  "lpSigned uval negstart negmax =
    (if uval \<ge> negstart then - int (negmax - uval) - 1 else int uval)"

definition lpIntResult :: "int \<Rightarrow> bytes option \<Rightarrow> lp_ret option" where
  "lpIntResult val intbuf =
    (case intbuf of
       Some buf \<Rightarrow> do { (buf, count) \<leftarrow> ll2string buf 0 LP_INTBUF_SIZE val; Some (Buf buf count) }
     | None \<Rightarrow> Some (Val val))"

text \<open>The second component is \<^verbatim>\<open>*entry_size\<close>, \<^term>\<open>None\<close> when it is not written.\<close>

definition lpGetWithSize :: "bytes \<Rightarrow> nat \<Rightarrow> bytes option \<Rightarrow> (lp_ret \<times> nat option) option" where
  "lpGetWithSize lp p intbuf = do {
     b \<leftarrow> rd lp p;
     (if IS_7BIT_UINT b then do {
        r \<leftarrow> lpIntResult (lpSigned (unat (b AND 0x7F)) ULLONG_MAX 0) intbuf; Some (r, Some 2)
      } else if IS_6BIT_STR b then do {
        count \<leftarrow> STR_LEN_6BIT lp p;
        Some (Ptr (p + 1) (int count), Some (1 + count + lpEncodeBacklenBytes (count + 1)))
      } else if IS_13BIT_INT b then do {
        c \<leftarrow> rd lp (p + 1);
        r \<leftarrow> lpIntResult (lpSigned (unat (b AND 0x1F) * 256 + unat c) (2 ^ 12) 8191) intbuf;
        Some (r, Some 3)
      } else if IS_16BIT_INT b then do {
        v \<leftarrow> rdn lp (p + 1) 2;
        r \<leftarrow> lpIntResult (lpSigned (le_val v) (2 ^ 15) 65535) intbuf; Some (r, Some 4)
      } else if IS_24BIT_INT b then do {
        v \<leftarrow> rdn lp (p + 1) 3;
        r \<leftarrow> lpIntResult (lpSigned (le_val v) (2 ^ 23) 16777215) intbuf; Some (r, Some 5)
      } else if IS_32BIT_INT b then do {
        v \<leftarrow> rdn lp (p + 1) 4;
        r \<leftarrow> lpIntResult (lpSigned (le_val v) (2 ^ 31) UINT32_MAX) intbuf; Some (r, Some 6)
      } else if IS_64BIT_INT b then do {
        v \<leftarrow> rdn lp (p + 1) 8;
        r \<leftarrow> lpIntResult (lpSigned (le_val v) (2 ^ 63) ULLONG_MAX) intbuf; Some (r, Some 10)
      } else if IS_12BIT_STR b then do {
        count \<leftarrow> STR_LEN_12BIT lp p;
        Some (Ptr (p + 2) (int count), Some (2 + count + lpEncodeBacklenBytes (count + 2)))
      } else if IS_32BIT_STR b then do {
        count \<leftarrow> STR_LEN_32BIT lp p;
        Some (Ptr (p + 5) (int count), Some (5 + count + lpEncodeBacklenBytes (count + 5)))
      } else do {
        r \<leftarrow> lpIntResult (lpSigned (12345678900000000 + unat b) ULLONG_MAX 0) intbuf; Some (r, None)
      })
   }"

definition lpGetWithBuf :: "bytes \<Rightarrow> nat \<Rightarrow> bytes option \<Rightarrow> lp_ret option" where
  "lpGetWithBuf lp p intbuf = do {
     b \<leftarrow> rd lp p;
     (if IS_6BIT_STR b then do { count \<leftarrow> STR_LEN_6BIT lp p; Some (Ptr (p + 1) (int count)) }
      else if IS_12BIT_STR b then do { count \<leftarrow> STR_LEN_12BIT lp p; Some (Ptr (p + 2) (int count)) }
      else if IS_32BIT_STR b then do { count \<leftarrow> STR_LEN_32BIT lp p; Some (Ptr (p + 5) (int count)) }
      else if IS_7BIT_UINT b then
        lpIntResult (lpSigned (unat (b AND 0x7F)) ULLONG_MAX 0) intbuf
      else if IS_13BIT_INT b then do {
        c \<leftarrow> rd lp (p + 1);
        lpIntResult (lpSigned (unat (b AND 0x1F) * 256 + unat c) (2 ^ 12) 8191) intbuf
      } else if IS_16BIT_INT b then do {
        v \<leftarrow> rdn lp (p + 1) 2; lpIntResult (lpSigned (le_val v) (2 ^ 15) 65535) intbuf
      } else if IS_24BIT_INT b then do {
        v \<leftarrow> rdn lp (p + 1) 3; lpIntResult (lpSigned (le_val v) (2 ^ 23) 16777215) intbuf
      } else if IS_32BIT_INT b then do {
        v \<leftarrow> rdn lp (p + 1) 4; lpIntResult (lpSigned (le_val v) (2 ^ 31) UINT32_MAX) intbuf
      } else if IS_64BIT_INT b then do {
        v \<leftarrow> rdn lp (p + 1) 8; lpIntResult (lpSigned (le_val v) (2 ^ 63) ULLONG_MAX) intbuf
      } else
        lpIntResult (lpSigned (12345678900000000 + unat b) ULLONG_MAX 0) intbuf)
   }"

definition lpGet :: "bytes \<Rightarrow> nat \<Rightarrow> bytes option \<Rightarrow> lp_ret option" where
  "lpGet lp p intbuf = lpGetWithBuf lp p intbuf"

definition lpGetValue :: "bytes \<Rightarrow> nat \<Rightarrow> lp_ret option" where
  "lpGetValue lp p = do {
     r \<leftarrow> lpGet lp p None;
     (case r of
        Ptr q n \<Rightarrow> Some (Ptr q (n mod 2 ^ 32))
      | r \<Rightarrow> Some r)
   }"

definition lpGetIntegerValue :: "bytes \<Rightarrow> nat \<Rightarrow> int option option" where
  "lpGetIntegerValue lp p = do {
     r \<leftarrow> lpGet lp p None;
     (case r of Val v \<Rightarrow> Some (Some v) | _ \<Rightarrow> Some None)
   }"

section \<open>Searching\<close>

text \<open>
  The comparator gets the user data, the entry it looks at and returns the C result 0 as
  \<^term>\<open>True\<close>, with the user data it may have updated.
\<close>

partial_function (option) lpFindCb_loop ::
  "bytes \<Rightarrow> nat \<Rightarrow> ('u \<Rightarrow> lp_ret \<Rightarrow> (bool \<times> 'u) option) \<Rightarrow> nat \<Rightarrow> nat \<Rightarrow> 'u \<Rightarrow> nat \<Rightarrow> nat \<Rightarrow> (nat option \<times> 'u) option"
where
  "lpFindCb_loop lp lp_bytes cmp skip p user skipcnt entry_size = do {
     (found, user, skipcnt, entry_size, q) \<leftarrow>
       (if skipcnt = 0 then do {
          (r, es) \<leftarrow> lpGetWithSize lp p None;
          let entry_size = (case es of Some n \<Rightarrow> n | None \<Rightarrow> entry_size);
          (case r of
             Ptr _ _ \<Rightarrow> (if p \<ge> LP_HDR_SIZE \<and> p + entry_size < lp_bytes then Some () else None)
           | _ \<Rightarrow> Some ());
          (eq, user) \<leftarrow> cmp user r;
          (if eq then Some (True, user, skipcnt, entry_size, p)
           else Some (False, user, skip, entry_size, p + entry_size))
        } else do {
          q \<leftarrow> lpSkip lp p;
          Some (False, user, skipcnt - 1, entry_size, q)
        });
     (if found then Some (Some p, user)
      else do {
        (if q + 8 \<ge> lp_bytes then lpAssertValidEntry lp lp_bytes q
         else if q \<ge> LP_HDR_SIZE \<and> q < lp_bytes then Some () else None);
        b \<leftarrow> rd lp q;
        (if b = LP_EOF then Some (None, user)
         else lpFindCb_loop lp lp_bytes cmp skip q user skipcnt entry_size)
      })
   }"

definition lpFindCbInternal ::
  "bytes \<Rightarrow> nat option \<Rightarrow> 'u \<Rightarrow> ('u \<Rightarrow> lp_ret \<Rightarrow> (bool \<times> 'u) option) \<Rightarrow> nat \<Rightarrow> (nat option \<times> 'u) option" where
  "lpFindCbInternal lp p user cmp skip = do {
     lp_bytes \<leftarrow> lpBytes lp;
     p \<leftarrow> (case p of None \<Rightarrow> lpFirst lp | Some q \<Rightarrow> Some (Some q));
     (case p of
        None \<Rightarrow> Some (None, user)
      | Some q \<Rightarrow> lpFindCb_loop lp lp_bytes cmp skip q user 0 123456789)
   }"

definition lpFindCb ::
  "bytes \<Rightarrow> nat option \<Rightarrow> 'u \<Rightarrow> ('u \<Rightarrow> lp_ret \<Rightarrow> (bool \<times> 'u) option) \<Rightarrow> nat \<Rightarrow> (nat option \<times> 'u) option" where
  "lpFindCb lp p user cmp skip = lpFindCbInternal lp p user cmp skip"

abbreviation UCHAR_MAX :: nat where "UCHAR_MAX \<equiv> 255"

record lpFindArg =
  arg_s :: bytes
  vencoding :: nat
  vll :: int

definition lpFindCmp :: "bytes \<Rightarrow> lpFindArg \<Rightarrow> lp_ret \<Rightarrow> (bool \<times> lpFindArg) option" where
  "lpFindCmp lp arg r =
    (case r of
       Ptr q slen \<Rightarrow>
         (if slen = int (length (arg_s arg))
          then do { v \<leftarrow> rdn lp q (nat slen); Some (v = arg_s arg, arg) }
          else Some (False, arg))
     | Val slen \<Rightarrow>
         (let arg =
            (if vencoding arg = 0 then
               (if length (arg_s arg) \<ge> 32 \<or> length (arg_s arg) = 0 then arg\<lparr>vencoding := UCHAR_MAX\<rparr>
                else case lpStringToInt64 (arg_s arg) of
                  None \<Rightarrow> arg\<lparr>vencoding := UCHAR_MAX\<rparr>
                | Some v \<Rightarrow> arg\<lparr>vencoding := 1, vll := v\<rparr>)
             else arg)
          in Some (vencoding arg \<noteq> UCHAR_MAX \<and> slen = vll arg, arg))
     | Buf _ _ \<Rightarrow> None)"

definition lpFind :: "bytes \<Rightarrow> nat option \<Rightarrow> bytes \<Rightarrow> nat \<Rightarrow> nat option option" where
  "lpFind lp p ele skip = do {
     (q, _) \<leftarrow> lpFindCbInternal lp p \<lparr>arg_s = ele, vencoding = 0, vll = 0\<rparr> (lpFindCmp lp) skip;
     Some q
   }"

text \<open>
  The cache is the pair \<^verbatim>\<open>*cached_longval\<close>, \<^verbatim>\<open>*cached_valid\<close>, \<^term>\<open>None\<close> when the caller passes NULL. The
  result is the C result and the cache afterwards.
\<close>

definition lpCompare :: "bytes \<Rightarrow> nat \<Rightarrow> bytes \<Rightarrow> (int \<times> int) option \<Rightarrow> (bool \<times> (int \<times> int) option) option" where
  "lpCompare lp p ele cached = do {
     b \<leftarrow> rd lp p;
     (if b = LP_EOF then Some (False, cached)
      else do {
        r \<leftarrow> lpGet lp p None;
        (case r of
           Ptr q sz \<Rightarrow>
             (if int (length ele) = sz then do { v \<leftarrow> rdn lp q (length ele); Some (v = ele, cached) }
              else Some (False, cached))
         | Val sz \<Rightarrow>
             (case cached of
                Some (longval, valid) \<Rightarrow>
                  (let (longval, valid) =
                     (if valid = 0 then
                        (case lpStringToInt64 ele of Some v \<Rightarrow> (v, 1) | None \<Rightarrow> (longval, - 1))
                      else (longval, valid))
                   in Some (valid = 1 \<and> sz = longval, Some (longval, valid)))
              | None \<Rightarrow> Some (case lpStringToInt64 ele of Some sval \<Rightarrow> sz = sval | None \<Rightarrow> False, None))
         | Buf _ _ \<Rightarrow> None)
      })
   }"

section \<open>Updating\<close>

datatype lp_where = LP_BEFORE | LP_AFTER | LP_REPLACE

text \<open>
  The pair \<^verbatim>\<open>elestr\<close>, \<^verbatim>\<open>eleint\<close>: a string, an integer already encoded, or neither (deletion).
  The result is NULL, or the new listpack with \<^verbatim>\<open>*newp\<close>.
\<close>

datatype lp_ele = EleStr bytes | EleInt bytes | EleNone

definition lpInsert ::
  "allocator \<Rightarrow> bytes \<Rightarrow> lp_ele \<Rightarrow> nat \<Rightarrow> lp_where \<Rightarrow> (bytes \<times> nat option) option option" where
  "lpInsert al lp ele p whr =
    (let delete = (ele = EleNone);
         whr = (if delete then LP_REPLACE else whr)
     in do {
       (p, whr) \<leftarrow>
         (if whr = LP_AFTER then do {
            p \<leftarrow> lpSkip lp p;
            n \<leftarrow> lpGetTotalBytes lp;
            (if p \<ge> LP_HDR_SIZE \<and> p < n then Some (p, LP_BEFORE) else None)
          } else Some (p, whr));
       let poff = p;
       let (enctype, enclen) =
         (case ele of
            EleStr str \<Rightarrow> (let (t, n) = lpEncodeGetType str in (Some t, n))
          | EleInt eleint \<Rightarrow> (Some (LP_ENCODING_INT eleint), length eleint)
          | EleNone \<Rightarrow> (None, 0));
       let backlen = (if \<not> delete then lpEncodeBacklen enclen else []);
       let backlen_size = length backlen;
       old_listpack_bytes \<leftarrow> lpGetTotalBytes lp;
       replaced_len \<leftarrow>
         (if whr = LP_REPLACE then do {
            n \<leftarrow> lpCurrentEncodedSizeUnsafe lp p;
            let n = u32add n (lpEncodeBacklenBytes n);
            (if p \<ge> LP_HDR_SIZE \<and> p + n < old_listpack_bytes then Some n else None)
          } else Some 0);
       let new_listpack_bytes = old_listpack_bytes + enclen + backlen_size - replaced_len;
       (if new_listpack_bytes > UINT32_MAX then Some None
        else do {
          let lp = (if new_listpack_bytes > old_listpack_bytes \<and> new_listpack_bytes > length lp
                    then zrealloc al lp new_listpack_bytes else lp);
          let dst = poff;
          lp \<leftarrow>
            (if whr = LP_BEFORE
             then (if poff > old_listpack_bytes then None
                   else memmove lp (dst + enclen + backlen_size) dst (old_listpack_bytes - poff))
             else memmove lp (dst + enclen + backlen_size) (dst + replaced_len)
                    (old_listpack_bytes - poff - replaced_len));
          let lp = (if new_listpack_bytes < old_listpack_bytes
                    then zrealloc al lp new_listpack_bytes else lp);
          newp \<leftarrow>
            (if delete then do { b \<leftarrow> rd lp dst; Some (if b = LP_EOF then None else Some dst) }
             else Some (Some dst));
          lp \<leftarrow>
            (case (enctype, ele) of
               (None, _) \<Rightarrow> Some lp
             | (Some (LP_ENCODING_INT eleint), _) \<Rightarrow> do {
                 lp \<leftarrow> wr lp dst eleint;
                 wr lp (dst + enclen) backlen
               }
             | (Some LP_ENCODING_STRING, EleStr str) \<Rightarrow> do {
                 lp \<leftarrow> wr lp dst (lpEncodeString str);
                 wr lp (dst + enclen) backlen
               }
             | (Some LP_ENCODING_STRING, _) \<Rightarrow> None);
          lp \<leftarrow>
            (if whr \<noteq> LP_REPLACE \<or> delete then do {
               num_elements \<leftarrow> lpGetNumElements lp;
               (if num_elements \<noteq> LP_HDR_NUMELE_UNKNOWN then
                  (if \<not> delete then lpSetNumElements lp (num_elements + 1)
                   else lpSetNumElements lp (u32sub num_elements 1))
                else Some lp)
             } else Some lp);
          lp \<leftarrow> lpSetTotalBytes lp new_listpack_bytes;
          Some (Some (lp, newp))
        })
     })"

definition lpInsertString :: "allocator \<Rightarrow> bytes \<Rightarrow> bytes \<Rightarrow> nat \<Rightarrow> lp_where \<Rightarrow> (bytes \<times> nat option) option option" where
  "lpInsertString al lp str p whr = lpInsert al lp (EleStr str) p whr"

definition lpInsertInteger :: "allocator \<Rightarrow> bytes \<Rightarrow> int \<Rightarrow> nat \<Rightarrow> lp_where \<Rightarrow> (bytes \<times> nat option) option option" where
  "lpInsertInteger al lp lval p whr = lpInsert al lp (EleInt (lpEncodeIntegerGetType lval)) p whr"

text \<open>A pointer result without \<^verbatim>\<open>newp\<close>.\<close>

abbreviation ptr_only :: "(bytes \<times> nat option) option option \<Rightarrow> bytes option option" where
  "ptr_only r \<equiv> map_option (map_option fst) r"

definition lpAppend :: "allocator \<Rightarrow> bytes \<Rightarrow> bytes \<Rightarrow> bytes option option" where
  "lpAppend al lp ele = do {
     n \<leftarrow> lpGetTotalBytes lp;
     (if n = 0 then None else ptr_only (lpInsert al lp (EleStr ele) (n - 1) LP_BEFORE))
   }"

definition lpAppendInteger :: "allocator \<Rightarrow> bytes \<Rightarrow> int \<Rightarrow> bytes option option" where
  "lpAppendInteger al lp lval = do {
     n \<leftarrow> lpGetTotalBytes lp;
     (if n = 0 then None else ptr_only (lpInsertInteger al lp lval (n - 1) LP_BEFORE))
   }"

definition lpPrepend :: "allocator \<Rightarrow> bytes \<Rightarrow> bytes \<Rightarrow> bytes option option" where
  "lpPrepend al lp ele = do {
     p \<leftarrow> lpFirst lp;
     (case p of
        None \<Rightarrow> lpAppend al lp ele
      | Some p \<Rightarrow> ptr_only (lpInsert al lp (EleStr ele) p LP_BEFORE))
   }"

definition lpPrependInteger :: "allocator \<Rightarrow> bytes \<Rightarrow> int \<Rightarrow> bytes option option" where
  "lpPrependInteger al lp lval = do {
     p \<leftarrow> lpFirst lp;
     (case p of
        None \<Rightarrow> lpAppendInteger al lp lval
      | Some p \<Rightarrow> ptr_only (lpInsertInteger al lp lval p LP_BEFORE))
   }"

definition lpReplace :: "allocator \<Rightarrow> bytes \<Rightarrow> nat \<Rightarrow> bytes \<Rightarrow> (bytes \<times> nat option) option option" where
  "lpReplace al lp p str = lpInsert al lp (EleStr str) p LP_REPLACE"

definition lpReplaceInteger :: "allocator \<Rightarrow> bytes \<Rightarrow> nat \<Rightarrow> int \<Rightarrow> (bytes \<times> nat option) option option" where
  "lpReplaceInteger al lp p lval = lpInsertInteger al lp lval p LP_REPLACE"

definition lpDelete :: "allocator \<Rightarrow> bytes \<Rightarrow> nat \<Rightarrow> (bytes \<times> nat option) option option" where
  "lpDelete al lp p = lpInsert al lp EleNone p LP_REPLACE"

section \<open>Seeking and ranges\<close>

partial_function (option) lpSeek_forward :: "bytes \<Rightarrow> int \<Rightarrow> nat option \<Rightarrow> nat option option" where
  "lpSeek_forward lp index ele =
    (case ele of
       None \<Rightarrow> Some None
     | Some q \<Rightarrow>
         (if index > 0 then do { ele \<leftarrow> lpNext lp q; lpSeek_forward lp (index - 1) ele }
          else Some ele))"

partial_function (option) lpSeek_backward :: "bytes \<Rightarrow> int \<Rightarrow> nat option \<Rightarrow> nat option option" where
  "lpSeek_backward lp index ele =
    (case ele of
       None \<Rightarrow> Some None
     | Some q \<Rightarrow>
         (if index < - 1 then do { ele \<leftarrow> lpPrev lp q; lpSeek_backward lp (index + 1) ele }
          else Some ele))"

text \<open>\<open>numele / 2\<close> is a division of non-negative numbers.\<close>

definition lpSeek :: "bytes \<Rightarrow> int \<Rightarrow> nat option option" where
  "lpSeek lp index = do {
     numele \<leftarrow> lpGetNumElements lp;
     (if numele \<noteq> LP_HDR_NUMELE_UNKNOWN then
        (let index = (if index < 0 then int numele + index else index) in
         if index < 0 then Some None
         else if index \<ge> int numele then Some None
         else if index > int numele div 2 then do {
           ele \<leftarrow> lpLast lp; lpSeek_backward lp (index - int numele) ele
         } else do {
           ele \<leftarrow> lpFirst lp; lpSeek_forward lp index ele
         })
      else if index < 0 then do { ele \<leftarrow> lpLast lp; lpSeek_backward lp index ele }
      else do { ele \<leftarrow> lpFirst lp; lpSeek_forward lp index ele })
   }"

fun lpDeleteRange_loop :: "bytes \<Rightarrow> nat \<Rightarrow> nat \<Rightarrow> nat \<Rightarrow> nat \<Rightarrow> (nat \<times> nat) option" where
  "lpDeleteRange_loop lp n 0 tail deleted = Some (tail, deleted)"
| "lpDeleteRange_loop lp n (Suc num) tail deleted = do {
     let deleted = deleted + 1;
     tail \<leftarrow> lpSkip lp tail;
     b \<leftarrow> rd lp tail;
     (if b = LP_EOF then Some (tail, deleted)
      else do { lpAssertValidEntry lp n tail; lpDeleteRange_loop lp n num tail deleted })
   }"

text \<open>The result is the listpack and the value \<^verbatim>\<open>*p\<close> has afterwards.\<close>

definition lpDeleteRangeWithEntry :: "allocator \<Rightarrow> bytes \<Rightarrow> nat \<Rightarrow> nat \<Rightarrow> (bytes \<times> nat option) option" where
  "lpDeleteRangeWithEntry al lp p num = do {
     n \<leftarrow> lpBytes lp;
     (if n = 0 then None
      else
        (let eofptr = n - 1; first = p in
         if num = 0 then Some (lp, Some p)
         else do {
           (tail, deleted) \<leftarrow> lpDeleteRange_loop lp n num first 0;
           let poff = first;
           (if tail > eofptr + 1 then None
            else do {
              lp \<leftarrow> memmove lp first tail (eofptr + 1 - tail);
              lp \<leftarrow> lpSetTotalBytes lp (n - (tail - first));
              numele \<leftarrow> lpGetNumElements lp;
              lp \<leftarrow> (if numele \<noteq> LP_HDR_NUMELE_UNKNOWN
                    then lpSetNumElements lp (u32sub numele (deleted mod 2 ^ 32)) else Some lp);
              lp \<leftarrow> lpShrinkToFit al lp;
              b \<leftarrow> rd lp poff;
              Some (lp, if b = LP_EOF then None else Some poff)
            })
         }))
   }"

text \<open>\<open>numele - (unsigned long)index\<close> is taken modulo \<open>2 ^ 64\<close>.\<close>

definition lpDeleteRange :: "allocator \<Rightarrow> bytes \<Rightarrow> int \<Rightarrow> nat \<Rightarrow> bytes option" where
  "lpDeleteRange al lp index num = do {
     numele \<leftarrow> lpGetNumElements lp;
     (if num = 0 then Some lp
      else do {
        p \<leftarrow> lpSeek lp index;
        (case p of
           None \<Rightarrow> Some lp
         | Some p \<Rightarrow>
             (let index = (if numele \<noteq> LP_HDR_NUMELE_UNKNOWN \<and> index < 0 then int numele + index else index) in
              if numele \<noteq> LP_HDR_NUMELE_UNKNOWN \<and> nat ((int numele - index) mod 2 ^ 64) \<le> num then do {
                lp \<leftarrow> wr lp p [LP_EOF];
                lp \<leftarrow> lpSetTotalBytes lp (p + 1);
                lp \<leftarrow> lpSetNumElements lp (nat (index mod 2 ^ 32));
                lpShrinkToFit al lp
              } else do {
                (lp, _) \<leftarrow> lpDeleteRangeWithEntry al lp p num;
                Some lp
              }))
      })
   }"

fun lpBatchDelete_loop :: "bytes \<Rightarrow> nat \<Rightarrow> nat list \<Rightarrow> nat \<Rightarrow> (bytes \<times> nat) option" where
  "lpBatchDelete_loop lp lp_end [] dst = Some (lp, dst)"
| "lpBatchDelete_loop lp lp_end (skip # ps) dst = do {
     b \<leftarrow> rd lp skip;
     (if b = LP_EOF then None
      else do {
        keep_start \<leftarrow> lpSkip lp skip;
        let keep_end = (case ps of q # _ \<Rightarrow> q | [] \<Rightarrow> lp_end);
        (if ps \<noteq> [] \<and> keep_start = keep_end then lpBatchDelete_loop lp lp_end ps dst
         else if keep_end > keep_start then do {
           let bytes_to_keep = keep_end - keep_start;
           lp \<leftarrow> memmove lp dst keep_start bytes_to_keep;
           lpBatchDelete_loop lp lp_end ps (dst + bytes_to_keep)
         } else None)
      })
   }"

definition lpBatchDelete :: "allocator \<Rightarrow> bytes \<Rightarrow> nat list \<Rightarrow> bytes option" where
  "lpBatchDelete al lp ps =
    (case ps of
       [] \<Rightarrow> Some lp
     | dst # _ \<Rightarrow> do {
         total_bytes \<leftarrow> lpGetTotalBytes lp;
         let lp_end = total_bytes;
         b \<leftarrow> (if lp_end = 0 then None else rd lp (lp_end - 1));
         (if b \<noteq> LP_EOF then None
          else do {
            (lp, dst) \<leftarrow> lpBatchDelete_loop lp lp_end ps dst;
            (if lp_end < dst then None
             else do {
               let deleted_bytes = lp_end - dst;
               let total_bytes = total_bytes - deleted_bytes;
               b \<leftarrow> (if total_bytes = 0 then None else rd lp (total_bytes - 1));
               (if b \<noteq> LP_EOF then None
                else do {
                  lp \<leftarrow> lpSetTotalBytes lp total_bytes;
                  numele \<leftarrow> lpGetNumElements lp;
                  lp \<leftarrow> (if numele \<noteq> LP_HDR_NUMELE_UNKNOWN
                        then lpSetNumElements lp (u32sub numele (length ps mod 2 ^ 32)) else Some lp);
                  lpShrinkToFit al lp
                })
             })
          })
       })"

section \<open>Batches\<close>

text \<open>A \<^verbatim>\<open>listpackEntry\<close> is a string or an integer.\<close>

datatype listpackEntry = ESval bytes | ELval int

definition lpBatch_enc :: "listpackEntry \<Rightarrow> enctype \<times> nat" where
  "lpBatch_enc e =
    (case e of
       ESval str \<Rightarrow> lpEncodeGetType str
     | ELval v \<Rightarrow> (let intenc = lpEncodeIntegerGetType v in (LP_ENCODING_INT intenc, length intenc)))"

fun lpBatchInsert_loop :: "bytes \<Rightarrow> nat \<Rightarrow> nat option \<Rightarrow> listpackEntry list \<Rightarrow> (bytes \<times> nat option) option" where
  "lpBatchInsert_loop lp dst newp [] = Some (lp, newp)"
| "lpBatchInsert_loop lp dst newp (ent # es) = do {
     let newp = Some dst;
     let (enctype, enclen) = lpBatch_enc ent;
     let backlen = lpEncodeBacklen enclen;
     lp \<leftarrow> (case (enctype, ent) of
             (LP_ENCODING_INT intenc, _) \<Rightarrow> wr lp dst intenc
           | (LP_ENCODING_STRING, ESval str) \<Rightarrow> wr lp dst (lpEncodeString str)
           | (LP_ENCODING_STRING, ELval _) \<Rightarrow> None);
     lp \<leftarrow> wr lp (dst + enclen) backlen;
     lpBatchInsert_loop lp (dst + enclen + length backlen) newp es
   }"

definition lpBatchInsert ::
  "allocator \<Rightarrow> bytes \<Rightarrow> nat \<Rightarrow> lp_where \<Rightarrow> listpackEntry list \<Rightarrow> (bytes \<times> nat option) option option" where
  "lpBatchInsert al lp p whr entries =
    (if whr = LP_REPLACE \<or> entries = [] then None
     else do {
       p \<leftarrow>
         (if whr = LP_AFTER then do {
            p \<leftarrow> lpSkip lp p;
            n \<leftarrow> lpGetTotalBytes lp;
            (if p \<ge> LP_HDR_SIZE \<and> p < n then Some p else None)
          } else Some p);
       let addedlen = sum_list (map (\<lambda>e. let n = snd (lpBatch_enc e) in n + length (lpEncodeBacklen n)) entries);
       old_listpack_bytes \<leftarrow> lpGetTotalBytes lp;
       let new_listpack_bytes = old_listpack_bytes + addedlen;
       (if new_listpack_bytes > UINT32_MAX then Some None
        else do {
          let poff = p;
          let lp = (if new_listpack_bytes > old_listpack_bytes \<and> new_listpack_bytes > length lp
                    then zrealloc al lp new_listpack_bytes else lp);
          let dst = poff;
          lp \<leftarrow> (if poff > old_listpack_bytes then None
                else memmove lp (dst + addedlen) dst (old_listpack_bytes - poff));
          (lp, newp) \<leftarrow> lpBatchInsert_loop lp dst None entries;
          num_elements \<leftarrow> lpGetNumElements lp;
          lp \<leftarrow>
            (if num_elements \<noteq> LP_HDR_NUMELE_UNKNOWN then
               (if int (length entries) > int LP_HDR_NUMELE_UNKNOWN - int num_elements
                then lpSetNumElements lp LP_HDR_NUMELE_UNKNOWN
                else lpSetNumElements lp (num_elements + length entries))
             else Some lp);
          lp \<leftarrow> lpSetTotalBytes lp new_listpack_bytes;
          Some (Some (lp, newp))
        })
     })"

definition lpBatchAppend :: "allocator \<Rightarrow> bytes \<Rightarrow> listpackEntry list \<Rightarrow> bytes option option" where
  "lpBatchAppend al lp entries = do {
     n \<leftarrow> lpGetTotalBytes lp;
     (if n = 0 then None else ptr_only (lpBatchInsert al lp (n - 1) LP_BEFORE entries))
   }"

section \<open>Merging, sizes, validation\<close>

text \<open>
  The two arguments are different, non-NULL blocks, so the NULL results of the C function
  do not occur. The result says which argument was kept (\<^term>\<open>True\<close>: the first one).
\<close>

definition lpMerge :: "allocator \<Rightarrow> bytes \<Rightarrow> bytes \<Rightarrow> (bytes \<times> bool) option" where
  "lpMerge al first second = do {
     first_bytes \<leftarrow> lpBytes first;
     (first_len, first) \<leftarrow> lpLength first;
     second_bytes \<leftarrow> lpBytes second;
     (second_len, second) \<leftarrow> lpLength second;
     let append = (first_bytes \<ge> second_bytes);
     let (target, target_bytes, source, source_bytes) =
       (if append then (first, first_bytes, second, second_bytes)
        else (second, second_bytes, first, first_bytes));
     let lpbytes = first_bytes + second_bytes - LP_HDR_SIZE - 1;
     (if \<not> lpbytes < UINT32_MAX then None
      else do {
        let lplength = first_len + second_len;
        let lplength = (if lplength < 65535 then lplength else 65535);
        let target = zrealloc al target lpbytes;
        target \<leftarrow>
          (if append then do {
             v \<leftarrow> rdn source LP_HDR_SIZE (source_bytes - LP_HDR_SIZE);
             wr target (target_bytes - 1) v
           } else do {
             target \<leftarrow> memmove target (source_bytes - 1) LP_HDR_SIZE (target_bytes - LP_HDR_SIZE);
             v \<leftarrow> rdn source 0 (source_bytes - 1);
             wr target 0 v
           });
        target \<leftarrow> lpSetNumElements target lplength;
        target \<leftarrow> lpSetTotalBytes target lpbytes;
        Some (target, append)
      })
   }"

definition lpDup :: "allocator \<Rightarrow> bytes \<Rightarrow> bytes option" where
  "lpDup al lp = do {
     n \<leftarrow> lpBytes lp;
     v \<leftarrow> rdn lp 0 n;
     wr (zmalloc al n) 0 v
   }"

definition lpEntrySizeInteger :: "int \<Rightarrow> nat" where
  "lpEntrySizeInteger lval =
    (let enclen = length (lpEncodeIntegerGetType lval) in enclen + lpEncodeBacklenBytes enclen)"

definition lpEstimateBytesRepeatedInteger :: "int \<Rightarrow> nat \<Rightarrow> nat" where
  "lpEstimateBytesRepeatedInteger lval rep = LP_HDR_SIZE + lpEntrySizeInteger lval * rep + 1"

definition lpValidateFirst :: "bytes \<Rightarrow> nat option option" where
  "lpValidateFirst lp = do {
     b \<leftarrow> rd lp LP_HDR_SIZE;
     Some (if b = LP_EOF then None else Some LP_HDR_SIZE)
   }"

text \<open>The loop returns the C result 0 as \<^term>\<open>None\<close> inside, else the final \<open>p\<close> and the count.\<close>

partial_function (option) lpValidate_loop ::
  "bytes \<Rightarrow> nat \<Rightarrow> nat \<Rightarrow> (nat \<Rightarrow> nat \<Rightarrow> bool) option \<Rightarrow> nat option \<Rightarrow> nat \<Rightarrow> (nat option \<times> nat) option option"
where
  "lpValidate_loop lp n numele entry_cb p count =
    (case p of
       None \<Rightarrow> Some (Some (None, count))
     | Some q \<Rightarrow> do {
         b \<leftarrow> rd lp q;
         (if b = LP_EOF then Some (Some (Some q, count))
          else do {
            (ok, p) \<leftarrow> lpValidateNext lp (Some q) n;
            (if \<not> ok then Some None
             else if (case entry_cb of None \<Rightarrow> False | Some cb \<Rightarrow> \<not> cb q numele) then Some None
             else lpValidate_loop lp n numele entry_cb p (u32add count 1))
          })
       })"

definition lpValidateIntegrity :: "bytes \<Rightarrow> nat \<Rightarrow> bool \<Rightarrow> (nat \<Rightarrow> nat \<Rightarrow> bool) option \<Rightarrow> bool option" where
  "lpValidateIntegrity lp sz deep entry_cb =
    (if sz < LP_HDR_SIZE + 1 then Some False
     else do {
       n \<leftarrow> lpGetTotalBytes lp;
       (if n \<noteq> sz then Some False
        else do {
          b \<leftarrow> rd lp (sz - 1);
          (if b \<noteq> LP_EOF then Some False
           else if \<not> deep then Some True
           else do {
             numele \<leftarrow> lpGetNumElements lp;
             r \<leftarrow> lpValidate_loop lp n numele entry_cb (Some LP_HDR_SIZE) 0;
             (case r of
                None \<Rightarrow> Some False
              | Some (p, count) \<Rightarrow>
                  (if p \<noteq> Some (sz - 1) then Some False
                   else if numele \<noteq> LP_HDR_NUMELE_UNKNOWN \<and> numele \<noteq> count then Some False
                   else Some True))
           })
        })
     })"

end
