(* ===== verification/Listpack_Entry.thy ===== *)
theory Listpack_Entry
  imports Listpack
begin

text \<open>
  Entries of a listpack: what the encoding byte says about the bytes that follow it, the
  value they hold, the encoders, and the length that is read backwards. An entry is
  described by its encoding \<open>e\<close> (\<open>lp_enc e\<close>), without the back length; \<open>at m p e\<close> places it
  in a block.
\<close>

section \<open>Bytes at an offset\<close>

definition at :: "bytes \<Rightarrow> nat \<Rightarrow> bytes \<Rightarrow> bool" where
  "at m p e \<longleftrightarrow> (\<exists>a b. m = a @ e @ b \<and> length a = p)"

lemma atI: "length a = p \<Longrightarrow> at (a @ e @ b) p e"
  by (auto simp: at_def)

lemma at_prefix: "at m p (e @ f) \<Longrightarrow> at m p e"
  by (auto simp: at_def)

lemma at_suffix: "at m p (e @ f) \<Longrightarrow> at m (p + length e) f"
proof -
  assume "at m p (e @ f)"
  then obtain a b where "m = a @ (e @ f) @ b" "length a = p" unfolding at_def by blast
  then have "m = (a @ e) @ f @ b" "length (a @ e) = p + length e" by simp_all
  then show ?thesis unfolding at_def by blast
qed

lemma rd_at: "rd e i = Some x \<Longrightarrow> at m p e \<Longrightarrow> rd m (p + i) = Some x"
  by (auto simp: at_def rd_def nth_append split: if_splits)

lemma rdn_at: "rdn e i n = Some v \<Longrightarrow> at m p e \<Longrightarrow> rdn m (p + i) n = Some v"
  by (auto simp: at_def rdn_def split: if_splits)

lemma rd_at0: "at m p (b # e) \<Longrightarrow> rd m p = Some b"
  using rd_at [of "b # e" 0 b m p] by (simp add: rd_def)

section \<open>Encoding bytes\<close>

lemma IS_tests [byte_tests]:
  "IS_7BIT_UINT b \<longleftrightarrow> unat b < 128" "IS_6BIT_STR b \<longleftrightarrow> 128 \<le> unat b \<and> unat b < 192"
  "IS_13BIT_INT b \<longleftrightarrow> 192 \<le> unat b \<and> unat b < 224" "IS_12BIT_STR b \<longleftrightarrow> 224 \<le> unat b \<and> unat b < 240"
  "IS_32BIT_STR b \<longleftrightarrow> unat b = 240" "IS_16BIT_INT b \<longleftrightarrow> unat b = 241" "IS_24BIT_INT b \<longleftrightarrow> unat b = 242"
  "IS_32BIT_INT b \<longleftrightarrow> unat b = 243" "IS_64BIT_INT b \<longleftrightarrow> unat b = 244"
  by (simp_all add: IS_7BIT_UINT_def IS_6BIT_STR_def IS_13BIT_INT_def IS_12BIT_STR_def byte_high_tests)
    (simp_all add: IS_32BIT_STR_def IS_16BIT_INT_def IS_24BIT_INT_def IS_32BIT_INT_def IS_64BIT_INT_def
      byte_full_mask word_unat_eq_iff)

lemma EOF_iff: "b = LP_EOF \<longleftrightarrow> unat b = 255"
  by (simp add: word_unat_eq_iff)

text \<open>An encoded element, without its back length: it knows its own size.\<close>

definition lp_enc :: "bytes \<Rightarrow> bool" where
  "lp_enc e \<longleftrightarrow> lpCurrentEncodedSizeUnsafe e 0 = Some (length e) \<and> e \<noteq> [] \<and> hd e \<noteq> LP_EOF"

definition lp_entry :: "bytes \<Rightarrow> bytes" where
  "lp_entry e = e @ lpEncodeBacklen (length e)"

definition lp_body :: "bytes list \<Rightarrow> bytes" where
  "lp_body es = concat (map lp_entry es)"

lemma lp_body_simps [simp]: "lp_body [] = []" "lp_body (e # es) = lp_entry e @ lp_body es"
  "lp_body (es @ fs) = lp_body es @ lp_body fs"
  by (simp_all add: lp_body_def)

lemma length_backlen [simp]: "length (lpEncodeBacklen l) = lpEncodeBacklenBytes l"
  by (simp add: lpEncodeBacklen_def lpEncodeBacklenBytes_def)

lemma backlen_bytes: "1 \<le> lpEncodeBacklenBytes l" "lpEncodeBacklenBytes l \<le> 5"
  by (simp_all add: lpEncodeBacklenBytes_def)

lemma length_lp_entry: "length (lp_entry e) = length e + lpEncodeBacklenBytes (length e)"
  by (simp add: lp_entry_def)

lemma STR_LEN_at:
  assumes "at m p e"
  shows "STR_LEN_6BIT e 0 = Some n \<Longrightarrow> STR_LEN_6BIT m p = Some n"
    "STR_LEN_12BIT e 0 = Some n \<Longrightarrow> STR_LEN_12BIT m p = Some n"
    "STR_LEN_32BIT e 0 = Some n \<Longrightarrow> STR_LEN_32BIT m p = Some n"
  using rd_at [OF _ assms, of 0] rd_at [OF _ assms, of 1] rdn_at [OF _ assms, of 1 4]
  by (fastforce simp: STR_LEN_6BIT_def STR_LEN_12BIT_def STR_LEN_32BIT_def bind_eq_Some_conv)+

lemma EncodedSize_at:
  assumes "lpCurrentEncodedSizeUnsafe e 0 = Some n" "at m p e"
  shows "lpCurrentEncodedSizeUnsafe m p = Some n"
proof -
  obtain b where b: "rd e 0 = Some b" using assms(1) by (auto simp: lpCurrentEncodedSizeUnsafe_def bind_eq_Some_conv)
  have r: "rd m p = Some b" using rd_at [OF b assms(2)] by simp
  show ?thesis
    using assms(1) unfolding lpCurrentEncodedSizeUnsafe_def b r
    by (auto simp: bind_eq_Some_conv STR_LEN_at [OF assms(2)] split: if_splits)
qed

lemma lpSkip_at: "lp_enc e \<Longrightarrow> at m p e \<Longrightarrow> lpSkip m p = Some (p + length (lp_entry e))"
  using EncodedSize_at [of e "length e" m p] by (simp add: lpSkip_def lp_enc_def length_lp_entry)

lemma lp_enc_lenbytes: "lp_enc e \<Longrightarrow> 0 < lpCurrentEncodedSizeBytes (hd e) \<and> lpCurrentEncodedSizeBytes (hd e) \<le> length e"
proof -
  assume e: "lp_enc e"
  then have "rd e 0 = Some (hd e)" by (cases e) (auto simp: lp_enc_def rd_def)
  then show ?thesis using e
    by (cases e)
      (auto simp: lp_enc_def lpCurrentEncodedSizeUnsafe_def lpCurrentEncodedSizeBytes_def STR_LEN_12BIT_def
        STR_LEN_32BIT_def rdn_def bind_eq_Some_conv split: if_splits)
qed

section \<open>The backward length\<close>

lemma or128:
  assumes "n < 128"
  shows "unat ((word_of_nat n OR 128 :: byte) AND 127) = n" "(word_of_nat n OR 128 :: byte) AND 128 \<noteq> 0"
proof -
  have "unat (word_of_nat n OR 128 :: byte) = n + 128"
    using assms by (simp add: byte_ors unat_of_nat_byte_small del: of_nat_add)
  then show "unat ((word_of_nat n OR 128 :: byte) AND 127) = n" "(word_of_nat n OR 128 :: byte) AND 128 \<noteq> 0"
    using assms byte_high_tests(1) [of "word_of_nat n OR 128"] byte_masks(1) [of "word_of_nat n OR 128"] by auto
qed

lemma low128:
  assumes "n < 128"
  shows "unat ((word_of_nat n :: byte) AND 127) = n" "(word_of_nat n :: byte) AND 128 = 0"
  using assms byte_high_tests(1) [of "word_of_nat n"] byte_masks(1) [of "word_of_nat n"] by simp_all

lemma Decode_step:
  assumes "at m (Suc p) [word_of_nat n OR 128]" "n < 128" "shift + 7 \<le> 28"
  shows "lpDecodeBacklen_loop m (Suc p) val shift = lpDecodeBacklen_loop m p (val + n * 2 ^ shift) (shift + 7)"
  using rd_at0 [OF assms(1)] or128 [OF assms(2)] assms(3) by (subst lpDecodeBacklen_loop.simps) (simp add: Let_def)

lemma Decode_step':
  assumes "at m q [word_of_nat n OR 128]" "n < 128" "shift + 7 \<le> 28" "q = Suc p"
  shows "lpDecodeBacklen_loop m q val shift = lpDecodeBacklen_loop m p (val + n * 2 ^ shift) (shift + 7)"
  using Decode_step assms by simp

lemma Decode_stop:
  assumes "at m p [word_of_nat n]" "n < 128"
  shows "lpDecodeBacklen_loop m p val shift = Some (val + n * 2 ^ shift)"
  using rd_at0 [OF assms(1)] low128 [OF assms(2)] by (subst lpDecodeBacklen_loop.simps) (simp add: Let_def)

lemma radix128: "l = l mod 128 + (l div 128 mod 128) * 128 + (l div 16384 mod 128) * 16384
    + (l div 2097152 mod 128) * 2097152 + (l div 268435456) * (268435456 :: nat)"
proof -
  have s: "n = n mod 128 + n div 128 * 128" for n :: nat by simp
  have "l div 128 div 128 = l div 16384" "l div 16384 div 128 = l div 2097152"
    "l div 2097152 div 128 = l div 268435456"
    by (simp_all add: div_mult2_eq [symmetric])
  then show ?thesis using s [of l] s [of "l div 128"] s [of "l div 16384"] s [of "l div 2097152"] by linarith
qed

lemma Decode_last:
  assumes "lpDecodeBacklen_loop m (p + (k - 1)) 0 0 = Some l" "lpEncodeBacklenBytes l = k" "1 \<le> k"
  shows "lpDecodeBacklen m (p + lpEncodeBacklenBytes l - 1) = Some l"
  using assms by (simp add: lpDecodeBacklen_def)

lemma Decode2:
  assumes "at m p ([word_of_nat b] @ [word_of_nat a OR 128])" "a < 128" "b < 128" "shift + 7 \<le> 28"
  shows "lpDecodeBacklen_loop m (p + 1) val shift = Some (val + a * 2 ^ shift + b * 2 ^ (shift + 7))"
  using Decode_step [of m p a shift val] Decode_stop [of m p b] at_prefix [OF assms(1)] at_suffix [OF assms(1)] assms
  by simp

lemma Decode3:
  assumes "at m p ([word_of_nat c] @ [word_of_nat b OR 128] @ [word_of_nat a OR 128])"
    "a < 128" "b < 128" "c < 128" "shift + 14 \<le> 28"
  shows "lpDecodeBacklen_loop m (p + 2) val shift = Some (val + a * 2 ^ shift + b * 2 ^ (shift + 7) + c * 2 ^ (shift + 14))"
proof -
  have s: "at m p (([word_of_nat c] @ [word_of_nat b OR 128]) @ [word_of_nat a OR 128])" using assms(1) by simp
  show ?thesis
    using Decode_step [of m "p + 1" a shift val] Decode2 [OF at_prefix [OF s], of "shift + 7"] at_suffix [OF s] assms
    by simp
qed

lemma Decode4:
  assumes "at m p ([word_of_nat d] @ [word_of_nat c OR 128] @ [word_of_nat b OR 128] @ [word_of_nat a OR 128])"
    "a < 128" "b < 128" "c < 128" "d < 128" "shift + 21 \<le> 28"
  shows "lpDecodeBacklen_loop m (p + 3) val shift =
    Some (val + a * 2 ^ shift + b * 2 ^ (shift + 7) + c * 2 ^ (shift + 14) + d * 2 ^ (shift + 21))"
proof -
  have s: "at m p (([word_of_nat d] @ [word_of_nat c OR 128] @ [word_of_nat b OR 128]) @ [word_of_nat a OR 128])"
    using assms(1) by simp
  have "lpDecodeBacklen_loop m (p + 3) val shift = lpDecodeBacklen_loop m (p + 2) (val + a * 2 ^ shift) (shift + 7)"
    using at_suffix [OF s] assms(2,6) by (intro Decode_step') (simp_all add: numeral_eq_Suc)
  then show ?thesis
    using Decode3 [OF at_prefix [OF s] assms(3,4,5), of "shift + 7" "val + a * 2 ^ shift"] assms(6)
    by (simp add: ac_simps)
qed

lemma Decode5:
  assumes "at m p ([word_of_nat e] @ [word_of_nat d OR 128] @ [word_of_nat c OR 128] @ [word_of_nat b OR 128] @ [word_of_nat a OR 128])"
    "a < 128" "b < 128" "c < 128" "d < 128" "e < 128"
  shows "lpDecodeBacklen_loop m (p + 4) 0 0 = Some (a + b * 2 ^ 7 + c * 2 ^ 14 + d * 2 ^ 21 + e * 2 ^ 28)"
proof -
  have s: "at m p (([word_of_nat e] @ [word_of_nat d OR 128] @ [word_of_nat c OR 128] @ [word_of_nat b OR 128]) @ [word_of_nat a OR 128])"
    using assms(1) by simp
  have "lpDecodeBacklen_loop m (p + 4) 0 0 = lpDecodeBacklen_loop m (p + 3) (0 + a * 2 ^ 0) (0 + 7)"
    using at_suffix [OF s] assms(2) by (intro Decode_step') (simp_all add: numeral_eq_Suc)
  then show ?thesis
    using Decode4 [OF at_prefix [OF s] assms(3,4,5,6), of 7 a] by simp
qed

lemma lpDecodeBacklen_at:
  assumes "at m p (lpEncodeBacklen l)" "l < 2 ^ 35"
  shows "lpDecodeBacklen m (p + lpEncodeBacklenBytes l - 1) = Some l"
proof -
  note r = radix128 [of l] and m = mod_less_divisor [of 128, OF zero_less_numeral]
  consider "l \<le> 127" | "127 < l" "l < 16383" | "16383 \<le> l" "l < 2097151" | "2097151 \<le> l" "l < 268435455"
    | "268435455 \<le> l" by linarith
  then show ?thesis
  proof cases
    case 1
    then show ?thesis using assms Decode_stop [of m p l 0 0]
      by (simp add: lpDecodeBacklen_def lpEncodeBacklen_def lpEncodeBacklenBytes_def)
  next
    case 2
    then have "l div 128 < 128" by linarith
    then show ?thesis using 2 assms(1) Decode2 [of m p "l div 128" "l mod 128" 0 0]
      by (intro Decode_last [where k = 2]) (simp_all add: lpEncodeBacklen_def lpEncodeBacklenBytes_def)
  next
    case 3
    then have d: "l div 16384 < 128" by linarith
    then have "l mod 128 + l div 128 mod 128 * 128 + l div 16384 * 16384 = l" using r 3(2) by simp
    then show ?thesis using d 3 assms(1) Decode3 [of m p "l div 16384" "l div 128 mod 128" "l mod 128" 0 0]
      by (intro Decode_last [where k = 3]) (simp_all add: lpEncodeBacklen_def lpEncodeBacklenBytes_def)
  next
    case 4
    then have d: "l div 2097152 < 128" by linarith
    then have "l mod 128 + l div 128 mod 128 * 128 + l div 16384 mod 128 * 16384 + l div 2097152 * 2097152 = l"
      using r 4(2) by simp
    then show ?thesis
      using d 4 assms(1) Decode4 [of m p "l div 2097152" "l div 16384 mod 128" "l div 128 mod 128" "l mod 128" 0 0]
      by (intro Decode_last [where k = 4]) (simp_all add: lpEncodeBacklen_def lpEncodeBacklenBytes_def)
  next
    case 5
    have "l div 268435456 < 128" using assms(2) by simp
    then show ?thesis
      using 5 r assms(1) Decode5 [of m p "l div 268435456" "l div 2097152 mod 128" "l div 16384 mod 128"
          "l div 128 mod 128" "l mod 128"]
      by (intro Decode_last [where k = 5]) (simp_all add: lpEncodeBacklen_def lpEncodeBacklenBytes_def)
  qed
qed


lemma byte_ranges:
  obtains "unat (b :: byte) < 128" | "128 \<le> unat b" "unat b < 192" | "192 \<le> unat b" "unat b < 224" | "224 \<le> unat b" "unat b < 240"
    | "unat b = 240" | "unat b = 241" | "unat b = 242" | "unat b = 243" | "unat b = 244" | "245 \<le> unat b" "unat b < 255" | "unat b = 255"
  using unat_byte_lt [of b] by linarith

lemma lp_enc_cases:
  assumes "lp_enc e"
  obtains (u7) b where "e = [b]" "unat b < 128"
    | (s6) b s where "e = b # s" "128 \<le> unat b" "unat b < 192" "length s = unat (b AND 0x3F)"
    | (i13) b c where "e = [b, c]" "192 \<le> unat b" "unat b < 224"
    | (s12) b c s where "e = b # c # s" "224 \<le> unat b" "unat b < 240" "length s = unat (b AND 0xF) * 256 + unat c"
    | (s32) b l s where "e = b # l @ s" "unat b = 240" "length l = 4" "length s = le_val l" "length s + 5 < 2 ^ 32"
    | (i16) b l where "e = b # l" "unat b = 241" "length l = 2"
    | (i24) b l where "e = b # l" "unat b = 242" "length l = 3"
    | (i32) b l where "e = b # l" "unat b = 243" "length l = 4"
    | (i64) b l where "e = b # l" "unat b = 244" "length l = 8"
proof -
  obtain b r where e: "e = b # r" using assms by (cases e) (auto simp: lp_enc_def)
  have sz: "lpCurrentEncodedSizeUnsafe (b # r) 0 = Some (Suc (length r))" and neof: "unat b \<noteq> 255"
    using assms e EOF_iff by (auto simp: lp_enc_def)
  have rd0: "rd (x # y) 0 = Some x" for x :: byte and y by (simp add: rd_def)
  note d = lpCurrentEncodedSizeUnsafe_def rd0 IS_tests
  show ?thesis
  proof (cases b rule: byte_ranges)
    case 1 then show ?thesis using sz e u7 by (simp add: d)
  next
    case 2 then show ?thesis using sz e s6 by (auto simp: d STR_LEN_6BIT_def)
  next
    case 3
    then have "length r = 1" using sz by (simp add: d)
    then show ?thesis using 3 e i13 by (cases r) auto
  next
    case 4
    then have "r \<noteq> []" using sz by (auto simp: d STR_LEN_12BIT_def rd_def)
    then obtain c s where r: "r = c # s" by (cases r) auto
    have "rd (b # r) 1 = Some c" by (simp add: r rd_def)
    then have "length s = unat (b AND 0xF) * 256 + unat c" using sz 4 r by (simp add: d STR_LEN_12BIT_def)
    then show ?thesis using 4 e r s12 [of b c s] by simp
  next
    case 5
    then obtain v where v: "rdn (b # r) 1 4 = Some v" "u32add 5 (le_val v) = Suc (length r)"
      using sz by (auto simp: d STR_LEN_32BIT_def bind_eq_Some_conv)
    then have v4: "v = take 4 r" "4 \<le> length r" by (auto simp: rdn_def split: if_splits)
    have lv: "le_val v < 2 ^ 32" using le_val_bound [of v] v4 by simp
    have "\<not> 2 ^ 32 \<le> 5 + le_val v"
    proof
      assume g: "2 ^ 32 \<le> 5 + le_val v"
      then have "(5 + le_val v) mod 2 ^ 32 = 5 + le_val v - 2 ^ 32" using lv by (subst le_mod_geq) auto
      then show False using v(2) v4(2) lv by (simp add: u32add_def)
    qed
    then have "5 + le_val v = Suc (length r)" using v(2) by (simp add: u32add_def)
    then show ?thesis using v4 e 5 lv \<open>\<not> 2 ^ 32 \<le> 5 + le_val v\<close> by (intro s32 [of b v "drop 4 r"]) auto
  next
    case 6 then show ?thesis using sz e i16 by (simp add: d)
  next
    case 7 then show ?thesis using sz e i24 by (simp add: d)
  next
    case 8 then show ?thesis using sz e i32 by (simp add: d)
  next
    case 9 then show ?thesis using sz e i64 by (simp add: d)
  next
    case 10 then show ?thesis using sz EOF_iff [of b] by (simp add: d)
  next
    case 11 then show ?thesis using neof by simp
  qed
qed

lemma lp_enc_lt: "lp_enc e \<Longrightarrow> length e < 2 ^ 32"
proof (erule lp_enc_cases)
  fix b :: byte and s :: bytes
  assume e: "e = b # s" and "length s = unat (b AND 63)"
  then have "length s < 256" by simp
  then show ?thesis using e by simp
next
  fix b c :: byte and s :: bytes
  assume e: "e = b # c # s" and l: "length s = unat (b AND 15) * 256 + unat c"
  have "length s < 65792" using l unat_byte_lt [of "b AND 15"] unat_byte_lt [of c] by linarith
  then show ?thesis using e by simp
qed simp_all

text \<open>The value an entry holds.\<close>

datatype lp_value = LInt int | LStr bytes

definition lp_val :: "bytes \<Rightarrow> lp_value" where
  "lp_val e = (case lpGet e 0 None of
     Some (Ptr q n) \<Rightarrow> LStr (take (nat n) (drop q e))
   | Some (Val v) \<Rightarrow> LInt v
   | _ \<Rightarrow> LInt 0)"

lemma rd_Cons0 [simp]: "rd (b # m) 0 = Some b" "rd (b # c # m) (Suc 0) = Some c"
  by (simp_all add: rd_def)

lemma STR_LEN_self:
  "STR_LEN_6BIT (b # s) 0 = Some (unat (b AND 0x3F))"
  "STR_LEN_12BIT (b # c # s) 0 = Some (unat (b AND 0xF) * 256 + unat c)"
  "length l = 4 \<Longrightarrow> STR_LEN_32BIT (b # l @ s) 0 = Some (le_val l)"
  by (simp_all add: STR_LEN_6BIT_def STR_LEN_12BIT_def STR_LEN_32BIT_def rd_def rdn_def)

lemma lp_val_str:
  "128 \<le> unat b \<Longrightarrow> unat b < 192 \<Longrightarrow> length s = unat (b AND 0x3F) \<Longrightarrow> lp_val (b # s) = LStr s"
  "224 \<le> unat b \<Longrightarrow> unat b < 240 \<Longrightarrow> length s = unat (b AND 0xF) * 256 + unat c \<Longrightarrow> lp_val (b # c # s) = LStr s"
  "unat b = 240 \<Longrightarrow> length l = 4 \<Longrightarrow> length s = le_val l \<Longrightarrow> lp_val (b # l @ s) = LStr s"
proof -
  note g = lp_val_def lpGet_def lpGetWithBuf_def IS_tests STR_LEN_self
  show "128 \<le> unat b \<Longrightarrow> unat b < 192 \<Longrightarrow> length s = unat (b AND 0x3F) \<Longrightarrow> lp_val (b # s) = LStr s"
    by (simp only: g rd_Cons0) simp
  show "unat b = 240 \<Longrightarrow> length l = 4 \<Longrightarrow> length s = le_val l \<Longrightarrow> lp_val (b # l @ s) = LStr s"
    by (simp add: g)
  assume c: "224 \<le> unat b" "unat b < 240" and l: "length s = unat (b AND 0xF) * 256 + unat c"
  have "STR_LEN_12BIT (b # c # s) 0 = Some (length s)" using l by (simp only: STR_LEN_self)
  then show "lp_val (b # c # s) = LStr s" using c
    by (simp add: lp_val_def lpGet_def lpGetWithBuf_def IS_tests)
qed

lemma rd_append1: "rd (a @ x # y # z) (Suc (length a)) = Some y"
  by (simp add: rd_def nth_append)

lemma rdn_append1: "length l = n \<Longrightarrow> rdn (a @ x # l @ z) (Suc (length a)) n = Some l"
  by (simp add: rdn_def)

lemma rd_append0: "rd (a @ x # z) (length a) = Some x"
  by (simp add: rd_def nth_append)

text \<open>The same inside a block: the two readers agree, and report the size of the whole entry.\<close>

lemma lpGet_at:
  assumes "lp_enc e" "at m p e"
  shows "\<exists>r. lpGet m p None = Some r \<and> lpGetWithSize m p None = Some (r, Some (length (lp_entry e))) \<and>
    (case lp_val e of
       LInt v \<Rightarrow> r = Val v
     | LStr s \<Rightarrow> (\<exists>q. r = Ptr q (int (length s)) \<and> rdn m q (length s) = Some s \<and> p < q \<and> q + length s = p + length e))"
proof -
  obtain a c where m: "m = a @ e @ c" and p: "p = length a" using assms(2) by (auto simp: at_def)
  note g = lpGet_def lpGetWithBuf_def lpGetWithSize_def IS_tests rd_append0 rd_append1 rdn_append1
    lpIntResult_def rdn_def length_lp_entry
  from assms(1) show ?thesis
  proof (cases rule: lp_enc_cases)
    case (s6 b s)
    have "STR_LEN_6BIT m p = Some (length s)" using STR_LEN_at(1) [OF assms(2)] s6 STR_LEN_self(1) [of b s] by simp
    then show ?thesis using s6(1-3) lp_val_str(1) [OF s6(2-4)] m p by (simp add: g)
  next
    case (s12 b cc s)
    have "STR_LEN_12BIT m p = Some (length s)" using STR_LEN_at(2) [OF assms(2)] s12 STR_LEN_self(2) [of b cc s] by simp
    then show ?thesis using s12(1-3) lp_val_str(2) [OF s12(2-4)] m p by (simp add: g)
  next
    case (s32 b l s)
    have "STR_LEN_32BIT m p = Some (length s)" using STR_LEN_at(3) [OF assms(2)] s32 STR_LEN_self(3) [of l b s] by simp
    then show ?thesis using s32(1-3) lp_val_str(3) [OF s32(2-4)] m p by (simp add: g add.commute)
  qed (use m p in \<open>simp_all add: g lp_val_def lpEncodeBacklenBytes_def\<close>)
qed

text \<open>The three-step conversion of the code is the two's complement reading.\<close>

lemma lpSigned_u2s:
  "n < 2 ^ 13 \<Longrightarrow> lpSigned n 4096 8191 = u2s 13 n" "n < 2 ^ 16 \<Longrightarrow> lpSigned n 32768 65535 = u2s 16 n"
  "n < 2 ^ 24 \<Longrightarrow> lpSigned n 8388608 16777215 = u2s 24 n" "n < 2 ^ 32 \<Longrightarrow> lpSigned n 2147483648 UINT32_MAX = u2s 32 n"
  "n < 2 ^ 64 \<Longrightarrow> lpSigned n 9223372036854775808 ULLONG_MAX = u2s 64 n"
  "n < 2 ^ 64 - 1 \<Longrightarrow> lpSigned n ULLONG_MAX 0 = int n"
  by (simp_all add: lpSigned_def u2s_def)

lemma i13_lt: "unat (x AND 31 :: byte) * 256 + unat (y :: byte) < 2 ^ 13"
proof -
  have "unat (x AND 31) < 32" by (simp add: byte_masks)
  then have "unat (x AND 31) * 256 + unat y < 8192" using unat_byte_lt [of y] by linarith
  then show ?thesis by simp
qed

lemma lp_val_int:
  "unat b < 128 \<Longrightarrow> lp_val [b] = LInt (int (unat b))"
  "192 \<le> unat b \<Longrightarrow> unat b < 224 \<Longrightarrow> lp_val [b, c] = LInt (u2s 13 (unat (b AND 0x1F) * 256 + unat c))"
  "unat b = 241 \<Longrightarrow> length l = 2 \<Longrightarrow> lp_val (b # l) = LInt (u2s 16 (le_val l))"
  "unat b = 242 \<Longrightarrow> length l = 3 \<Longrightarrow> lp_val (b # l) = LInt (u2s 24 (le_val l))"
  "unat b = 243 \<Longrightarrow> length l = 4 \<Longrightarrow> lp_val (b # l) = LInt (u2s 32 (le_val l))"
  "unat b = 244 \<Longrightarrow> length l = 8 \<Longrightarrow> lp_val (b # l) = LInt (u2s 64 (le_val l))"
proof -
  note g = lp_val_def lpGet_def lpGetWithBuf_def IS_tests lpIntResult_def rdn_def
  show "unat b < 128 \<Longrightarrow> lp_val [b] = LInt (int (unat b))"
  proof -
    assume b: "unat b < 128"
    then have "unat (b AND 0x7F) = unat b" by (simp add: byte_masks)
    then show ?thesis using b lpSigned_u2s(6) [of "unat b"] by (simp add: g)
  qed
  show "192 \<le> unat b \<Longrightarrow> unat b < 224 \<Longrightarrow> lp_val [b, c] = LInt (u2s 13 (unat (b AND 0x1F) * 256 + unat c))"
    using lpSigned_u2s(1) [OF i13_lt] by (simp add: g)
  have bound: "le_val l < 256 ^ length l" by (rule le_val_bound)
  show "unat b = 241 \<Longrightarrow> length l = 2 \<Longrightarrow> lp_val (b # l) = LInt (u2s 16 (le_val l))"
    using lpSigned_u2s(2) bound by (simp add: g)
  show "unat b = 242 \<Longrightarrow> length l = 3 \<Longrightarrow> lp_val (b # l) = LInt (u2s 24 (le_val l))"
    using lpSigned_u2s(3) bound by (simp add: g)
  show "unat b = 243 \<Longrightarrow> length l = 4 \<Longrightarrow> lp_val (b # l) = LInt (u2s 32 (le_val l))"
    using lpSigned_u2s(4) bound by (simp add: g)
  show "unat b = 244 \<Longrightarrow> length l = 8 \<Longrightarrow> lp_val (b # l) = LInt (u2s 64 (le_val l))"
    using lpSigned_u2s(5) bound by (simp add: g)
qed

lemma lp_val_int64: "lp_enc e \<Longrightarrow> lp_val e = LInt v \<Longrightarrow> int64 v"
proof -
  assume e: "lp_enc e" and v: "lp_val e = LInt v"
  have b: "le_val l < 256 ^ length l" for l by (rule le_val_bound)
  note f = fits_mono [OF fits_u2s]
  from e show ?thesis
  proof (cases rule: lp_enc_cases)
    case (u7 x)
    then have "v = int (unat x)" using v lp_val_int(1) [of x] by simp
    then obtain n where "v = int n" "n < 256" using unat_byte_lt by blast
    then show ?thesis by (simp add: fits_def)
  next
    case (i13 x y) then show ?thesis using v lp_val_int(2) [of x y] f [OF i13_lt, of 64 x y] by simp
  next
    case (i16 x l) then show ?thesis using v lp_val_int(3) [of x l] b [of l] f [of "le_val l" 16 64] by simp
  next
    case (i24 x l) then show ?thesis using v lp_val_int(4) [of x l] b [of l] f [of "le_val l" 24 64] by simp
  next
    case (i32 x l) then show ?thesis using v lp_val_int(5) [of x l] b [of l] f [of "le_val l" 32 64] by simp
  next
    case (i64 x l) then show ?thesis using v lp_val_int(6) [of x l] b [of l] f [of "le_val l" 64 64] by simp
  next
    case (s6 x s) then show ?thesis using v lp_val_str(1) by simp
  next
    case (s12 x y s) then show ?thesis using v lp_val_str(2) by simp
  next
    case (s32 x l s) then show ?thesis using v lp_val_str(3) by simp
  qed
qed

section \<open>Encoding\<close>

lemma EncodedSize_byte:
  "unat b < 128 \<Longrightarrow> lp_enc [b]"
  "128 \<le> unat b \<Longrightarrow> unat b < 192 \<Longrightarrow> length s = unat (b AND 0x3F) \<Longrightarrow> lp_enc (b # s)"
  "192 \<le> unat b \<Longrightarrow> unat b < 224 \<Longrightarrow> lp_enc [b, c]"
  "224 \<le> unat b \<Longrightarrow> unat b < 240 \<Longrightarrow> length s = unat (b AND 0xF) * 256 + unat c \<Longrightarrow> lp_enc (b # c # s)"
  "unat b = 240 \<Longrightarrow> length l = 4 \<Longrightarrow> length s = le_val l \<Longrightarrow> length s + 5 < 2 ^ 32 \<Longrightarrow> lp_enc (b # l @ s)"
  "unat b = 241 \<Longrightarrow> length l = 2 \<Longrightarrow> lp_enc (b # l)" "unat b = 242 \<Longrightarrow> length l = 3 \<Longrightarrow> lp_enc (b # l)"
  "unat b = 243 \<Longrightarrow> length l = 4 \<Longrightarrow> lp_enc (b # l)" "unat b = 244 \<Longrightarrow> length l = 8 \<Longrightarrow> lp_enc (b # l)"
  by (simp_all add: lp_enc_def lpCurrentEncodedSizeUnsafe_def IS_tests EOF_iff STR_LEN_self u32add_def)

lemma twos_complement: "fits w v \<Longrightarrow> 0 < w \<Longrightarrow> nat (if v < 0 then 2 ^ w + v else v) = s2u w v"
proof -
  assume "fits w v" "0 < w"
  then have b: "- (2 ^ (w - 1)) \<le> v" "v < 2 ^ (w - 1)" "(2 :: int) ^ w = 2 * 2 ^ (w - 1)"
    by (auto simp: fits_def power_eq_if)
  have "(2 ^ w + v) mod 2 ^ w = v mod 2 ^ w" by simp
  moreover have "v < 0 \<Longrightarrow> (2 ^ w + v) mod 2 ^ w = 2 ^ w + v" using b by (intro mod_pos_pos_trivial) linarith+
  moreover have "\<not> v < 0 \<Longrightarrow> v mod 2 ^ w = v" using b by (intro mod_pos_pos_trivial) linarith+
  ultimately show ?thesis by (simp add: s2u_def)
qed

lemma enc_int_wide:
  assumes "fits w v" "0 < w" "2 ^ w = (256 :: nat) ^ k"
  shows "le_val (le_bytes k (nat (if v < 0 then 2 ^ w + v else v))) = s2u w v" "u2s w (s2u w v) = v"
  using assms s2u_lt [of w v] by (simp_all only: twos_complement le_val_le_bytes_small u2s_s2u)

lemma enc_int_13:
  assumes "fits 13 v" "n = (if v < 0 then 2 ^ 13 + v else v)"
    "e = [word_of_int (n div 256) OR 0xC0, word_of_int (n mod 256)]"
  shows "lp_enc e \<and> lp_val e = LInt v"
proof -
  define k where "k = s2u 13 v"
  have k: "k < 8192" using s2u_lt [of 13 v] by (simp add: k_def)
  have "0 \<le> n" using assms(1,2) by (auto simp: fits_def)
  then have n: "n = int k" using twos_complement [OF assms(1)] assms(2) by (simp add: k_def)
  have kd: "k div 256 < 32" using k by linarith
  have "n div 256 = int (k div 256)" "n mod 256 = int (k mod 256)" by (simp_all add: n zdiv_int zmod_int)
  then have "e = [word_of_nat (k div 256) OR 0xC0, word_of_nat (k mod 256)]" using assms(3) by (simp only: of_int_of_nat_eq)
  then have e: "e = [word_of_nat (k div 256 + 192), word_of_nat (k mod 256)]" using byte_ors(3) [OF kd] by simp
  have u: "unat (word_of_nat (k div 256 + 192) :: byte) = k div 256 + 192" using kd by (intro unat_of_nat_byte_small) linarith
  have "unat ((word_of_nat (k div 256 + 192) :: byte) AND 0x1F) = k div 256"
    unfolding byte_masks u using kd by (simp add: mod_add_eq [symmetric, of _ 192])
  then have "lp_val e = LInt (u2s 13 (k div 256 * 256 + k mod 256))"
    using lp_val_int(2) [of "word_of_nat (k div 256 + 192)"] u kd e by simp
  then show ?thesis using EncodedSize_byte(3) u kd e u2s_s2u [OF assms(1)] by (simp add: k_def)
qed

lemma lp_encode_int:
  assumes "int64 v"
  shows "lp_enc (lpEncodeIntegerGetType v) \<and> lp_val (lpEncodeIntegerGetType v) = LInt v"
proof -
  consider "0 \<le> v" "v \<le> 127" | "\<not> (0 \<le> v \<and> v \<le> 127)" "fits 13 v" | "\<not> fits 13 v" "fits 16 v"
    | "\<not> fits 16 v" "fits 24 v" | "\<not> fits 24 v" "fits 32 v" | "\<not> fits 32 v"
    by (auto simp: fits_def)
  then show ?thesis
  proof cases
    case 1
    then have u: "unat (word_of_int v :: byte) = nat v" by (simp add: unat_eq_nat_uint uint_word_of_int)
    then show ?thesis using 1 lp_val_int(1) [of "word_of_int v"] EncodedSize_byte(1) [of "word_of_int v"]
      by (simp add: lpEncodeIntegerGetType_def del: of_nat_unat)
  next
    case 2
    then have "lpEncodeIntegerGetType v = [word_of_int ((if v < 0 then 2 ^ 13 + v else v) div 256) OR 0xC0,
        word_of_int ((if v < 0 then 2 ^ 13 + v else v) mod 256)]"
      by (auto simp: lpEncodeIntegerGetType_def fits_def Let_def)
    then show ?thesis using enc_int_13 [OF 2(2) refl] by simp
  next
    case 3
    then have "lpEncodeIntegerGetType v = 0xF1 # le_bytes 2 (nat (if v < 0 then 2 ^ 16 + v else v))"
      by (auto simp: lpEncodeIntegerGetType_def fits_def Let_def)
    then show ?thesis using enc_int_wide [OF 3(2), of 2] lp_val_int(3) [of "0xF1"] EncodedSize_byte(6) [of "0xF1"] by simp
  next
    case 4
    then have "lpEncodeIntegerGetType v = 0xF2 # le_bytes 3 (nat (if v < 0 then 2 ^ 24 + v else v))"
      by (auto simp: lpEncodeIntegerGetType_def fits_def Let_def)
    then show ?thesis using enc_int_wide [OF 4(2), of 3] lp_val_int(4) [of "0xF2"] EncodedSize_byte(7) [of "0xF2"] by simp
  next
    case 5
    then have "lpEncodeIntegerGetType v = 0xF3 # le_bytes 4 (nat (if v < 0 then 2 ^ 32 + v else v))"
      by (auto simp: lpEncodeIntegerGetType_def fits_def Let_def)
    then show ?thesis using enc_int_wide [OF 5(2), of 4] lp_val_int(5) [of "0xF3"] EncodedSize_byte(8) [of "0xF3"] by simp
  next
    case 6
    then have "lpEncodeIntegerGetType v = 0xF4 # le_bytes 8 (s2u 64 v)"
      by (auto simp: lpEncodeIntegerGetType_def fits_def Let_def)
    then show ?thesis using assms s2u_lt [of 64 v] u2s_s2u [of 64 v] lp_val_int(6) [of "0xF4"] EncodedSize_byte(9) [of "0xF4"] by simp
  qed
qed

lemma lp_encode_str:
  assumes "length s + 5 < 2 ^ 32"
  shows "lp_enc (lpEncodeString s) \<and> lp_val (lpEncodeString s) = LStr s"
proof -
  consider "length s < 64" | "64 \<le> length s" "length s < 4096" | "4096 \<le> length s" by linarith
  then show ?thesis
  proof cases
    case 1
    let ?b = "word_of_nat (length s) OR 0x80 :: byte"
    have u: "unat ?b = length s + 128" unfolding byte_ors(2) [OF 1] using 1 by (intro unat_of_nat_byte_small) linarith
    have "length s = unat (?b AND 0x3F)" unfolding byte_masks u using 1 by (simp add: mod_add_eq [symmetric, of _ 128])
    then show ?thesis using 1 u lp_val_str(1) [of ?b s] EncodedSize_byte(2) [of ?b s]
      by (simp only: lpEncodeString_def Let_def if_True)
  next
    case 2
    let ?b = "word_of_nat (length s div 256) OR 0xE0 :: byte" and ?c = "word_of_nat (length s mod 256) :: byte"
    have k: "length s div 256 < 16" using 2 by linarith
    have u: "unat ?b = length s div 256 + 224" unfolding byte_ors(4) [OF k] using k by (intro unat_of_nat_byte_small) linarith
    have c: "unat ?c = length s mod 256" by simp
    have "unat (?b AND 0xF) = length s div 256" unfolding byte_masks u using k by (simp add: mod_add_eq [symmetric, of _ 224])
    then have "length s = unat (?b AND 0xF) * 256 + unat ?c" using c by simp
    then show ?thesis using 2 k u lp_val_str(2) [of ?b s ?c] EncodedSize_byte(4) [of ?b s ?c]
      by (simp only: lpEncodeString_def Let_def not_less [symmetric] if_True if_False)
  next
    case 3
    have "le_val (le_bytes 4 (length s)) = length s" using assms by simp
    then show ?thesis using 3 assms lp_val_str(3) [of "0xF0" "le_bytes 4 (length s)" s]
        EncodedSize_byte(5) [of "0xF0" "le_bytes 4 (length s)" s] by (simp add: lpEncodeString_def Let_def)
  qed
qed

lemma lpStringToInt64_loop_eq: "lpStringToInt64_loop = string2ll_loop"
proof (intro ext)
  fix v s show "lpStringToInt64_loop v s = string2ll_loop v s"
    by (induction v s rule: lpStringToInt64_loop.induct) auto
qed

lemma lpStringToInt64_eq: "lpStringToInt64 s = string2ll s"
  unfolding lpStringToInt64_def string2ll_def lpStringToInt64_loop_eq by (rule refl)

text \<open>What a string becomes, and the string an entry stands for.\<close>

definition lp_encode :: "bytes \<Rightarrow> bytes" where
  "lp_encode s = (case string2ll s of Some v \<Rightarrow> lpEncodeIntegerGetType v | None \<Rightarrow> lpEncodeString s)"

definition lp_str :: "bytes \<Rightarrow> bytes" where
  "lp_str e = (case lp_val e of LInt v \<Rightarrow> ll_repr v | LStr s \<Rightarrow> s)"

lemma lp_str_encode:
  assumes "length s + 5 < 2 ^ 32"
  shows "lp_enc (lp_encode s)" "lp_str (lp_encode s) = s"
proof -
  have "lp_enc (lp_encode s) \<and> lp_str (lp_encode s) = s"
  proof (cases "string2ll s")
    case None
    then show ?thesis using lp_encode_str [OF assms] by (simp add: lp_encode_def lp_str_def)
  next
    case (Some v)
    then show ?thesis using string2ll_Some_repr [OF Some] lp_encode_int [of v] by (simp add: lp_encode_def lp_str_def)
  qed
  then show "lp_enc (lp_encode s)" "lp_str (lp_encode s) = s" by simp_all
qed

lemma lpEncodeGetType_spec:
  "lpEncodeGetType s =
    ((case string2ll s of Some v \<Rightarrow> LP_ENCODING_INT (lp_encode s) | None \<Rightarrow> LP_ENCODING_STRING), length (lp_encode s))"
  by (simp add: lpEncodeGetType_def lpStringToInt64_eq lp_encode_def lpEncodeString_def Let_def split: option.split)


section \<open>Properties\<close>

text \<open>
  The back length: written behind an entry by \<^verbatim>\<open>lpEncodeBacklen\<close> in one to five bytes, it
  is what \<^verbatim>\<open>lpDecodeBacklen\<close> reads from its last byte backwards, for every length below
  \<open>2 ^ 35\<close> and whatever surrounds it.
\<close>

theorem lpBacklen_roundtrip:
  assumes "l < 2 ^ 35"
  shows "lpDecodeBacklen (a @ lpEncodeBacklen l @ b) (length a + lpEncodeBacklenBytes l - 1) = Some l"
  using lpDecodeBacklen_at [OF atI assms] by simp

theorem lpBacklen_roundtrip_witness: "lpDecodeBacklen ([7] @ lpEncodeBacklen 16383 @ [9]) 3 = Some 16383"
  using lpBacklen_roundtrip [of 16383 "[7]" "[9]"] by (simp add: lpEncodeBacklenBytes_def)

text \<open>
  C32. Every \<^verbatim>\<open>int64_t\<close>, encoded by \<^verbatim>\<open>lpEncodeIntegerGetType\<close> in the shortest of the six integer
  encodings, is read back by \<^verbatim>\<open>lpGet\<close> as that integer, and \<^verbatim>\<open>lpGetWithSize\<close> also reports
  the size of the encoding and its back length.
\<close>

theorem lpInteger_roundtrip:
  assumes "int64 v"
  shows "lpGet (a @ lpEncodeIntegerGetType v @ b) (length a) None = Some (Val v) \<and>
    lpGetWithSize (a @ lpEncodeIntegerGetType v @ b) (length a) None = Some (Val v, Some (lpEntrySizeInteger v))"
  using lp_encode_int [OF assms] lpGet_at [OF _ atI [OF refl], of "lpEncodeIntegerGetType v" a b]
  by (auto simp: lpEntrySizeInteger_def length_lp_entry Let_def)

theorem lpInteger_roundtrip_witness:
  "lpGet ([1, 2] @ lpEncodeIntegerGetType (- 4097) @ [3]) 2 None = Some (Val (- 4097))"
  using lpInteger_roundtrip [of "- 4097" "[1, 2]" "[3]"] by (simp add: fits_def numeral_2_eq_2)

end
