(* ===== verification/Listpack_Refine.thy ===== *)
theory Listpack_Refine
  imports Listpack_Entry
begin

text \<open>
  A listpack represents a list of entries: \<open>lp_rep lp es\<close> says that the block \<open>lp\<close> is a header,
  the entries \<open>es\<close> with their back lengths, the terminator, and unused bytes. The lemmas
  say what navigation, search and single-entry updates do in terms of \<open>es\<close>.
\<close>

section \<open>The representation\<close>

definition hdr :: "nat \<Rightarrow> nat \<Rightarrow> bytes" where
  "hdr n k = le_bytes 4 n @ le_bytes 2 k"

lemma length_hdr [simp]: "length (hdr n k) = 6"
  by (simp add: hdr_def)

lemma hdr_get:
  "n < 2 ^ 32 \<Longrightarrow> lpGetTotalBytes (hdr n k @ m) = Some n"
  "k < 2 ^ 16 \<Longrightarrow> lpGetNumElements (hdr n k @ m) = Some k"
proof -
  have "rdn ([] @ le_bytes 4 n @ (le_bytes 2 k @ m)) 0 4 = Some (le_bytes 4 n)" by (intro rdn_append) simp_all
  moreover have "rdn (le_bytes 4 n @ le_bytes 2 k @ m) 4 2 = Some (le_bytes 2 k)" by (intro rdn_append) simp_all
  ultimately show "n < 2 ^ 32 \<Longrightarrow> lpGetTotalBytes (hdr n k @ m) = Some n"
    "k < 2 ^ 16 \<Longrightarrow> lpGetNumElements (hdr n k @ m) = Some k"
    by (simp_all add: lpGetTotalBytes_def lpGetNumElements_def hdr_def)
qed

lemma hdr_set:
  "lpSetTotalBytes (hdr n k @ m) v = Some (hdr v k @ m)"
  "lpSetNumElements (hdr n k @ m) v = Some (hdr n v @ m)"
  by (simp_all add: lpSetTotalBytes_def lpSetNumElements_def hdr_def wr_def)

definition lp_rep :: "bytes \<Rightarrow> bytes list \<Rightarrow> bool" where
  "lp_rep lp es \<longleftrightarrow>
     (\<forall>e \<in> set es. lp_enc e) \<and> 7 + length (lp_body es) < 2 ^ 32 \<and>
     (\<exists>k r. (k = LP_HDR_NUMELE_UNKNOWN \<or> k = length es \<and> k < LP_HDR_NUMELE_UNKNOWN) \<and>
       lp = hdr (7 + length (lp_body es)) k @ lp_body es @ LP_EOF # r)"

text \<open>The offset behind the entries \<open>A\<close>, and the pointer to the next entry there, if any.\<close>

definition lp_off :: "bytes list \<Rightarrow> nat" where
  "lp_off A = LP_HDR_SIZE + length (lp_body A)"

definition lp_cur :: "bytes list \<Rightarrow> bytes list \<Rightarrow> nat option" where
  "lp_cur A B = (if B = [] then None else Some (lp_off A))"

lemma lp_off_simps [simp]: "lp_off [] = 6" "lp_off (A @ B) = lp_off A + length (lp_body B)"
  by (simp_all add: lp_off_def)

lemma lp_cur_simps [simp]: "lp_cur A [] = None" "lp_cur A (e # B) = Some (lp_off A)"
  by (simp_all add: lp_cur_def)

lemma rep_total: "lp_rep lp es \<Longrightarrow> lpGetTotalBytes lp = Some (7 + length (lp_body es))"
  by (auto simp: lp_rep_def hdr_get)

lemma rep_bytes: "lp_rep lp es \<Longrightarrow> lpBytes lp = Some (7 + length (lp_body es))"
  by (simp add: lpBytes_def rep_total)

lemma rep_bound: "lp_rep lp es \<Longrightarrow> 7 + length (lp_body es) < 2 ^ 32"
  by (simp add: lp_rep_def)

lemma rep_num: "lp_rep lp es \<Longrightarrow> \<exists>k. lpGetNumElements lp = Some k \<and>
    (k = LP_HDR_NUMELE_UNKNOWN \<or> k = length es \<and> k < LP_HDR_NUMELE_UNKNOWN)"
  by (auto simp: lp_rep_def hdr_get)

lemma rep_enc: "lp_rep lp es \<Longrightarrow> e \<in> set es \<Longrightarrow> lp_enc e"
  by (auto simp: lp_rep_def)

lemma rep_at: "lp_rep lp (A @ e # B) \<Longrightarrow> at lp (lp_off A) (lp_entry e)"
proof -
  assume "lp_rep lp (A @ e # B)"
  then obtain h r where "lp = (h @ lp_body A) @ lp_entry e @ (lp_body B @ LP_EOF # r)" "length h = 6"
    unfolding lp_rep_def by auto
  then have "at ((h @ lp_body A) @ lp_entry e @ (lp_body B @ LP_EOF # r)) (lp_off A) (lp_entry e)"
    by (intro atI) (simp add: lp_off_def)
  then show ?thesis using \<open>lp = _\<close> by (simp only:)
qed

lemma rep_at_enc: "lp_rep lp (A @ e # B) \<Longrightarrow> at lp (lp_off A) e"
  using rep_at at_prefix unfolding lp_entry_def by blast

lemma rep_eof: "lp_rep lp A \<Longrightarrow> rd lp (lp_off A) = Some LP_EOF"
proof -
  assume "lp_rep lp A"
  then obtain h r where "lp = (h @ lp_body A) @ LP_EOF # r" "length h = 6"
    unfolding lp_rep_def by auto
  then show ?thesis by (simp only:) (intro rd_append, simp add: lp_off_def)
qed

lemma rep_rd: "lp_rep lp (A @ e # B) \<Longrightarrow> \<exists>b. rd lp (lp_off A) = Some b \<and> b \<noteq> LP_EOF \<and> b = hd e"
proof -
  assume r: "lp_rep lp (A @ e # B)"
  then obtain b e' where e: "e = b # e'" "b \<noteq> LP_EOF" using rep_enc [OF r, of e] by (cases e) (auto simp: lp_enc_def)
  then show ?thesis using rd_at0 [of lp "lp_off A" b e'] rep_at_enc [OF r] by auto
qed

lemma entry_len: "lp_enc e \<Longrightarrow> 2 \<le> length (lp_entry e)"
  using backlen_bytes(1) [of "length e"] by (cases e) (auto simp: length_lp_entry lp_enc_def)

lemma body_len: "(\<forall>e \<in> set es. lp_enc e) \<Longrightarrow> 2 * length es \<le> length (lp_body es)"
proof (induction es)
  case (Cons e es) then show ?case using entry_len [of e] by simp
qed simp

section \<open>Navigation\<close>

lemma rep_validate:
  assumes "lp_rep lp (A @ B)"
  shows "lpValidateNext lp (Some (lp_off A)) (7 + length (lp_body (A @ B))) =
    Some (True, if B = [] then None else Some (lp_off (A @ [hd B])))"
proof (cases B)
  case Nil
  then show ?thesis using rep_eof [of lp A] assms by (simp add: lpValidateNext_def lp_off_def)
next
  case (Cons e B')
  note r = assms [unfolded Cons]
  have e: "lp_enc e" using rep_enc [OF r] by simp
  note at = rep_at_enc [OF r]
  obtain b where b: "rd lp (lp_off A) = Some b" "b \<noteq> LP_EOF" "b = hd e" using rep_rd [OF r] by blast
  have lb: "0 < lpCurrentEncodedSizeBytes b" "lpCurrentEncodedSizeBytes b \<le> length e" using lp_enc_lenbytes [OF e] b by auto
  have sz: "lpCurrentEncodedSizeUnsafe lp (lp_off A) = Some (length e)"
    using EncodedSize_at [OF _ at] e by (simp add: lp_enc_def)
  have "at lp (lp_off A + length e) (lpEncodeBacklen (length e))"
    using at_suffix rep_at [OF r] unfolding lp_entry_def by blast
  from lpDecodeBacklen_at [OF this] have dec: "lpDecodeBacklen lp (lp_off A + (length e + lpEncodeBacklenBytes (length e)) - 1) = Some (length e)"
    using lp_enc_lt [OF e] by (simp add: add.assoc)
  have n: "7 + length (lp_body (A @ B)) = 1 + lp_off A + length (lp_entry e) + length (lp_body B')" by (simp add: Cons lp_off_def)
  have m: "(length e + lpEncodeBacklenBytes (length e)) mod 2 ^ 64 = length e + lpEncodeBacklenBytes (length e)"
    using lp_enc_lt [OF e] backlen_bytes(2) [of "length e"] by simp
  show ?thesis unfolding n
    using b lb sz dec m backlen_bytes(1) [of "length e"]
    by (simp add: lpValidateNext_def Let_def lp_off_def Cons length_lp_entry)
qed

lemma rep_assert: "lp_rep lp (A @ B) \<Longrightarrow> lpAssertValidEntry lp (7 + length (lp_body (A @ B))) (lp_off A) = Some ()"
  by (simp only: lpAssertValidEntry_def rep_validate) simp

lemma rep_skip: "lp_rep lp (A @ e # B) \<Longrightarrow> lpSkip lp (lp_off A) = Some (lp_off (A @ [e]))"
  using lpSkip_at [OF rep_enc rep_at_enc] by fastforce

lemma rep_next:
  assumes "lp_rep lp (A @ e # B)"
  shows "lpNext lp (lp_off A) = Some (lp_cur (A @ [e]) B)"
proof (cases B)
  case Nil
  then show ?thesis using rep_skip [OF assms] rep_eof [of lp "A @ [e]"] assms by (simp add: lpNext_def)
next
  case (Cons e' B')
  have r: "lp_rep lp ((A @ [e]) @ B)" using assms by simp
  then obtain b where "rd lp (lp_off (A @ [e])) = Some b" "b \<noteq> LP_EOF" using rep_rd unfolding Cons by blast
  then show ?thesis using rep_skip [OF assms] rep_bytes [OF r] rep_assert [OF r] Cons by (simp add: lpNext_def)
qed

lemma rep_prev:
  assumes "lp_rep lp (A @ e # B)"
  shows "lpPrev lp (lp_off (A @ [e])) = Some (Some (lp_off A))"
proof -
  let ?n = "length e" and ?q = "lp_off A"
  have e: "lp_enc e" using rep_enc [OF assms] by simp
  have "at lp (?q + ?n) (lpEncodeBacklen ?n)"
    using at_suffix rep_at [OF assms] unfolding lp_entry_def by blast
  from lpDecodeBacklen_at [OF this] have dec: "lpDecodeBacklen lp (?q + ?n + lpEncodeBacklenBytes ?n - 1) = Some ?n"
    using lp_enc_lt [OF e] by simp
  have m: "(?n + lpEncodeBacklenBytes ?n) mod 2 ^ 64 = ?n + lpEncodeBacklenBytes ?n"
    using lp_enc_lt [OF e] backlen_bytes(2) [of ?n] by simp
  have p: "lp_off (A @ [e]) = ?q + ?n + lpEncodeBacklenBytes ?n" by (simp add: length_lp_entry)
  have q: "6 \<le> ?q" by (simp add: lp_off_def)
  show ?thesis unfolding p
    using dec m q backlen_bytes(1) [of ?n] rep_bytes [OF assms] rep_assert [OF assms]
    by (simp add: lpPrev_def Let_def)
qed

lemma rep_prev_first: "lpPrev lp (lp_off []) = Some None"
  by (simp add: lpPrev_def)

lemma rep_first: "lp_rep lp es \<Longrightarrow> lpFirst lp = Some (lp_cur [] es)"
proof (cases es)
  case (Cons e B)
  assume r: "lp_rep lp es"
  then have r: "lp_rep lp ([] @ e # B)" using Cons by simp
  obtain b where "rd lp (lp_off []) = Some b" "b \<noteq> LP_EOF" using rep_rd [OF r] by blast
  then show ?thesis using rep_bytes [OF r] rep_assert [OF r] Cons by (simp add: lpFirst_def)
qed (use rep_eof [of lp "[]"] in \<open>simp add: lpFirst_def\<close>)

lemma rep_last: "lp_rep lp es \<Longrightarrow> lpLast lp = Some (if es = [] then None else Some (lp_off (butlast es)))"
proof (cases es rule: rev_cases)
  case Nil
  assume "lp_rep lp es"
  then show ?thesis using Nil rep_total [of lp es] rep_prev_first [of lp] by (simp add: lpLast_def)
next
  case (snoc A e)
  assume "lp_rep lp es"
  then show ?thesis using snoc rep_total [of lp es] rep_prev [of lp A e "[]"] by (simp add: lpLast_def lp_off_def)
qed

lemma rep_count_lt: "lp_rep lp es \<Longrightarrow> length es < 2 ^ 31"
  using body_len [of es] by (auto simp: lp_rep_def)

lemma rep_length_loop:
  "lp_rep lp (A @ B) \<Longrightarrow> c + length B < 2 ^ 32 \<Longrightarrow> lpLength_loop lp (lp_cur A B) c = Some (c + length B)"
proof (induction B arbitrary: A c)
  case Nil
  then show ?case by (simp add: lpLength_loop.simps)
next
  case (Cons e B)
  have "lpLength_loop lp (lp_cur (A @ [e]) B) (c + 1) = Some (c + 1 + length B)"
    using Cons.prems by (intro Cons.IH) simp_all
  then show ?case using rep_next [OF Cons.prems(1)] Cons.prems(2)
    by (subst lpLength_loop.simps) (simp add: u32add_small)
qed

lemma rep_length:
  assumes "lp_rep lp es"
  shows "\<exists>lp'. lpLength lp = Some (length es, lp') \<and> lp_rep lp' es"
proof -
  obtain k r where k: "k = LP_HDR_NUMELE_UNKNOWN \<or> k = length es \<and> k < LP_HDR_NUMELE_UNKNOWN"
    and lp: "lp = hdr (7 + length (lp_body es)) k @ lp_body es @ LP_EOF # r"
    using assms by (auto simp: lp_rep_def)
  have num: "lpGetNumElements lp = Some k" using k lp by (auto simp: hdr_get)
  show ?thesis
  proof (cases "k = LP_HDR_NUMELE_UNKNOWN")
    case False
    then show ?thesis using num k assms by (auto simp: lpLength_def)
  next
    case True
    have loop: "lpLength_loop lp (lp_cur [] es) 0 = Some (length es)"
      using rep_length_loop [of lp "[]" es 0] assms rep_count_lt [OF assms] by simp
    show ?thesis
    proof (cases "length es < LP_HDR_NUMELE_UNKNOWN")
      case less: True
      define lp' where "lp' = hdr (7 + length (lp_body es)) (length es) @ lp_body es @ LP_EOF # r"
      have "lpSetNumElements lp (length es) = Some lp'" by (simp add: lp lp'_def hdr_set)
      moreover have "lp_rep lp' es" using assms less by (auto simp: lp_rep_def lp'_def)
      ultimately show ?thesis using True num less loop rep_first [OF assms] by (simp add: lpLength_def)
    next
      case False
      then show ?thesis using True num loop rep_first [OF assms] assms by (simp add: lpLength_def)
    qed
  qed
qed

subsection \<open>Seeking\<close>

lemma rep_forward:
  "lp_rep lp (A @ B) \<Longrightarrow> lpSeek_forward lp (int i) (lp_cur A B) = Some (if i < length B then Some (lp_off (A @ take i B)) else None)"
proof (induction i arbitrary: A B)
  case 0
  then show ?case by (cases B) (simp_all add: lpSeek_forward.simps)
next
  case (Suc i)
  show ?case
  proof (cases B)
    case Nil then show ?thesis by (simp add: lpSeek_forward.simps)
  next
    case (Cons e B')
    have "lpSeek_forward lp (int i) (lp_cur (A @ [e]) B') =
        Some (if i < length B' then Some (lp_off ((A @ [e]) @ take i B')) else None)"
      using Suc.prems Cons by (intro Suc.IH) simp
    then show ?thesis using rep_next [of lp A e B'] Suc.prems Cons
      by (subst lpSeek_forward.simps) simp
  qed
qed

lemma rep_backward:
  "lp_rep lp (A @ B) \<Longrightarrow> lpSeek_backward lp (- 1 - int i) (if A = [] then None else Some (lp_off (butlast A))) =
    Some (if i < length A then Some (lp_off (take (length A - Suc i) A)) else None)"
proof (induction i arbitrary: A B)
  case 0
  then show ?case by (cases A rule: rev_cases) (simp_all add: lpSeek_backward.simps)
next
  case (Suc i)
  show ?case
  proof (cases A rule: rev_cases)
    case Nil then show ?thesis by (simp add: lpSeek_backward.simps)
  next
    case (snoc A' e)
    have "lpPrev lp (lp_off A') = Some (if A' = [] then None else Some (lp_off (butlast A')))"
    proof (cases A' rule: rev_cases)
      case Nil then show ?thesis using rep_prev_first [of lp] by simp
    next
      case (snoc A2 e2)
      then show ?thesis using rep_prev [of lp A2 e2 "e # B"] Suc.prems \<open>A = A' @ [e]\<close> by simp
    qed
    moreover have "lpSeek_backward lp (- 1 - int i) (if A' = [] then None else Some (lp_off (butlast A'))) =
        Some (if i < length A' then Some (lp_off (take (length A' - Suc i) A')) else None)"
      using Suc.prems snoc by (intro Suc.IH [of _ "e # B"]) simp
    ultimately show ?thesis using snoc
      by (subst lpSeek_backward.simps) (auto simp: algebra_simps)
  qed
qed

text \<open>An index counts from the front, or from the back when it is negative.\<close>

definition lp_index :: "int \<Rightarrow> 'a list \<Rightarrow> nat option" where
  "lp_index i es = (let j = (if i < 0 then int (length es) + i else i) in
     if 0 \<le> j \<and> j < int (length es) then Some (nat j) else None)"

lemma rep_seek:
  assumes "lp_rep lp es"
  shows "lpSeek lp i = Some (map_option (\<lambda>j. lp_off (take j es)) (lp_index i es))"
proof -
  have fw: "lpSeek_forward lp j (lp_cur [] es) = Some (if j < int (length es) then Some (lp_off (take (nat j) es)) else None)"
    if "0 \<le> j" for j using rep_forward [of lp "[]" es "nat j"] assms that by auto
  have bw: "lpSeek_backward lp j (if es = [] then None else Some (lp_off (butlast es))) =
      Some (if 0 \<le> int (length es) + j then Some (lp_off (take (nat (int (length es) + j)) es)) else None)"
    if "j < 0" for j
  proof -
    define n where "n = nat (- j - 1)"
    have j: "j = - 1 - int n" using that by (simp add: n_def)
    have "length es - Suc n = nat (int (length es) + j)" by (simp add: j)
    moreover have "n < length es \<longleftrightarrow> 0 \<le> int (length es) + j" by (auto simp: j)
    ultimately show ?thesis using rep_backward [of lp es "[]" n] assms j by simp
  qed
  obtain k where k: "lpGetNumElements lp = Some k" "k = LP_HDR_NUMELE_UNKNOWN \<or> k = length es \<and> k < LP_HDR_NUMELE_UNKNOWN"
    using rep_num [OF assms] by blast
  note fl = rep_first [OF assms] rep_last [OF assms]
  show ?thesis
  proof (cases "k = LP_HDR_NUMELE_UNKNOWN")
    case True
    then show ?thesis using k(1) fl fw [of i] bw [of i] by (auto simp: lpSeek_def lp_index_def Let_def)
  next
    case False
    then have kl: "k = length es" using k(2) by simp
    define j where "j = (if i < 0 then int k + i else i)"
    have "lpSeek lp i = (if j < 0 \<or> j \<ge> int k then Some None
        else if j > int k div 2 then lpSeek_backward lp (j - int k) (if es = [] then None else Some (lp_off (butlast es)))
        else lpSeek_forward lp j (lp_cur [] es))"
      using False k(1) fl by (simp add: lpSeek_def Let_def j_def)
    then show ?thesis using fw [of j] bw [of "j - int k"] kl by (auto simp: lp_index_def Let_def j_def)
  qed
qed

section \<open>Searching\<close>

text \<open>The first entry that satisfies \<open>P\<close>, looking at one entry out of \<open>skip + 1\<close>.\<close>

fun lp_scan :: "nat \<Rightarrow> nat \<Rightarrow> ('a \<Rightarrow> bool) \<Rightarrow> 'a list \<Rightarrow> nat option" where
  "lp_scan skip k P [] = None"
| "lp_scan skip 0 P (e # es) = (if P e then Some 0 else map_option Suc (lp_scan skip skip P es))"
| "lp_scan skip (Suc k) P (e # es) = map_option Suc (lp_scan skip k P es)"

lemma rep_range:
  assumes "lp_rep lp ((A @ [e]) @ B)" "n = 7 + length (lp_body ((A @ [e]) @ B))"
  shows "lpAssertValidEntry lp n (lp_off A + length (lp_entry e)) = Some ()" "lp_off A + length (lp_entry e) < n"
    "LP_HDR_SIZE \<le> lp_off A"
  using rep_assert [OF assms(1)] assms(2) by (simp_all add: lp_off_def add.assoc)

lemma rep_get:
  assumes "lp_rep lp (A @ e # B)"
  obtains r where "lpGet lp (lp_off A) None = Some r" "lpGetWithSize lp (lp_off A) None = Some (r, Some (length (lp_entry e)))"
    "case lp_val e of LInt v \<Rightarrow> r = Val v | LStr s \<Rightarrow>
       (\<exists>q. r = Ptr q (int (length s)) \<and> rdn lp q (length s) = Some s \<and> lp_off A < q \<and> q + length s = lp_off A + length e)"
proof -
  have e: "lp_enc e" using rep_enc [OF assms] by simp
  show ?thesis using that lpGet_at [OF e rep_at_enc [OF assms]] by blast
qed

lemma rep_find_loop:
  assumes cmp: "\<And>u A e B r. ok u \<Longrightarrow> lp_rep lp (A @ e # B) \<Longrightarrow> lpGet lp (lp_off A) None = Some r \<Longrightarrow>
      \<exists>u'. cmp u r = Some (P e, u') \<and> ok u'"
  shows "lp_rep lp (A @ e # B) \<Longrightarrow> ok u \<Longrightarrow> n = 7 + length (lp_body (A @ e # B)) \<Longrightarrow>
    \<exists>u'. lpFindCb_loop lp n cmp skip (lp_off A) u k sz =
      Some (map_option (\<lambda>i. lp_off (A @ take i (e # B))) (lp_scan skip k P (e # B)), u') \<and> ok u'"
proof (induction B arbitrary: A e u k sz)
  case (Cons e2 B)
  note r = Cons.prems(1)
  have r2: "lp_rep lp ((A @ [e]) @ e2 # B)" and n: "n = 7 + length (lp_body ((A @ [e]) @ e2 # B))"
    using Cons.prems by simp_all
  obtain b where b: "rd lp (lp_off (A @ [e])) = Some b" "b \<noteq> LP_EOF" using rep_rd [OF r2] by blast
  note rng = rep_range [OF r2 n]
  have sh: "map_option (\<lambda>i. lp_off ((A @ [e]) @ take i (e2 # B))) x = map_option (\<lambda>i. lp_off (A @ take i (e # e2 # B))) (map_option Suc x)" for x
    by (simp add: option.map_comp comp_def)
  show ?case
  proof (cases k)
    case (Suc k')
    obtain u' where u': "lpFindCb_loop lp n cmp skip (lp_off (A @ [e])) u k' sz =
        Some (map_option (\<lambda>i. lp_off ((A @ [e]) @ take i (e2 # B))) (lp_scan skip k' P (e2 # B)), u')" "ok u'"
      using Cons.IH [OF r2 Cons.prems(2) n] by blast
    show ?thesis using u' rng b rep_skip [OF r] Suc
      by (subst lpFindCb_loop.simps) (simp only: sh, simp)
  next
    case 0
    obtain x where x: "lpGet lp (lp_off A) None = Some x" "lpGetWithSize lp (lp_off A) None = Some (x, Some (length (lp_entry e)))"
      using rep_get [OF r] by blast
    obtain u1 where u1: "cmp u x = Some (P e, u1)" "ok u1" using cmp [OF Cons.prems(2) r x(1)] by blast
    show ?thesis
    proof (cases "P e")
      case True
      then show ?thesis using 0 x u1 rng by (subst lpFindCb_loop.simps) (cases x, simp_all add: Let_def)
    next
      case False
      obtain u' where u': "lpFindCb_loop lp n cmp skip (lp_off (A @ [e])) u1 skip (length (lp_entry e)) =
          Some (map_option (\<lambda>i. lp_off ((A @ [e]) @ take i (e2 # B))) (lp_scan skip skip P (e2 # B)), u')" "ok u'"
        using Cons.IH [OF r2 u1(2) n] by blast
      show ?thesis using 0 False x u1 u' rng b
        by (subst lpFindCb_loop.simps) (simp only: sh, cases x, simp_all add: Let_def)
    qed
  qed
next
  case Nil
  note r = Nil.prems(1)
  have r2: "lp_rep lp ((A @ [e]) @ [])" and n: "n = 7 + length (lp_body ((A @ [e]) @ []))" using Nil.prems by simp_all
  have b: "rd lp (lp_off (A @ [e])) = Some LP_EOF" using rep_eof [of lp "A @ [e]"] r by simp
  note rng = rep_range [OF r2 n]
  obtain x where x: "lpGet lp (lp_off A) None = Some x" "lpGetWithSize lp (lp_off A) None = Some (x, Some (length (lp_entry e)))"
    using rep_get [OF r] by blast
  obtain u1 where u1: "cmp u x = Some (P e, u1)" "ok u1" using cmp [OF Nil.prems(2) r x(1)] by blast
  show ?case
  proof (cases k)
    case 0
    then show ?thesis using x u1 rng b by (subst lpFindCb_loop.simps) (cases x, simp_all add: Let_def)
  next
    case (Suc k')
    then show ?thesis using rng b rep_skip [OF r] Nil.prems(2) by (subst lpFindCb_loop.simps) simp
  qed
qed

text \<open>The integer the searched string stands for is computed at the first integer entry and kept.\<close>

definition find_cache_ok :: "bytes \<Rightarrow> lpFindArg \<Rightarrow> bool" where
  "find_cache_ok ele arg \<longleftrightarrow> arg_s arg = ele \<and>
     (vencoding arg = 0 \<or> vencoding arg = UCHAR_MAX \<and> string2ll ele = None \<or>
      vencoding arg = 1 \<and> string2ll ele = Some (vll arg))"

lemma string2ll_length: "string2ll s = Some v \<Longrightarrow> 0 < length s \<and> length s \<le> 20"
  by (auto simp: string2ll_def split: if_splits)

lemma int_str_eq: "int64 v \<Longrightarrow> ll_repr v = s \<longleftrightarrow> string2ll s = Some v"
  using string2ll_ll_repr [of v] string2ll_Some_repr [of s v] by auto

lemma rep_get_int:
  assumes "lp_rep lp (A @ e # B)" "lp_val e = LInt v"
  shows "lpGet lp (lp_off A) None = Some (Val v)"
  by (rule rep_get [OF assms(1)]) (simp add: assms(2))

lemma rep_get_str:
  assumes "lp_rep lp (A @ e # B)" "lp_val e = LStr s"
  shows "\<exists>q. lpGet lp (lp_off A) None = Some (Ptr q (int (length s))) \<and> rdn lp q (length s) = Some s"
  by (rule rep_get [OF assms(1)]) (auto simp: assms(2))

lemma lpFindCmp_ok:
  assumes "find_cache_ok ele arg" "lp_rep lp (A @ e # B)" "lpGet lp (lp_off A) None = Some r"
  shows "\<exists>arg'. lpFindCmp lp arg r = Some (lp_str e = ele, arg') \<and> find_cache_ok ele arg'"
proof (cases "lp_val e")
  case (LStr s)
  then obtain q where q: "r = Ptr q (int (length s))" "rdn lp q (length s) = Some s"
    using rep_get_str [OF assms(2) LStr] assms(3) by auto
  then show ?thesis using assms(1) LStr by (auto simp: lpFindCmp_def lp_str_def find_cache_ok_def)
next
  case (LInt v)
  then have r: "r = Val v" using rep_get_int [OF assms(2) LInt] assms(3) by simp
  have i: "lp_str e = ele \<longleftrightarrow> string2ll ele = Some v"
    using LInt int_str_eq lp_val_int64 [OF rep_enc [OF assms(2)] LInt] by (simp add: lp_str_def)
  have "length ele \<ge> 32 \<or> length ele = 0 \<Longrightarrow> string2ll ele = None" using string2ll_length [of ele] by (cases "string2ll ele") auto
  then show ?thesis unfolding r i
    using assms(1) by (auto simp: lpFindCmp_def Let_def find_cache_ok_def lpStringToInt64_eq split: option.split)
qed

lemma rep_find:
  assumes "lp_rep lp (A @ B)" "B \<noteq> []"
  shows "lpFind lp (Some (lp_off A)) ele skip = Some (map_option (\<lambda>i. lp_off (A @ take i B)) (lp_scan skip 0 (\<lambda>e. lp_str e = ele) B))"
proof -
  obtain e B' where B: "B = e # B'" using assms(2) by (cases B) auto
  let ?P = "\<lambda>e. lp_str e = ele" and ?u = "\<lparr>arg_s = ele, vencoding = 0, vll = 0\<rparr>"
  have "find_cache_ok ele ?u" by (simp add: find_cache_ok_def)
  then have "\<exists>u. lpFindCb_loop lp (7 + length (lp_body (A @ e # B'))) (lpFindCmp lp) skip (lp_off A) ?u 0 123456789 =
      Some (map_option (\<lambda>i. lp_off (A @ take i (e # B'))) (lp_scan skip 0 ?P (e # B')), u) \<and> find_cache_ok ele u"
    using assms(1) B by (intro rep_find_loop lpFindCmp_ok) simp_all
  then obtain u where "lpFindCb_loop lp (7 + length (lp_body (A @ B))) (lpFindCmp lp) skip (lp_off A) ?u 0 123456789 =
      Some (map_option (\<lambda>i. lp_off (A @ take i B)) (lp_scan skip 0 ?P B), u)"
    unfolding B by blast
  then show ?thesis using rep_bytes [OF assms(1)] by (simp add: lpFind_def lpFindCbInternal_def)
qed

lemma rep_find_first:
  assumes "lp_rep lp es"
  shows "lpFind lp None ele skip = Some (map_option (\<lambda>i. lp_off (take i es)) (lp_scan skip 0 (\<lambda>e. lp_str e = ele) es))"
proof (cases es)
  case Nil
  then show ?thesis using rep_bytes [OF assms] rep_first [OF assms] by (simp add: lpFind_def lpFindCbInternal_def)
next
  case (Cons e B)
  have "lpFind lp None ele skip = lpFind lp (Some (lp_off [])) ele skip"
    using rep_first [OF assms] rep_bytes [OF assms] Cons by (simp add: lpFind_def lpFindCbInternal_def)
  then show ?thesis using rep_find [of lp "[]" es] assms Cons by simp
qed

lemma rep_compare:
  assumes "lp_rep lp (A @ e # B)"
  shows "lpCompare lp (lp_off A) ele None = Some (lp_str e = ele, None)"
proof -
  obtain b where b: "rd lp (lp_off A) = Some b" "b \<noteq> LP_EOF" using rep_rd [OF assms] by blast
  show ?thesis
  proof (cases "lp_val e")
    case (LStr s)
    then obtain q where q: "lpGet lp (lp_off A) None = Some (Ptr q (int (length s)))" "rdn lp q (length s) = Some s"
      using rep_get_str [OF assms LStr] by auto
    then show ?thesis using b LStr by (auto simp: lpCompare_def lp_str_def)
  next
    case (LInt v)
    then have r: "lpGet lp (lp_off A) None = Some (Val v)" by (rule rep_get_int [OF assms])
    have i: "lp_str e = ele \<longleftrightarrow> string2ll ele = Some v"
      using LInt int_str_eq lp_val_int64 [OF rep_enc [OF assms] LInt] by (simp add: lp_str_def)
    show ?thesis unfolding i using b r by (auto simp: lpCompare_def lpStringToInt64_eq split: option.split)
  qed
qed

section \<open>Updating\<close>

lemma memmove_splice:
  assumes "k \<le> length x + length r" "dst = length a + k" "src = length a + length x" "n = length t"
  shows "\<exists>g r'. memmove (a @ x @ t @ r) dst src n = Some (a @ g @ t @ r') \<and> length g = k"
proof -
  let ?m = "a @ x @ t @ r"
  have "memmove ?m dst src n = Some (take dst ?m @ take n (drop src ?m) @ drop (dst + n) ?m)"
    using assms by (intro memmove_Some) simp_all
  moreover have "take n (drop src ?m) = t" using assms by simp
  moreover have "take dst ?m = a @ take k (x @ t @ r)" using assms by simp
  moreover have "length (take k (x @ t @ r)) = k" using assms by simp
  ultimately show ?thesis by (metis append.assoc)
qed

definition lp_splice :: "allocator \<Rightarrow> bytes \<Rightarrow> nat \<Rightarrow> nat \<Rightarrow> nat \<Rightarrow> nat \<Rightarrow> bytes option" where
  "lp_splice al lp old p rl k =
    (let new = old + k - rl;
         lp = (if new > old \<and> new > length lp then zrealloc al lp new else lp)
     in do {
       lp \<leftarrow> memmove lp (p + k) (p + rl) (old - p - rl);
       Some (if new < old then zrealloc al lp new else lp)
     })"

lemma splice_spec:
  assumes "lp = a @ x @ t @ r" "old = length (a @ x @ t)" "p = length a" "rl = length x"
  shows "\<exists>g r'. lp_splice al lp old p rl k = Some (a @ g @ t @ r') \<and> length g = k"
proof -
  let ?new = "old + k - rl"
  define lp1 where "lp1 = (if ?new > old \<and> ?new > length lp then zrealloc al lp ?new else lp)"
  have "\<exists>r1. lp1 = a @ x @ t @ r1 \<and> k \<le> length x + length r1"
  proof (cases "?new > old \<and> ?new > length lp")
    case True
    have "take old lp = a @ x @ t" using assms by simp
    moreover have "old \<le> ?new" "old \<le> length lp" using True assms by simp_all
    ultimately obtain r1 where r1: "lp1 = (a @ x @ t) @ r1" using zrealloc_prefix [of old ?new lp al] True by (auto simp: lp1_def)
    moreover have "?new \<le> length lp1" using True by (simp add: lp1_def)
    ultimately show ?thesis using assms by (intro exI [of _ r1]) simp
  next
    case False
    then show ?thesis using assms by (auto simp: lp1_def)
  qed
  then obtain r1 where r1: "lp1 = a @ x @ t @ r1" "k \<le> length x + length r1" by blast
  obtain g r2 where g: "memmove lp1 (p + k) (p + rl) (old - p - rl) = Some (a @ g @ t @ r2)" "length g = k"
    using memmove_splice [OF r1(2), of "p + k" a "p + rl" "old - p - rl" t] r1(1) assms by auto
  have eq: "lp_splice al lp old p rl k = do {
      lp \<leftarrow> memmove lp1 (p + k) (p + rl) (old - p - rl); Some (if ?new < old then zrealloc al lp ?new else lp) }"
    by (simp only: lp_splice_def Let_def lp1_def)
  show ?thesis
  proof (cases "?new < old")
    case True
    have "take ?new (a @ g @ t @ r2) = a @ g @ t" using assms g(2) by simp
    moreover have "?new \<le> length (a @ g @ t @ r2)" using assms g(2) by simp
    ultimately obtain r3 where "zrealloc al (a @ g @ t @ r2) ?new = (a @ g @ t) @ r3"
      using zrealloc_prefix [of ?new ?new "a @ g @ t @ r2" al] by auto
    then show ?thesis using g True by (auto simp: eq)
  next
    case False
    then show ?thesis using g by (auto simp: eq)
  qed
qed

text \<open>The encoding a new element gets.\<close>

definition ele_ok :: "lp_ele \<Rightarrow> bytes \<Rightarrow> bool" where
  "ele_ok ele enc \<longleftrightarrow> (case ele of
     EleStr s \<Rightarrow> enc = lp_encode s \<and> length s + 5 < 2 ^ 32
   | EleInt e \<Rightarrow> enc = e \<and> lp_enc e
   | EleNone \<Rightarrow> False)"

lemma ele_ok_enc: "ele_ok ele enc \<Longrightarrow> lp_enc enc"
  by (auto simp: ele_ok_def lp_str_encode split: lp_ele.splits)

lemma ele_ok_cases:
  assumes "ele_ok ele enc"
  obtains s where "ele = EleStr s" "lpEncodeGetType s = (LP_ENCODING_STRING, length enc)" "lpEncodeString s = enc"
    | s where "ele = EleStr s" "lpEncodeGetType s = (LP_ENCODING_INT enc, length enc)"
    | "ele = EleInt enc"
  using assms by (cases ele) (auto simp: ele_ok_def lpEncodeGetType_spec lp_encode_def split: option.splits)

lemma lpInsert_before_eq:
  assumes "ele_ok ele enc"
  shows "lpInsert al lp ele p LP_BEFORE = do {
   old \<leftarrow> lpGetTotalBytes lp;
   (if old + length (lp_entry enc) > UINT32_MAX then Some None
    else do {
      lp \<leftarrow> (if p > old then None else lp_splice al lp old p 0 (length (lp_entry enc)));
      lp \<leftarrow> wr lp p enc;
      lp \<leftarrow> wr lp (p + length enc) (lpEncodeBacklen (length enc));
      num \<leftarrow> lpGetNumElements lp;
      lp \<leftarrow> (if num \<noteq> LP_HDR_NUMELE_UNKNOWN then lpSetNumElements lp (num + 1) else Some lp);
      lp \<leftarrow> lpSetTotalBytes lp (old + length (lp_entry enc));
      Some (Some (lp, Some p))
    })
  }"
  using assms
proof (cases rule: ele_ok_cases)
  case (1 s)
  then show ?thesis
    by (cases "lpGetTotalBytes lp") (simp_all add: lpInsert_def lp_splice_def Let_def length_lp_entry add.assoc cong: if_cong)
next
  case (2 s)
  then show ?thesis
    by (cases "lpGetTotalBytes lp") (simp_all add: lpInsert_def lp_splice_def Let_def length_lp_entry add.assoc cong: if_cong)
next
  case 3
  then show ?thesis
    by (cases "lpGetTotalBytes lp") (simp_all add: lpInsert_def lp_splice_def Let_def length_lp_entry add.assoc cong: if_cong)
qed


lemma lpInsert_replace_eq:
  assumes "ele_ok ele enc"
  shows "lpInsert al lp ele p LP_REPLACE = do {
   old \<leftarrow> lpGetTotalBytes lp;
   n \<leftarrow> lpCurrentEncodedSizeUnsafe lp p;
   let rl = u32add n (lpEncodeBacklenBytes n);
   (if p \<ge> LP_HDR_SIZE \<and> p + rl < old then
     (if old + length (lp_entry enc) - rl > UINT32_MAX then Some None
      else do {
        lp \<leftarrow> lp_splice al lp old p rl (length (lp_entry enc));
        lp \<leftarrow> wr lp p enc;
        lp \<leftarrow> wr lp (p + length enc) (lpEncodeBacklen (length enc));
        lp \<leftarrow> lpSetTotalBytes lp (old + length (lp_entry enc) - rl);
        Some (Some (lp, Some p))
      })
    else None)
  }"
  using assms
proof (cases rule: ele_ok_cases)
  case (1 s)
  then show ?thesis
    by (cases "lpGetTotalBytes lp"; cases "lpCurrentEncodedSizeUnsafe lp p")
      (simp_all add: lpInsert_def lp_splice_def Let_def length_lp_entry add.assoc cong: if_cong)
next
  case (2 s)
  then show ?thesis
    by (cases "lpGetTotalBytes lp"; cases "lpCurrentEncodedSizeUnsafe lp p")
      (simp_all add: lpInsert_def lp_splice_def Let_def length_lp_entry add.assoc cong: if_cong)
next
  case 3
  then show ?thesis
    by (cases "lpGetTotalBytes lp"; cases "lpCurrentEncodedSizeUnsafe lp p")
      (simp_all add: lpInsert_def lp_splice_def Let_def length_lp_entry add.assoc cong: if_cong)
qed

lemma lpDelete_eq:
  "lpDelete al lp p = do {
   old \<leftarrow> lpGetTotalBytes lp;
   n \<leftarrow> lpCurrentEncodedSizeUnsafe lp p;
   let rl = u32add n (lpEncodeBacklenBytes n);
   (if p \<ge> LP_HDR_SIZE \<and> p + rl < old then
     (if old - rl > UINT32_MAX then Some None
      else do {
        lp \<leftarrow> lp_splice al lp old p rl 0;
        b \<leftarrow> rd lp p;
        num \<leftarrow> lpGetNumElements lp;
        lp \<leftarrow> (if num \<noteq> LP_HDR_NUMELE_UNKNOWN then lpSetNumElements lp (u32sub num 1) else Some lp);
        lp \<leftarrow> lpSetTotalBytes lp (old - rl);
        Some (Some (lp, if b = LP_EOF then None else Some p))
      })
    else None)
  }"
  by (cases "lpGetTotalBytes lp"; cases "lpCurrentEncodedSizeUnsafe lp p")
    (simp_all add: lpDelete_def lpInsert_def lp_splice_def Let_def cong: if_cong)

lemma rep_split:
  assumes "lp_rep lp (A @ X @ B)"
  obtains k r where "k = LP_HDR_NUMELE_UNKNOWN \<or> k = length (A @ X @ B) \<and> k < LP_HDR_NUMELE_UNKNOWN"
    "lp = (hdr (7 + length (lp_body (A @ X @ B))) k @ lp_body A) @ lp_body X @ (lp_body B @ [LP_EOF]) @ r"
  using assms that by (auto simp: lp_rep_def)

lemma rep_join:
  assumes "lp = hdr (7 + length (lp_body es)) k @ lp_body es @ [LP_EOF] @ r" "\<forall>e \<in> set es. lp_enc e"
    "7 + length (lp_body es) < 2 ^ 32" "k = LP_HDR_NUMELE_UNKNOWN \<or> k = length es \<and> k < LP_HDR_NUMELE_UNKNOWN"
  shows "lp_rep lp es"
  using assms by (auto simp: lp_rep_def)

lemma write_entry:
  assumes "lp = a @ g @ t" "length g = length (lp_entry enc)" "p = length a"
  shows "do { lp \<leftarrow> wr lp p enc; wr lp (p + length enc) (lpEncodeBacklen (length enc)) } = Some (a @ lp_entry enc @ t)"
proof -
  have g: "g = take (length enc) g @ drop (length enc) g" by simp
  have "wr (a @ take (length enc) g @ (drop (length enc) g @ t)) p enc = Some (a @ enc @ (drop (length enc) g @ t))"
    using assms by (intro wr_append) (simp_all add: length_lp_entry)
  then have "wr lp p enc = Some ((a @ enc) @ drop (length enc) g @ t)" using assms(1) g by (metis append.assoc)
  moreover have "wr ((a @ enc) @ drop (length enc) g @ t) (p + length enc) (lpEncodeBacklen (length enc)) =
      Some ((a @ enc) @ lpEncodeBacklen (length enc) @ t)"
    using assms by (intro wr_append) (simp_all add: length_lp_entry)
  ultimately show ?thesis by (simp add: lp_entry_def)
qed

lemma rep_insert_before:
  assumes "lp_rep lp (A @ B)" "ele_ok ele enc"
  shows "if 7 + length (lp_body (A @ B)) + length (lp_entry enc) > UINT32_MAX
    then lpInsert al lp ele (lp_off A) LP_BEFORE = Some None
    else \<exists>lp'. lpInsert al lp ele (lp_off A) LP_BEFORE = Some (Some (lp', Some (lp_off A))) \<and> lp_rep lp' (A @ enc # B)"
proof (cases "7 + length (lp_body (A @ B)) + length (lp_entry enc) > UINT32_MAX")
  case True
  then show ?thesis unfolding lpInsert_before_eq [OF assms(2)] using rep_total [OF assms(1)] by simp
next
  case False
  let ?n = "7 + length (lp_body (A @ B))" and ?p = "lp_off A"
  obtain k r where k: "k = LP_HDR_NUMELE_UNKNOWN \<or> k = length (A @ B) \<and> k < LP_HDR_NUMELE_UNKNOWN"
    and lp: "lp = (hdr ?n k @ lp_body A) @ [] @ (lp_body B @ [LP_EOF]) @ r"
    using rep_split [of lp A "[]" B] assms(1) by auto
  obtain g r' where g: "lp_splice al lp ?n ?p 0 (length (lp_entry enc)) =
      Some ((hdr ?n k @ lp_body A) @ g @ (lp_body B @ [LP_EOF]) @ r')" "length g = length (lp_entry enc)"
    using splice_spec [OF lp, of ?n ?p 0 al "length (lp_entry enc)"] by (auto simp: lp_off_def)
  define k' where "k' = (if k \<noteq> LP_HDR_NUMELE_UNKNOWN then k + 1 else k)"
  define lp' where "lp' = hdr (?n + length (lp_entry enc)) k' @ lp_body (A @ enc # B) @ [LP_EOF] @ r'"
  have w: "do { lp \<leftarrow> wr ((hdr ?n k @ lp_body A) @ g @ (lp_body B @ [LP_EOF]) @ r') ?p enc;
      wr lp (?p + length enc) (lpEncodeBacklen (length enc)) } = Some (hdr ?n k @ lp_body (A @ enc # B) @ [LP_EOF] @ r')"
    using write_entry [OF refl g(2), of ?p "hdr ?n k @ lp_body A" "(lp_body B @ [LP_EOF]) @ r'"] by (simp add: lp_off_def)
  have kb: "k < 2 ^ 16" using k by auto
  have "lpInsert al lp ele ?p LP_BEFORE = Some (Some (lp', Some ?p))"
  proof -
    obtain m where m: "wr ((hdr ?n k @ lp_body A) @ g @ (lp_body B @ [LP_EOF]) @ r') ?p enc = Some m"
      "wr m (?p + length enc) (lpEncodeBacklen (length enc)) = Some (hdr ?n k @ lp_body (A @ enc # B) @ [LP_EOF] @ r')"
      using w unfolding bind_eq_Some_conv by blast
    show ?thesis
      unfolding lpInsert_before_eq [OF assms(2)]
      using False rep_total [OF assms(1)] g(1) m hdr_get(2) [OF kb]
      by (simp add: hdr_set k'_def lp'_def) (simp add: lp_off_def)
  qed
  moreover have "lp_rep lp' (A @ enc # B)"
    using False k ele_ok_enc [OF assms(2)] rep_enc [OF assms(1)]
    by (intro rep_join [of _ _ k' r']) (auto simp: lp'_def k'_def ac_simps)
  ultimately show ?thesis using False by auto
qed


lemma rep_size:
  assumes "lp_rep lp (A @ e # B)"
  shows "lpCurrentEncodedSizeUnsafe lp (lp_off A) = Some (length e)"
    and "u32add (length e) (lpEncodeBacklenBytes (length e)) = length (lp_entry e)"
proof -
  have e: "lp_enc e" using rep_enc [OF assms] by simp
  then show "lpCurrentEncodedSizeUnsafe lp (lp_off A) = Some (length e)"
    using EncodedSize_at [OF _ rep_at_enc [OF assms]] by (simp add: lp_enc_def)
  have "length e + lpEncodeBacklenBytes (length e) < 2 ^ 32" using rep_bound [OF assms] by (simp add: length_lp_entry)
  then show "u32add (length e) (lpEncodeBacklenBytes (length e)) = length (lp_entry e)"
    by (simp add: u32add_def length_lp_entry)
qed

lemma rep_replace:
  assumes "lp_rep lp (A @ e # B)" "ele_ok ele enc"
  shows "if 7 + length (lp_body (A @ enc # B)) > UINT32_MAX
    then lpInsert al lp ele (lp_off A) LP_REPLACE = Some None
    else \<exists>lp'. lpInsert al lp ele (lp_off A) LP_REPLACE = Some (Some (lp', Some (lp_off A))) \<and> lp_rep lp' (A @ enc # B)"
proof -
  let ?n = "7 + length (lp_body (A @ e # B))" and ?n' = "7 + length (lp_body (A @ enc # B))" and ?p = "lp_off A"
  have new: "?n + length (lp_entry enc) - length (lp_entry e) = ?n'" by simp
  have chk: "LP_HDR_SIZE \<le> ?p \<and> ?p + length (lp_entry e) < ?n" by (simp add: lp_off_def)
  note pre = rep_total [OF assms(1)] rep_size [OF assms(1)]
  show ?thesis
  proof (cases "?n' > UINT32_MAX")
    case True
    then show ?thesis unfolding lpInsert_replace_eq [OF assms(2)] using pre chk new by simp
  next
    case False
    obtain k r where k: "k = LP_HDR_NUMELE_UNKNOWN \<or> k = length (A @ [e] @ B) \<and> k < LP_HDR_NUMELE_UNKNOWN"
      and lp: "lp = (hdr ?n k @ lp_body A) @ lp_entry e @ (lp_body B @ [LP_EOF]) @ r"
      using rep_split [of lp A "[e]" B] assms(1) by auto
    obtain g r' where g: "lp_splice al lp ?n ?p (length (lp_entry e)) (length (lp_entry enc)) =
        Some ((hdr ?n k @ lp_body A) @ g @ (lp_body B @ [LP_EOF]) @ r')" "length g = length (lp_entry enc)"
      using splice_spec [OF lp, of ?n ?p "length (lp_entry e)" al "length (lp_entry enc)"] by (auto simp: lp_off_def)
    obtain m where m: "wr ((hdr ?n k @ lp_body A) @ g @ (lp_body B @ [LP_EOF]) @ r') ?p enc = Some m"
        "wr m (?p + length enc) (lpEncodeBacklen (length enc)) = Some (hdr ?n k @ lp_body (A @ enc # B) @ [LP_EOF] @ r')"
      using write_entry [OF refl g(2), of ?p "hdr ?n k @ lp_body A" "(lp_body B @ [LP_EOF]) @ r'"]
      unfolding bind_eq_Some_conv by (auto simp: lp_off_def)
    define lp' where "lp' = hdr ?n' k @ lp_body (A @ enc # B) @ [LP_EOF] @ r'"
    have "lpInsert al lp ele ?p LP_REPLACE = Some (Some (lp', Some ?p))"
      unfolding lpInsert_replace_eq [OF assms(2)]
      using False pre chk new g(1) m by (simp add: hdr_set lp'_def add.commute [of "length (lp_body B)" "length (lp_entry enc)"])
    moreover have "lp_rep lp' (A @ enc # B)"
      using False k ele_ok_enc [OF assms(2)] rep_enc [OF assms(1)]
      by (intro rep_join [of _ _ k r']) (auto simp: lp'_def)
    ultimately show ?thesis using False by auto
  qed
qed

lemma rep_delete:
  assumes "lp_rep lp (A @ e # B)"
  shows "\<exists>lp'. lpDelete al lp (lp_off A) = Some (Some (lp', lp_cur A B)) \<and> lp_rep lp' (A @ B)"
proof -
  let ?n = "7 + length (lp_body (A @ e # B))" and ?n' = "7 + length (lp_body (A @ B))" and ?p = "lp_off A"
  have new: "?n - length (lp_entry e) = ?n'" by simp
  have chk: "LP_HDR_SIZE \<le> ?p \<and> ?p + length (lp_entry e) < ?n" by (simp add: lp_off_def)
  note pre = rep_total [OF assms(1)] rep_size [OF assms(1)]
  obtain k r where k: "k = LP_HDR_NUMELE_UNKNOWN \<or> k = length (A @ [e] @ B) \<and> k < LP_HDR_NUMELE_UNKNOWN"
    and lp: "lp = (hdr ?n k @ lp_body A) @ lp_entry e @ (lp_body B @ [LP_EOF]) @ r"
    using rep_split [of lp A "[e]" B] assms(1) by auto
  obtain r' where g: "lp_splice al lp ?n ?p (length (lp_entry e)) 0 = Some (hdr ?n k @ lp_body (A @ B) @ [LP_EOF] @ r')"
    using splice_spec [OF lp, of ?n ?p "length (lp_entry e)" al 0] by (auto simp: lp_off_def)
  have kb: "k < 2 ^ 16" using k by auto
  define k' where "k' = (if k \<noteq> LP_HDR_NUMELE_UNKNOWN then k - 1 else k)"
  have k1: "k \<noteq> LP_HDR_NUMELE_UNKNOWN \<Longrightarrow> u32sub k 1 = k - 1" using k by (auto simp: u32sub_def)
  define lp' where "lp' = hdr ?n' k' @ lp_body (A @ B) @ [LP_EOF] @ r'"
  have n': "?n' < 2 ^ 32" using rep_bound [OF assms] by simp
  have rep': "lp_rep lp' (A @ B)"
    using k rep_enc [OF assms(1)] n' by (intro rep_join [of _ _ k' r']) (auto simp: lp'_def k'_def)
  have rdp: "\<exists>b. rd (hdr ?n k @ lp_body (A @ B) @ [LP_EOF] @ r') ?p = Some b \<and> (b = LP_EOF \<longleftrightarrow> B = [])"
  proof -
    have "rd (hdr ?n k @ lp_body (A @ B) @ [LP_EOF] @ r') ?p = rd lp' ?p"
      by (simp add: rd_def lp'_def nth_append lp_off_def)
    then show ?thesis using rep_rd [of lp' A "hd B" "tl B"] rep_eof [of lp' A] rep' by (cases B) auto
  qed
  then obtain b where b: "rd (hdr ?n k @ lp_body (A @ B) @ [LP_EOF] @ r') ?p = Some b" "b = LP_EOF \<longleftrightarrow> B = []" by blast
  have "lpDelete al lp ?p = Some (Some (lp', lp_cur A B))"
    unfolding lpDelete_eq using pre chk new n' g b hdr_get(2) [OF kb] k1
    by (simp add: hdr_set lp'_def k'_def lp_cur_def)
  then show ?thesis using rep' by blast
qed

end
