(* ===== verification/Listpack_Ops.thy ===== *)
theory Listpack_Ops
  imports Listpack_Refine Intset
begin

text \<open>
  The remaining operations of \<^verbatim>\<open>listpack.c\<close> on the represented list: creation, copies, both
  ends, ranges, batches and merging.
\<close>

section \<open>Creation, copies, slack\<close>

lemma rep_slack:
  assumes "lp_rep (x @ r) es" "length x = 7 + length (lp_body es)"
  shows "lp_rep (x @ r') es"
proof -
  obtain k r0 where k: "k = LP_HDR_NUMELE_UNKNOWN \<or> k = length es \<and> k < LP_HDR_NUMELE_UNKNOWN"
    and lp: "x @ r = (hdr (7 + length (lp_body es)) k @ lp_body es @ [LP_EOF]) @ r0"
    using assms(1) by (auto simp: lp_rep_def)
  have "x = hdr (7 + length (lp_body es)) k @ lp_body es @ [LP_EOF]"
    using lp assms(2) by (subst (asm) append_eq_append_conv) auto
  then show ?thesis using assms(1) k by (intro rep_join [of _ _ k r']) (auto simp: lp_rep_def)
qed

lemma rep_take:
  assumes "lp_rep lp es"
  shows "lp = take (7 + length (lp_body es)) lp @ drop (7 + length (lp_body es)) lp"
    "length (take (7 + length (lp_body es)) lp) = 7 + length (lp_body es)"
  using assms by (auto simp: lp_rep_def)

lemma rep_new: "\<exists>lp. lpNew al capacity = Some lp \<and> lp_rep lp []"
proof -
  define n where "n = (if capacity > LP_HDR_SIZE + 1 then capacity else LP_HDR_SIZE + 1)"
  define m where "m = zmalloc al n"
  have len: "7 \<le> length m" by (simp add: m_def n_def)
  define r where "r = drop 7 m"
  have "lpSetTotalBytes m 7 = Some (le_bytes 4 7 @ drop 4 m)" using len by (simp add: lpSetTotalBytes_def wr_def)
  moreover have "lpSetNumElements (le_bytes 4 7 @ drop 4 m) 0 = Some (hdr 7 0 @ drop 6 m)"
    using len by (simp add: lpSetNumElements_def wr_def hdr_def)
  moreover have "wr (hdr 7 0 @ drop 6 m) 6 [LP_EOF] = Some (hdr 7 0 @ [LP_EOF] @ r)"
    using len by (simp add: wr_def r_def)
  ultimately have "lpNew al capacity = Some (hdr 7 0 @ [LP_EOF] @ r)"
    by (simp add: lpNew_def Let_def m_def n_def)
  moreover have "lp_rep (hdr 7 0 @ [LP_EOF] @ r) []" by (rule rep_join [of _ _ 0 r]) simp_all
  ultimately show ?thesis by blast
qed

lemma rep_shrink:
  assumes "lp_rep lp es"
  shows "\<exists>lp'. lpShrinkToFit al lp = Some lp' \<and> lp_rep lp' es"
proof (cases "7 + length (lp_body es) < length lp")
  case True
  obtain r where "zrealloc al lp (7 + length (lp_body es)) = take (7 + length (lp_body es)) lp @ r"
    using zrealloc_prefix [of _ _ lp al] True by (metis le_refl less_imp_le_nat)
  moreover have "lp_rep (take (7 + length (lp_body es)) lp @ r) es"
    using rep_slack rep_take [OF assms] assms by metis
  ultimately show ?thesis using True rep_total [OF assms] by (simp add: lpShrinkToFit_def)
next
  case False
  then show ?thesis using rep_total [OF assms] assms by (simp add: lpShrinkToFit_def)
qed

lemma rep_dup:
  assumes "lp_rep lp es"
  shows "\<exists>lp'. lpDup al lp = Some lp' \<and> lp_rep lp' es"
proof -
  let ?n = "7 + length (lp_body es)"
  have l: "?n \<le> length lp" using rep_take(2) [OF assms] by simp
  have "lpDup al lp = Some (take ?n lp @ drop ?n (zmalloc al ?n))"
    using rep_bytes [OF assms] l by (simp add: lpDup_def rdn_def wr_def min_def)
  moreover have "lp_rep (take ?n lp @ drop ?n (zmalloc al ?n)) es"
    using rep_slack rep_take [OF assms] assms by metis
  ultimately show ?thesis by blast
qed

section \<open>Ranges\<close>

lemma rep_range_loop:
  "lp_rep lp (A @ B) \<Longrightarrow> n = 7 + length (lp_body (A @ B)) \<Longrightarrow> B \<noteq> [] \<Longrightarrow>
   lpDeleteRange_loop lp n num (lp_off A) d = Some (lp_off (A @ take num B), d + min num (length B))"
proof (induction num arbitrary: A B d)
  case (Suc num)
  obtain e B' where B: "B = e # B'" using Suc.prems(3) by (cases B) auto
  have r: "lp_rep lp (A @ e # B')" and r2: "lp_rep lp ((A @ [e]) @ B')" using Suc.prems(1) B by simp_all
  show ?case
  proof (cases B')
    case Nil
    then show ?thesis using rep_skip [OF r] rep_eof [of lp "A @ [e]"] r B by simp
  next
    case (Cons e2 B2)
    then obtain b where b: "rd lp (lp_off (A @ [e])) = Some b" "b \<noteq> LP_EOF" using rep_rd r2 by blast
    have "lpAssertValidEntry lp n (lp_off (A @ [e])) = Some ()" using rep_assert [OF r2] Suc.prems(2) B by simp
    moreover have "lpDeleteRange_loop lp n num (lp_off (A @ [e])) (d + 1) =
        Some (lp_off ((A @ [e]) @ take num B'), d + 1 + min num (length B'))"
      using Suc.prems B Cons r2 by (intro Suc.IH) simp_all
    ultimately show ?thesis using rep_skip [OF r] b B by simp
  qed
qed simp

lemma rep_delete_range_entry:
  assumes "lp_rep lp (A @ B)" "B \<noteq> []"
  shows "\<exists>lp'. lpDeleteRangeWithEntry al lp (lp_off A) num = Some (lp', lp_cur A (drop num B)) \<and>
    lp_rep lp' (A @ drop num B)"
proof (cases "num = 0")
  case True
  then show ?thesis using assms rep_bytes [OF assms(1)] by (auto simp: lpDeleteRangeWithEntry_def lp_cur_def)
next
  case False
  let ?n = "7 + length (lp_body (A @ B))" and ?X = "take num B" and ?D = "drop num B"
  let ?n' = "7 + length (lp_body (A @ ?D))" and ?p = "lp_off A"
  have B: "A @ B = A @ ?X @ ?D" by simp
  have lB: "lp_body B = lp_body ?X @ lp_body ?D" using append_take_drop_id lp_body_simps(3) by metis
  have loop: "lpDeleteRange_loop lp ?n num ?p 0 = Some (lp_off (A @ ?X), min num (length B))"
    using rep_range_loop [OF assms(1) refl assms(2)] by simp
  obtain k r where k: "k = LP_HDR_NUMELE_UNKNOWN \<or> k = length (A @ B) \<and> k < LP_HDR_NUMELE_UNKNOWN"
    and lp: "lp = (hdr ?n k @ lp_body A) @ lp_body ?X @ (lp_body ?D @ [LP_EOF]) @ r"
    using rep_split [of lp A ?X ?D] assms(1) by auto
  obtain g r' where g: "memmove lp ?p (lp_off (A @ ?X)) (?n - lp_off (A @ ?X)) = Some ((hdr ?n k @ lp_body A) @ g @ (lp_body ?D @ [LP_EOF]) @ r')" "length g = 0"
    using memmove_splice [of 0 "lp_body ?X" r ?p "hdr ?n k @ lp_body A" "lp_off (A @ ?X)" "?n - lp_off (A @ ?X)" "lp_body ?D @ [LP_EOF]"] lp
    by (auto simp: lp_off_def lB)
  then have mm: "memmove lp ?p (lp_off (A @ ?X)) (?n - lp_off (A @ ?X)) = Some (hdr ?n k @ lp_body (A @ ?D) @ [LP_EOF] @ r')" by simp
  define k' where "k' = (if k \<noteq> LP_HDR_NUMELE_UNKNOWN then k - min num (length B) else k)"
  define lp1 where "lp1 = hdr ?n' k' @ lp_body (A @ ?D) @ [LP_EOF] @ r'"
  have n': "?n' < 2 ^ 32" using rep_bound [OF assms(1)] by (simp add: lB)
  have enc: "\<forall>e \<in> set (A @ ?D). lp_enc e" using rep_enc [OF assms(1)] by (auto dest: in_set_dropD)
  have rep1: "lp_rep lp1 (A @ ?D)" using k n' enc by (intro rep_join [of _ _ k' r']) (auto simp: lp1_def k'_def)
  obtain lp2 where lp2: "lpShrinkToFit al lp1 = Some lp2" "lp_rep lp2 (A @ ?D)" using rep_shrink [OF rep1] by blast
  have sub: "?n - (lp_off (A @ ?X) - ?p) = ?n'" by (simp add: lB)
  have kk: "k \<noteq> LP_HDR_NUMELE_UNKNOWN \<Longrightarrow> u32sub k (min num (length B) mod 2 ^ 32) = k'"
  proof -
    assume "k \<noteq> LP_HDR_NUMELE_UNKNOWN"
    then have "min num (length B) \<le> k" "k < 2 ^ 32" "k' = k - min num (length B)" using k by (auto simp: k'_def)
    then show ?thesis by (simp add: u32sub_small)
  qed
  have b: "\<exists>b. rd lp2 ?p = Some b \<and> (b = LP_EOF \<longleftrightarrow> ?D = [])"
    using rep_rd [of lp2 A "hd ?D" "tl ?D"] rep_eof [of lp2 A] lp2(2) by (cases "?D = []") auto
  have tl: "\<not> lp_off (A @ ?X) > ?n - 1 + 1" by (simp add: lp_off_def lB)
  have kb: "k < 2 ^ 16" using k by auto
  have "lpDeleteRangeWithEntry al lp ?p num = do {
      b \<leftarrow> rd lp2 ?p; Some (lp2, if b = LP_EOF then None else Some ?p) }"
    using False rep_bytes [OF assms(1)] loop mm tl sub lp2(1) kk hdr_get(2) [OF kb]
    by (cases "k = LP_HDR_NUMELE_UNKNOWN") (simp_all add: lpDeleteRangeWithEntry_def Let_def hdr_set lp1_def k'_def)
  then show ?thesis using b lp2(2) by (auto simp: lp_cur_def)
qed

lemma rep_truncate:
  assumes "lp_rep lp (A @ B)" "lpGetNumElements lp = Some k"
  shows "\<exists>r'. wr lp (lp_off A) [LP_EOF] = Some (hdr (7 + length (lp_body (A @ B))) k @ lp_body A @ [LP_EOF] @ r')"
proof -
  obtain k' r where k: "k' = LP_HDR_NUMELE_UNKNOWN \<or> k' = length (A @ B) \<and> k' < LP_HDR_NUMELE_UNKNOWN"
    and lp: "lp = (hdr (7 + length (lp_body (A @ B))) k' @ lp_body A) @ (lp_body B @ [LP_EOF]) @ r"
    using rep_split [of lp A "[]" B] assms by auto
  have "k' = k" using assms(2) lp k by (auto simp: hdr_get)
  obtain x y where xy: "lp_body B @ [LP_EOF] = x # y" by (cases "lp_body B @ [LP_EOF]") auto
  have "wr ((hdr (7 + length (lp_body (A @ B))) k' @ lp_body A) @ [x] @ (y @ r)) (lp_off A) [LP_EOF] =
      Some ((hdr (7 + length (lp_body (A @ B))) k' @ lp_body A) @ [LP_EOF] @ (y @ r))"
    by (intro wr_append) (simp_all add: lp_off_def)
  then show ?thesis using lp xy \<open>k' = k\<close> by auto
qed

lemma rep_delete_range:
  assumes "lp_rep lp es" "num < 2 ^ 64"
  shows "\<exists>lp'. lpDeleteRange al lp index num = Some lp' \<and>
    lp_rep lp' (case lp_index index es of None \<Rightarrow> es | Some i \<Rightarrow> take i es @ drop (i + num) es)"
proof -
  obtain k where k: "lpGetNumElements lp = Some k" "k = LP_HDR_NUMELE_UNKNOWN \<or> k = length es \<and> k < LP_HDR_NUMELE_UNKNOWN"
    using rep_num [OF assms(1)] by blast
  consider "num = 0" | "num \<noteq> 0" "lp_index index es = None" | i where "num \<noteq> 0" "lp_index index es = Some i"
    by (cases "lp_index index es") auto
  then show ?thesis
  proof cases
    case 1
    then show ?thesis using assms(1) k(1) by (auto simp: lpDeleteRange_def split: option.split)
  next
    case 2
    then show ?thesis using assms(1) k(1) rep_seek [OF assms(1), of index] by (simp add: lpDeleteRange_def)
  next
    case (3 i)
    have i: "i < length es" "int i = (if index < 0 then int (length es) + index else index)"
      using 3(2) by (auto simp: lp_index_def Let_def split: if_splits)
    have r: "lp_rep lp (take i es @ drop i es)" "drop i es \<noteq> []" using assms(1) i by simp_all
    have seek: "lpSeek lp index = Some (Some (lp_off (take i es)))" using rep_seek [OF assms(1), of index] 3 by simp
    show ?thesis
    proof (cases "k \<noteq> LP_HDR_NUMELE_UNKNOWN \<and> length es - i \<le> num")
      case True
      then have kl: "k = length es" using k(2) by simp
      have "(int k - int i) mod 2 ^ 64 = int (k - i)" using i(1) kl rep_count_lt [OF assms(1)] by (simp add: of_nat_diff)
      then have c: "nat ((int k - int i) mod 2 ^ 64) \<le> num" using True kl by simp
      obtain r' where w: "wr lp (lp_off (take i es)) [LP_EOF] =
          Some (hdr (7 + length (lp_body es)) k @ lp_body (take i es) @ [LP_EOF] @ r')"
        using rep_truncate [OF r(1) k(1)] append_take_drop_id [of i es] by metis
      define lp1 where "lp1 = hdr (7 + length (lp_body (take i es))) i @ lp_body (take i es) @ [LP_EOF] @ r'"
      have "length (lp_body (take i es)) \<le> length (lp_body es)"
        using append_take_drop_id [of i es] lp_body_simps(3) by (metis le_add1 length_append)
      then have "lp_rep lp1 (take i es)" using i(1) kl True k(2) rep_bound [OF assms(1)] rep_enc [OF assms(1)]
        by (intro rep_join [of _ _ i r']) (auto simp: lp1_def dest: in_set_takeD)
      then obtain lp2 where lp2: "lpShrinkToFit al lp1 = Some lp2" "lp_rep lp2 (take i es)" using rep_shrink by blast
      have ib: "nat (int i mod 2 ^ 32) = i" using i(1) rep_count_lt [OF assms(1)] by simp
      have "(if k \<noteq> LP_HDR_NUMELE_UNKNOWN \<and> index < 0 then int k + index else index) = int i" using i(2) True kl by auto
      then have "lpDeleteRange al lp index num = Some lp2"
        using 3(1) k(1) seek c w lp2(1) ib True
        by (simp add: lpDeleteRange_def hdr_set lp1_def lp_off_def)
      moreover have "drop (i + num) es = []" using True i(1) by auto
      ultimately show ?thesis using lp2(2) 3(2) by simp
    next
      case False
      define j where "j = (if k \<noteq> LP_HDR_NUMELE_UNKNOWN \<and> index < 0 then int k + index else index)"
      have c: "\<not> (k \<noteq> LP_HDR_NUMELE_UNKNOWN \<and>
          nat ((int k - j) mod 2 ^ 64) \<le> num)"
      proof
        assume a: "k \<noteq> LP_HDR_NUMELE_UNKNOWN \<and>
          nat ((int k - j) mod 2 ^ 64) \<le> num"
        then have kl: "k = length es" using k(2) by simp
        then have "j = int i" using i(2) a by (auto simp: j_def)
        moreover have "(int k - int i) mod 2 ^ 64 = int (k - i)" using i(1) kl rep_count_lt [OF assms(1)] by (simp add: of_nat_diff)
        ultimately have "k - i \<le> num" using a by (simp only: nat_int)
        then show False using a False kl by simp
      qed
      obtain lp' where "lpDeleteRangeWithEntry al lp (lp_off (take i es)) num = Some (lp', lp_cur (take i es) (drop num (drop i es)))"
        "lp_rep lp' (take i es @ drop num (drop i es))" using rep_delete_range_entry [OF r] by blast
      then show ?thesis using 3 k(1) seek c by (auto simp: lpDeleteRange_def Let_def add.commute j_def)
    qed
  qed
qed

section \<open>Merging\<close>

lemma rep_merge:
  assumes "lp_rep first es1" "lp_rep second es2" "7 + length (lp_body es1) + length (lp_body es2) < UINT32_MAX"
  shows "\<exists>lp'. lpMerge al first second = Some (lp', length (lp_body es1) \<ge> length (lp_body es2)) \<and> lp_rep lp' (es1 @ es2)"
proof -
  let ?n1 = "7 + length (lp_body es1)" and ?n2 = "7 + length (lp_body es2)" and ?n = "7 + length (lp_body (es1 @ es2))"
  obtain f where f: "lpLength first = Some (length es1, f)" "lp_rep f es1" using rep_length [OF assms(1)] by blast
  obtain s where s: "lpLength second = Some (length es2, s)" "lp_rep s es2" using rep_length [OF assms(2)] by blast
  obtain k1 r1 where f1: "f = hdr ?n1 k1 @ lp_body es1 @ LP_EOF # r1" using f(2) by (auto simp: lp_rep_def)
  obtain k2 r2 where s1: "s = hdr ?n2 k2 @ lp_body es2 @ LP_EOF # r2" using s(2) by (auto simp: lp_rep_def)
  define k where "k = (if length es1 + length es2 < 65535 then length es1 + length es2 else 65535)"
  have fin: "lp_rep (hdr ?n k @ lp_body (es1 @ es2) @ [LP_EOF] @ r) (es1 @ es2)" for r
    using rep_enc [OF assms(1)] rep_enc [OF assms(2)] assms(3)
    by (intro rep_join [of _ _ k r]) (auto simp: k_def)
  note pre = rep_bytes [OF assms(1)] rep_bytes [OF assms(2)] f(1) s(1)
  show ?thesis
  proof (cases "length (lp_body es1) \<ge> length (lp_body es2)")
    case True
    obtain q where q: "zrealloc al f ?n = take ?n1 f @ q" using zrealloc_prefix [of ?n1 ?n f al] f1 by auto
    moreover have "length (zrealloc al f ?n) \<ge> ?n" by simp
    ultimately have ql: "length (lp_body es2) \<le> length q" using f1 by simp
    have z: "zrealloc al f ?n = (hdr ?n1 k1 @ lp_body es1) @ (LP_EOF # take (length (lp_body es2)) q) @ drop (length (lp_body es2)) q"
      using q f1 by simp
    have w: "wr (zrealloc al f ?n) (?n1 - 1) (lp_body es2 @ [LP_EOF]) =
        Some ((hdr ?n1 k1 @ lp_body es1) @ (lp_body es2 @ [LP_EOF]) @ drop (length (lp_body es2)) q)"
      unfolding z using ql by (intro wr_append) simp_all
    have v: "rdn s LP_HDR_SIZE (?n2 - LP_HDR_SIZE) = Some (lp_body es2 @ [LP_EOF])" by (simp add: s1 rdn_def)
    have "lpMerge al first second = Some (hdr ?n k @ lp_body (es1 @ es2) @ [LP_EOF] @ drop (length (lp_body es2)) q, True)"
      using True assms(3) w v by (simp add: lpMerge_def Let_def pre) (simp add: hdr_set k_def)
    then show ?thesis using fin True by auto
  next
    case False
    obtain q where q: "zrealloc al s ?n = take ?n2 s @ q" using zrealloc_prefix [of ?n2 ?n s al] s1 by auto
    moreover have "length (zrealloc al s ?n) \<ge> ?n" by simp
    ultimately have ql: "length (lp_body es1) \<le> length q" using s1 by simp
    have z: "zrealloc al s ?n = hdr ?n2 k2 @ [] @ (lp_body es2 @ [LP_EOF]) @ q" using q s1 by simp
    have "\<exists>g q'. memmove (hdr ?n2 k2 @ [] @ (lp_body es2 @ [LP_EOF]) @ q) (?n1 - 1) LP_HDR_SIZE (?n2 - LP_HDR_SIZE) =
        Some (hdr ?n2 k2 @ g @ (lp_body es2 @ [LP_EOF]) @ q') \<and> length g = length (lp_body es1)"
      using ql by (intro memmove_splice) simp_all
    then obtain g q' where mm: "memmove (zrealloc al s ?n) (?n1 - 1) LP_HDR_SIZE (?n2 - LP_HDR_SIZE) =
        Some (hdr ?n2 k2 @ g @ (lp_body es2 @ [LP_EOF]) @ q')" "length g = length (lp_body es1)"
      unfolding z by blast
    have v: "rdn f 0 (?n1 - 1) = Some (hdr ?n1 k1 @ lp_body es1)" by (simp add: f1 rdn_def)
    have w: "wr (hdr ?n2 k2 @ g @ (lp_body es2 @ [LP_EOF]) @ q') 0 (hdr ?n1 k1 @ lp_body es1) =
        Some (hdr ?n1 k1 @ lp_body es1 @ lp_body es2 @ [LP_EOF] @ q')" using mm(2) by (simp add: wr_def)
    have "lpMerge al first second = Some (hdr ?n k @ lp_body (es1 @ es2) @ [LP_EOF] @ q', False)"
      using False assms(3) mm(1) w v by (simp add: lpMerge_def Let_def pre) (simp add: hdr_set k_def)
    then show ?thesis using fin False by auto
  qed
qed

section \<open>Both ends, and behind an entry\<close>

lemma rep_end: "lp_rep lp es \<Longrightarrow> lpGetTotalBytes lp = Some (lp_off es + 1)"
  by (simp add: rep_total lp_off_def)

lemma rep_insert_end:
  assumes "lp_rep lp es" "ele_ok ele enc" "7 + length (lp_body es) + length (lp_entry enc) \<le> UINT32_MAX"
  shows "\<exists>lp'. lpInsert al lp ele (lp_off es) LP_BEFORE = Some (Some (lp', Some (lp_off es))) \<and> lp_rep lp' (es @ [enc])"
  using rep_insert_before [of lp es "[]" ele enc al] assms by auto

lemma rep_append:
  assumes "lp_rep lp es" "length s + 5 < 2 ^ 32" "7 + length (lp_body es) + length (lp_entry (lp_encode s)) \<le> UINT32_MAX"
  shows "\<exists>lp'. lpAppend al lp s = Some (Some lp') \<and> lp_rep lp' (es @ [lp_encode s])"
proof -
  have "ele_ok (EleStr s) (lp_encode s)" using assms(2) by (simp add: ele_ok_def)
  then show ?thesis using rep_insert_end [OF assms(1) _ assms(3), of "EleStr s" al] rep_end [OF assms(1)]
    by (auto simp: lpAppend_def)
qed

lemma rep_append_int:
  assumes "lp_rep lp es" "int64 v" "7 + length (lp_body es) + length (lp_entry (lpEncodeIntegerGetType v)) \<le> UINT32_MAX"
  shows "\<exists>lp'. lpAppendInteger al lp v = Some (Some lp') \<and> lp_rep lp' (es @ [lpEncodeIntegerGetType v])"
proof -
  have "ele_ok (EleInt (lpEncodeIntegerGetType v)) (lpEncodeIntegerGetType v)"
    using lp_encode_int [OF assms(2)] by (simp add: ele_ok_def)
  then show ?thesis using rep_insert_end [OF assms(1) _ assms(3), of "EleInt (lpEncodeIntegerGetType v)" al] rep_end [OF assms(1)]
    by (auto simp: lpAppendInteger_def lpInsertInteger_def)
qed

lemma rep_prepend:
  assumes "lp_rep lp es" "length s + 5 < 2 ^ 32" "7 + length (lp_body es) + length (lp_entry (lp_encode s)) \<le> UINT32_MAX"
  shows "\<exists>lp'. lpPrepend al lp s = Some (Some lp') \<and> lp_rep lp' (lp_encode s # es)"
proof (cases es)
  case Nil
  then show ?thesis using rep_append [OF assms, of al] rep_first [OF assms(1)] by (simp add: lpPrepend_def)
next
  case (Cons e B)
  have "ele_ok (EleStr s) (lp_encode s)" using assms(2) by (simp add: ele_ok_def)
  then show ?thesis using rep_insert_before [of lp "[]" es "EleStr s" "lp_encode s" al] assms rep_first [OF assms(1)] Cons
    by (auto simp: lpPrepend_def split: if_splits)
qed

lemma rep_insert_after:
  assumes "lp_rep lp (A @ e # B)" "ele_ok ele enc" "7 + length (lp_body (A @ e # B)) + length (lp_entry enc) \<le> UINT32_MAX"
  shows "\<exists>lp'. lpInsert al lp ele (lp_off A) LP_AFTER = Some (Some (lp', Some (lp_off (A @ [e])))) \<and>
    lp_rep lp' (A @ e # enc # B)"
proof -
  have "ele \<noteq> EleNone" using assms(2) by (auto simp: ele_ok_def)
  then have "lpInsert al lp ele (lp_off A) LP_AFTER = lpInsert al lp ele (lp_off (A @ [e])) LP_BEFORE"
    using rep_skip [OF assms(1)] rep_total [OF assms(1)] by (simp add: lpInsert_def lp_off_def)
  then show ?thesis using rep_insert_before [of lp "A @ [e]" B ele enc al] assms by (auto split: if_splits)
qed

section \<open>Batches\<close>

fun batch_enc :: "listpackEntry \<Rightarrow> bytes" where
  "batch_enc (ESval s) = lp_encode s"
| "batch_enc (ELval v) = lpEncodeIntegerGetType v"

fun batch_ok :: "listpackEntry \<Rightarrow> bool" where
  "batch_ok (ESval s) \<longleftrightarrow> length s + 5 < 2 ^ 32"
| "batch_ok (ELval v) \<longleftrightarrow> int64 v"

lemma batch_enc_enc: "batch_ok ent \<Longrightarrow> lp_enc (batch_enc ent)"
  by (cases ent) (simp_all add: lp_str_encode lp_encode_int)

lemma batch_enc_len: "snd (lpBatch_enc ent) = length (batch_enc ent)"
  by (cases ent) (simp_all add: lpBatch_enc_def lpEncodeGetType_spec Let_def)

lemma batch_write:
  "(case (fst (lpBatch_enc ent), ent) of
      (LP_ENCODING_INT intenc, _) \<Rightarrow> wr lp dst intenc
    | (LP_ENCODING_STRING, ESval str) \<Rightarrow> wr lp dst (lpEncodeString str)
    | (LP_ENCODING_STRING, ELval _) \<Rightarrow> None) = wr lp dst (batch_enc ent)"
  by (cases ent) (auto simp: lpBatch_enc_def lpEncodeGetType_spec Let_def lp_encode_def split: option.split)

lemma batch_loop_step:
  "lpBatchInsert_loop lp dst newp (ent # es) = do {
     lp \<leftarrow> do { lp \<leftarrow> wr lp dst (batch_enc ent); wr lp (dst + length (batch_enc ent)) (lpEncodeBacklen (length (batch_enc ent))) };
     lpBatchInsert_loop lp (dst + length (lp_entry (batch_enc ent))) (Some dst) es
   }"
  using batch_write [of lp dst ent] batch_enc_len [of ent]
  by (simp add: Let_def split_def length_lp_entry add.assoc del: batch_enc.simps)

lemma batch_loop:
  "lp = a @ g @ t \<Longrightarrow> length g = length (lp_body (map batch_enc es)) \<Longrightarrow> dst = length a \<Longrightarrow>
   lpBatchInsert_loop lp dst newp es = Some (a @ lp_body (map batch_enc es) @ t,
     if es = [] then newp else Some (length a + length (lp_body (map batch_enc (butlast es)))))"
proof (induction es arbitrary: lp a g dst newp)
  case (Cons ent es)
  let ?e = "lp_entry (batch_enc ent)" and ?k = "length (lp_entry (batch_enc ent))"
  have g: "lp = a @ take ?k g @ (drop ?k g @ t)" "length (take ?k g) = ?k" using Cons.prems by simp_all
  have w: "do { lp \<leftarrow> wr lp dst (batch_enc ent); wr lp (dst + length (batch_enc ent)) (lpEncodeBacklen (length (batch_enc ent))) }
      = Some (a @ ?e @ drop ?k g @ t)"
    by (rule write_entry [OF g Cons.prems(3)])
  have "lpBatchInsert_loop ((a @ ?e) @ drop ?k g @ t) (dst + ?k) (Some dst) es =
      Some ((a @ ?e) @ lp_body (map batch_enc es) @ t,
        if es = [] then Some dst else Some (length (a @ ?e) + length (lp_body (map batch_enc (butlast es)))))"
    using Cons.prems by (intro Cons.IH [OF refl]) simp_all
  then show ?case using w Cons.prems(3) by (simp add: batch_loop_step del: lpBatchInsert_loop.simps)
qed simp

lemma batch_addedlen:
  "(\<Sum>e\<leftarrow>es. snd (lpBatch_enc e) + lpEncodeBacklenBytes (snd (lpBatch_enc e))) = length (lp_body (map batch_enc es))"
  by (induction es) (simp_all add: batch_enc_len length_lp_entry)

lemma rep_batch_insert:
  assumes "lp_rep lp (A @ B)" "es \<noteq> []" "\<forall>ent \<in> set es. batch_ok ent"
    "7 + length (lp_body (A @ map batch_enc es @ B)) \<le> UINT32_MAX"
  shows "\<exists>lp'. lpBatchInsert al lp (lp_off A) LP_BEFORE es =
      Some (Some (lp', Some (lp_off (A @ map batch_enc (butlast es))))) \<and> lp_rep lp' (A @ map batch_enc es @ B)"
proof -
  let ?n = "7 + length (lp_body (A @ B))" and ?p = "lp_off A" and ?k = "length (lp_body (map batch_enc es))"
  let ?new = "A @ map batch_enc es @ B"
  obtain k r where k: "k = LP_HDR_NUMELE_UNKNOWN \<or> k = length (A @ B) \<and> k < LP_HDR_NUMELE_UNKNOWN"
    and lp: "lp = (hdr ?n k @ lp_body A) @ [] @ (lp_body B @ [LP_EOF]) @ r"
    using rep_split [of lp A "[]" B] assms(1) by auto
  have kb: "k < 2 ^ 16" using k by auto
  obtain g r' where g: "lp_splice al lp ?n ?p 0 ?k = Some ((hdr ?n k @ lp_body A) @ g @ (lp_body B @ [LP_EOF]) @ r')" "length g = ?k"
    using splice_spec [OF lp, of ?n ?p 0 al ?k] by (auto simp: lp_off_def)
  have loop: "lpBatchInsert_loop ((hdr ?n k @ lp_body A) @ g @ (lp_body B @ [LP_EOF]) @ r') ?p None es =
      Some (hdr ?n k @ lp_body ?new @ [LP_EOF] @ r', Some (lp_off (A @ map batch_enc (butlast es))))"
    using batch_loop [OF refl g(2), of ?p "hdr ?n k @ lp_body A" "(lp_body B @ [LP_EOF]) @ r'" None] assms(2) by (simp add: lp_off_def)
  define k' where "k' = (if k \<noteq> LP_HDR_NUMELE_UNKNOWN then
      (if int (length es) > int LP_HDR_NUMELE_UNKNOWN - int k then LP_HDR_NUMELE_UNKNOWN else k + length es) else k)"
  define lp' where "lp' = hdr (?n + ?k) k' @ lp_body ?new @ [LP_EOF] @ r'"
  have "lp_rep lp' ?new"
    using k assms(4) batch_enc_enc assms(3) rep_enc [OF assms(1)]
    by (intro rep_join [of _ _ k' r']) (auto simp: lp'_def k'_def ac_simps)
  moreover have "lpBatchInsert al lp ?p LP_BEFORE es = Some (Some (lp', Some (lp_off (A @ map batch_enc (butlast es)))))"
  proof -
    have "lpBatchInsert al lp ?p LP_BEFORE es = do {
        lp \<leftarrow> lp_splice al lp ?n ?p 0 ?k;
        (lp, newp) \<leftarrow> lpBatchInsert_loop lp ?p None es;
        num \<leftarrow> lpGetNumElements lp;
        lp \<leftarrow> (if num \<noteq> LP_HDR_NUMELE_UNKNOWN then
             (if int (length es) > int LP_HDR_NUMELE_UNKNOWN - int num then lpSetNumElements lp LP_HDR_NUMELE_UNKNOWN
              else lpSetNumElements lp (num + length es)) else Some lp);
        lp \<leftarrow> lpSetTotalBytes lp (?n + ?k);
        Some (Some (lp, newp)) }"
      using assms(2,4) rep_total [OF assms(1)]
      by (simp add: lpBatchInsert_def lp_splice_def Let_def batch_addedlen lp_off_def cong: if_cong)
    then show ?thesis using g(1) loop hdr_get(2) [OF kb]
      by (simp add: hdr_set lp'_def k'_def)
  qed
  ultimately show ?thesis by blast
qed

end
