(* ===== verification/Listpack_Strings.thy ===== *)
theory Listpack_Strings
  imports Listpack_Ops
begin

text \<open>
  The properties of the listpack component: a listpack is a list of strings
  (\<open>lp_strings lp ss\<close>), whatever encodings its entries use.
\<close>

section \<open>A listpack as a list of strings\<close>

definition lp_strings :: "bytes \<Rightarrow> bytes list \<Rightarrow> bool" where
  "lp_strings lp ss \<longleftrightarrow> (\<exists>es. lp_rep lp es \<and> map lp_str es = ss)"

text \<open>The string a reader gets from the result of \<^verbatim>\<open>lpGet\<close>.\<close>

definition lp_read :: "bytes \<Rightarrow> lp_ret \<Rightarrow> bytes option" where
  "lp_read lp r = (case r of Ptr q n \<Rightarrow> rdn lp q (nat n) | Buf b n \<Rightarrow> rdn b 0 n | Val v \<Rightarrow> Some (ll_repr v))"

lemma encode_int_len: "length (lpEncodeIntegerGetType v) \<le> 9"
  by (simp add: lpEncodeIntegerGetType_def Let_def)

lemma encode_len: "length (lp_entry (lp_encode s)) \<le> length s + 13"
proof -
  have "length (lp_encode s) \<le> length s + 8"
  proof (cases "string2ll s")
    case None
    then show ?thesis by (simp add: lp_encode_def lpEncodeString_def Let_def)
  next
    case (Some v)
    then have "0 < length s" "length (lp_encode s) \<le> 9"
      using string2ll_length [OF Some] encode_int_len [of v] by (simp_all add: lp_encode_def)
    then show ?thesis by linarith
  qed
  then show ?thesis using backlen_bytes(2) [of "length (lp_encode s)"] by (simp add: length_lp_entry)
qed

lemma lpGet_buf:
  "lpGet lp p (Some buf) = (case lpGet lp p None of Some (Val v) \<Rightarrow> lpIntResult v (Some buf) | r \<Rightarrow> r)"
proof -
  have i: "lpIntResult v None = Some (Val v)" for v by (simp add: lpIntResult_def)
  show ?thesis unfolding lpGet_def lpGetWithBuf_def i
    by (auto split: option.split bind_splits if_splits simp: STR_LEN_6BIT_def STR_LEN_12BIT_def STR_LEN_32BIT_def)
qed

lemma rep_read:
  assumes "lp_rep lp (A @ e # B)" "LP_INTBUF_SIZE \<le> length buf"
  shows "\<exists>r. lpGet lp (lp_off A) (Some buf) = Some r \<and> lp_read lp r = Some (lp_str e)"
proof (cases "lp_val e")
  case (LStr s)
  then show ?thesis using rep_get_str [OF assms(1) LStr] by (auto simp: lpGet_buf lp_read_def lp_str_def)
next
  case (LInt v)
  have v: "int64 v" using lp_val_int64 [OF _ LInt] rep_enc [OF assms(1)] by simp
  have "length (ll_repr v) < LP_INTBUF_SIZE" using length_ll_repr [OF v] by simp
  then have "ll2string buf 0 LP_INTBUF_SIZE v =
      Some (ll_repr v @ [0] @ drop (length (ll_repr v) + 1) buf, length (ll_repr v))"
    using ll2string_spec [OF v, of 0 LP_INTBUF_SIZE buf] assms(2) by simp
  then show ?thesis using rep_get_int [OF assms(1) LInt] LInt
    by (simp add: lpGet_buf lpIntResult_def lp_read_def lp_str_def rdn_def)
qed

lemma scan_map: "lp_scan skip k P (map f es) = lp_scan skip k (P \<circ> f) es"
  by (induction skip k "P \<circ> f" es rule: lp_scan.induct) auto

lemma scan_lt: "lp_scan skip k P es = Some i \<Longrightarrow> i < length es \<and> P (es ! i)"
  by (induction skip k P es arbitrary: i rule: lp_scan.induct) (auto split: if_splits)

lemma scan_0_None: "lp_scan 0 0 P es = None \<longleftrightarrow> (\<forall>e \<in> set es. \<not> P e)"
  by (induction es) auto

lemma lp_index_map: "lp_index i (map f es) = lp_index i es"
  by (simp add: lp_index_def)

lemma lp_index_lt: "lp_index i es = Some j \<Longrightarrow> j < length es"
  by (auto simp: lp_index_def Let_def split: if_splits)

lemma lp_index_nat: "j < length es \<Longrightarrow> lp_index (int j) es = Some j"
  by (simp add: lp_index_def)

text \<open>The entry an index leads to.\<close>

lemma strings_at:
  assumes "lp_strings lp ss" "lp_index i ss = Some j"
  obtains A e B where "lp_rep lp (A @ e # B)" "map lp_str (A @ e # B) = ss" "length A = j" "lpSeek lp i = Some (Some (lp_off A))"
proof -
  obtain es where es: "lp_rep lp es" "map lp_str es = ss" using assms(1) by (auto simp: lp_strings_def)
  have j: "lp_index i es = Some j" using assms(2) es(2) lp_index_map by metis
  then have jl: "j < length es" by (rule lp_index_lt)
  have sp: "es = take j es @ es ! j # drop (Suc j) es" using jl by (simp add: id_take_nth_drop)
  show ?thesis using that [of "take j es" "es ! j" "drop (Suc j) es"] es sp rep_seek [OF es(1), of i] j jl by simp
qed

lemma bytes_enough:
  assumes "lp_rep lp es" "lpBytes lp = Some n" "n + length s + 13 \<le> UINT32_MAX"
  shows "length s + 5 < 2 ^ 32" "7 + length (lp_body es) + length (lp_entry (lp_encode s)) \<le> UINT32_MAX"
  using assms rep_bytes [OF assms(1)] encode_len [of s] by auto

section \<open>Properties\<close>

text \<open>A small listpack for the witnesses: the strings \<open>hi\<close> and \<open>42\<close>, the second one stored as an integer.\<close>

definition lp_demo :: bytes where
  "lp_demo = [13, 0, 0, 0, 2, 0, 0x82, 104, 105, 3, 42, 1, 0xFF]"

lemma le_bytes_4: "le_bytes 4 v = [word_of_nat v, word_of_nat (v div 256), word_of_nat (v div 256 div 256),
    word_of_nat (v div 256 div 256 div 256)]"
proof -
  have "(4 :: nat) = Suc (Suc (Suc (Suc 0)))" by simp
  then show ?thesis by (simp only: le_bytes.simps)
qed

lemma le_bytes_2: "le_bytes 2 v = [word_of_nat v, word_of_nat (v div 256)]"
  by (simp add: numeral_2_eq_2)

lemma lp_demo: "lp_strings lp_demo [[104, 105], [52, 50]]" "lpBytes lp_demo = Some 13"
proof -
  have e: "lp_enc [0x82, 104, 105]" "lp_enc [42]" "lp_val [0x82, 104, 105] = LStr [104, 105]" "lp_val [42] = LInt 42"
    using EncodedSize_byte(2) [of "0x82" "[104, 105]"] EncodedSize_byte(1) [of 42] lp_val_str(1) [of "0x82" "[104, 105]"] lp_val_int(1) [of 42]
    by (simp_all add: byte_masks)
  have h: "le_bytes 4 13 = [13, 0, 0, 0]" "le_bytes 2 2 = [2, 0]" by (simp_all add: le_bytes_4 le_bytes_2)
  have b: "lp_body [[0x82, 104, 105], [42]] = [0x82, 104, 105, 3, 42, 1]"
    by (simp add: lp_entry_def lpEncodeBacklen_def)
  have "lp_rep lp_demo [[0x82, 104, 105], [42]]"
    unfolding lp_rep_def b using e by (auto simp: lp_demo_def hdr_def h intro!: exI [of _ 2] exI [of _ "[]"])
  moreover have "ll_repr 42 = [52, 50]" by (simp add: ll_repr_def dec.simps)
  ultimately show "lp_strings lp_demo [[104, 105], [52, 50]]"
    using e by (auto simp: lp_strings_def lp_str_def intro!: exI [of _ "[[0x82, 104, 105], [42]]"])
  show "lpBytes lp_demo = Some 13" by (simp add: lpBytes_def lpGetTotalBytes_def rdn_def lp_demo_def)
qed

text \<open>
  C5. \<^verbatim>\<open>lpAppend\<close> adds exactly the given string at the end, whether it is stored as a string or,
  when it is the decimal form of a 64-bit integer, as an integer; all other elements keep
  their value. It returns (no assertion, no stray access) whenever the result stays below
  the 32-bit size limit, wherever the allocator puts the block.
\<close>

theorem lpAppend_strings:
  assumes "lp_strings lp ss" "lpBytes lp = Some n" "n + length s + 13 \<le> UINT32_MAX"
  shows "\<exists>lp'. lpAppend al lp s = Some (Some lp') \<and> lp_strings lp' (ss @ [s])"
proof -
  obtain es where es: "lp_rep lp es" "map lp_str es = ss" using assms(1) by (auto simp: lp_strings_def)
  note b = bytes_enough [OF es(1) assms(2,3)]
  obtain lp' where "lpAppend al lp s = Some (Some lp')" "lp_rep lp' (es @ [lp_encode s])"
    using rep_append [OF es(1) b] by blast
  moreover have "map lp_str (es @ [lp_encode s]) = ss @ [s]" using es(2) lp_str_encode(2) [OF b(1)] by simp
  ultimately show ?thesis unfolding lp_strings_def by blast
qed

theorem lpAppend_strings_witness:
  "\<exists>lp'. lpAppend exact_alloc lp_demo [45, 55] = Some (Some lp') \<and> lp_strings lp' [[104, 105], [52, 50], [45, 55]]"
  using lpAppend_strings [OF lp_demo, of "[45, 55]" exact_alloc] by simp

text \<open>
  C29. Reading: for an index inside the list, counted from the front or, when negative, from the
  back, \<^verbatim>\<open>lpSeek\<close> (which walks from the nearer end) finds the element and \<^verbatim>\<open>lpGet\<close> with a buffer
  of \<^verbatim>\<open>LP_INTBUF_SIZE\<close> bytes returns its string.
\<close>

theorem lpSeek_lpGet_strings:
  assumes "lp_strings lp ss" "lp_index i ss = Some j" "LP_INTBUF_SIZE \<le> length buf"
  shows "\<exists>p r. lpSeek lp i = Some (Some p) \<and> lpGet lp p (Some buf) = Some r \<and> lp_read lp r = Some (ss ! j)"
proof -
  obtain A e B where a: "lp_rep lp (A @ e # B)" "map lp_str (A @ e # B) = ss" "length A = j" "lpSeek lp i = Some (Some (lp_off A))"
    by (rule strings_at [OF assms(1,2)])
  have "ss ! j = lp_str e" unfolding a(2) [symmetric] using a(3) by (simp add: nth_append)
  then show ?thesis using rep_read [OF a(1) assms(3)] a(4) by auto
qed

theorem lpSeek_lpGet_strings_witness:
  "\<exists>p r. lpSeek lp_demo (- 1) = Some (Some p) \<and> lpGet lp_demo p (Some (replicate 21 0)) = Some r \<and>
     lp_read lp_demo r = Some [52, 50]"
  using lpSeek_lpGet_strings [OF lp_demo(1), of "- 1" 1 "replicate 21 0"] by (simp add: lp_index_def)

text \<open>\<^verbatim>\<open>lpSeek\<close> with an index outside the list returns NULL.\<close>

theorem lpSeek_outside:
  assumes "lp_strings lp ss" "lp_index i ss = None"
  shows "lpSeek lp i = Some None"
proof -
  obtain es where es: "lp_rep lp es" "map lp_str es = ss" using assms(1) by (auto simp: lp_strings_def)
  then show ?thesis using rep_seek [OF es(1), of i] assms(2) lp_index_map by (metis option.map_disc_iff)
qed

theorem lpSeek_outside_witness: "lpSeek lp_demo (- 3) = Some None"
  using lpSeek_outside [OF lp_demo(1), of "- 3"] by (simp add: lp_index_def)

text \<open>
  C16. \<^verbatim>\<open>lpFind\<close> from the first element returns the first element equal to the searched string
  among those it does not skip (every \<open>skip + 1\<close>-th one is compared), or NULL when there is
  none. Integers are compared as integers, and that agrees with comparing the strings.
\<close>

theorem lpFind_strings:
  assumes "lp_strings lp ss"
  shows "lpFind lp None s skip =
    (case lp_scan skip 0 (\<lambda>x. x = s) ss of None \<Rightarrow> Some None | Some j \<Rightarrow> lpSeek lp (int j))"
proof -
  obtain es where es: "lp_rep lp es" "map lp_str es = ss" using assms(1) by (auto simp: lp_strings_def)
  have sc: "lp_scan skip 0 (\<lambda>x. x = s) ss = lp_scan skip 0 (\<lambda>e. lp_str e = s) es"
    using scan_map [of skip 0 "\<lambda>x. x = s" lp_str es] es(2) by (simp add: comp_def)
  show ?thesis unfolding sc using rep_find_first [OF es(1), of s skip] rep_seek [OF es(1)]
    by (auto simp: lp_index_nat dest: scan_lt split: option.split)
qed

theorem lpFind_strings_witness: "lpFind lp_demo None [52, 50] 0 = lpSeek lp_demo 1"
  using lpFind_strings [OF lp_demo(1), of "[52, 50]" 0] by simp

text \<open>
  C17. \<^verbatim>\<open>lpDelete\<close> at the element an index leads to removes that element only. The pointer it returns through \<^verbatim>\<open>newp\<close> is
  where the successor of the deleted element now is, the very position of the deleted one, so seeking the same place in the
  new listpack leads to it; it is NULL exactly when the last element was deleted.
\<close>

theorem lpDelete_strings:
  assumes "lp_strings lp ss" "lp_index i ss = Some j"
  shows "\<exists>p lp' q. lpSeek lp i = Some (Some p) \<and> lpDelete al lp p = Some (Some (lp', q)) \<and>
    lp_strings lp' (take j ss @ drop (Suc j) ss) \<and>
    lpSeek lp' (int j) = Some q \<and> q = (if Suc j = length ss then None else Some p)"
proof -
  obtain A e B where a: "lp_rep lp (A @ e # B)" "map lp_str (A @ e # B) = ss" "length A = j" "lpSeek lp i = Some (Some (lp_off A))"
    by (rule strings_at [OF assms(1,2)])
  obtain lp' where "lpDelete al lp (lp_off A) = Some (Some (lp', lp_cur A B))" "lp_rep lp' (A @ B)"
    using rep_delete [OF a(1)] by blast
  moreover have "map lp_str (A @ B) = take j ss @ drop (Suc j) ss" "Suc j = length ss \<longleftrightarrow> B = []"
    unfolding a(2) [symmetric] using a(3) by auto
  moreover have "lpSeek lp' (int j) = Some (lp_cur A B)"
    using rep_seek [OF calculation(2), of "int j"] a(3) by (cases B) (simp_all add: lp_index_def)
  ultimately show ?thesis using a(4) unfolding lp_strings_def by (auto simp: lp_cur_def)
qed

theorem lpDelete_strings_witness:
  "\<exists>p lp' q. lpSeek lp_demo 0 = Some (Some p) \<and> lpDelete exact_alloc lp_demo p = Some (Some (lp', q)) \<and>
     lp_strings lp' [[52, 50]] \<and> lpSeek lp' 0 = Some (Some p) \<and> q = Some p"
  using lpDelete_strings [OF lp_demo(1), of 0 0 exact_alloc] by (simp add: lp_index_def)

text \<open>
  C18. \<^verbatim>\<open>lpReplace\<close> at the element an index leads to changes that element only, whether the new
  entry is longer, shorter or of another encoding.
\<close>

theorem lpReplace_strings:
  assumes "lp_strings lp ss" "lp_index i ss = Some j" "lpBytes lp = Some n" "n + length s + 13 \<le> UINT32_MAX"
  shows "\<exists>p lp'. lpSeek lp i = Some (Some p) \<and> lpReplace al lp p s = Some (Some (lp', Some p)) \<and> lp_strings lp' (ss[j := s])"
proof -
  obtain A e B where a: "lp_rep lp (A @ e # B)" "map lp_str (A @ e # B) = ss" "length A = j" "lpSeek lp i = Some (Some (lp_off A))"
    by (rule strings_at [OF assms(1,2)])
  note b = bytes_enough [OF a(1) assms(3,4)]
  have "ele_ok (EleStr s) (lp_encode s)" using b(1) by (simp add: ele_ok_def)
  moreover have "\<not> 7 + length (lp_body (A @ lp_encode s # B)) > UINT32_MAX" using b(2) by simp
  ultimately obtain lp' where "lpReplace al lp (lp_off A) s = Some (Some (lp', Some (lp_off A)))" "lp_rep lp' (A @ lp_encode s # B)"
    using rep_replace [OF a(1), of "EleStr s" "lp_encode s" al] by (auto simp: lpReplace_def)
  moreover have "map lp_str (A @ lp_encode s # B) = ss[j := s]"
    unfolding a(2) [symmetric] using a(3) lp_str_encode(2) [OF b(1)] by (simp add: list_update_append)
  ultimately show ?thesis using a(4) unfolding lp_strings_def by auto
qed

theorem lpReplace_strings_witness:
  "\<exists>p lp'. lpSeek lp_demo 1 = Some (Some p) \<and> lpReplace exact_alloc lp_demo p [97, 98, 99] = Some (Some (lp', Some p)) \<and>
     lp_strings lp' [[104, 105], [97, 98, 99]]"
  using lpReplace_strings [OF lp_demo(1) _ lp_demo(2), of 1 1 "[97, 98, 99]" exact_alloc] by (simp add: lp_index_def)

text \<open>
  C21. \<^verbatim>\<open>lpDeleteRange\<close> removes \<open>num\<close> elements from the index on (fewer when the list ends before),
  both on its fast path that truncates the tail and on its general path, and leaves the
  list alone when the index is outside.
\<close>

theorem lpDeleteRange_strings:
  assumes "lp_strings lp ss" "num < 2 ^ 64"
  shows "\<exists>lp'. lpDeleteRange al lp i num = Some lp' \<and>
    lp_strings lp' (case lp_index i ss of None \<Rightarrow> ss | Some j \<Rightarrow> take j ss @ drop (j + num) ss)"
proof -
  obtain es where es: "lp_rep lp es" "map lp_str es = ss" using assms(1) by (auto simp: lp_strings_def)
  obtain lp' where lp': "lpDeleteRange al lp i num = Some lp'"
    "lp_rep lp' (case lp_index i es of None \<Rightarrow> es | Some i \<Rightarrow> take i es @ drop (i + num) es)"
    using rep_delete_range [OF es(1) assms(2)] by blast
  have "map lp_str (case lp_index i es of None \<Rightarrow> es | Some i \<Rightarrow> take i es @ drop (i + num) es) =
      (case lp_index i ss of None \<Rightarrow> ss | Some j \<Rightarrow> take j ss @ drop (j + num) ss)"
    unfolding es(2) [symmetric] lp_index_map by (auto simp: take_map drop_map split: option.split)
  then show ?thesis using lp' unfolding lp_strings_def by blast
qed

theorem lpDeleteRange_strings_witness:
  "\<exists>lp'. lpDeleteRange exact_alloc lp_demo (- 1) 5 = Some lp' \<and> lp_strings lp' [[104, 105]]"
  using lpDeleteRange_strings [OF lp_demo(1), of 5 exact_alloc "- 1"] by (simp add: lp_index_def)

text \<open>
  C20. \<^verbatim>\<open>lpMerge\<close> yields the elements of the first listpack followed by those of the second, in
  both ways it works: appending to the first block or prepending to the second, whichever
  is the larger one.
\<close>

theorem lpMerge_strings:
  assumes "lp_strings first ss" "lp_strings second ts" "lpBytes first = Some m" "lpBytes second = Some n" "m + n < UINT32_MAX"
  shows "\<exists>lp' kept. lpMerge al first second = Some (lp', kept) \<and> lp_strings lp' (ss @ ts) \<and> (kept \<longleftrightarrow> m \<ge> n)"
proof -
  obtain es where es: "lp_rep first es" "map lp_str es = ss" using assms(1) by (auto simp: lp_strings_def)
  obtain fs where fs: "lp_rep second fs" "map lp_str fs = ts" using assms(2) by (auto simp: lp_strings_def)
  have mn: "m = 7 + length (lp_body es)" "n = 7 + length (lp_body fs)"
    using rep_bytes [OF es(1)] rep_bytes [OF fs(1)] assms(3,4) by simp_all
  obtain lp' where "lpMerge al first second = Some (lp', length (lp_body es) \<ge> length (lp_body fs))" "lp_rep lp' (es @ fs)"
    using rep_merge [OF es(1) fs(1)] mn assms(5) by auto
  then show ?thesis using es(2) fs(2) mn unfolding lp_strings_def by (auto intro!: exI [of _ "es @ fs"])
qed

theorem lpMerge_strings_witness:
  "\<exists>lp' kept. lpMerge exact_alloc lp_demo lp_demo = Some (lp', kept) \<and>
     lp_strings lp' [[104, 105], [52, 50], [104, 105], [52, 50]]"
  using lpMerge_strings [OF lp_demo(1) lp_demo(1) lp_demo(2) lp_demo(2), of exact_alloc] by auto

text \<open>
  \<^verbatim>\<open>lpLength\<close> returns the number of elements, also when the header count is the marker for
  unknown; it may refresh the count but changes no element.
\<close>

theorem lpLength_strings:
  assumes "lp_strings lp ss"
  shows "\<exists>lp'. lpLength lp = Some (length ss, lp') \<and> lp_strings lp' ss"
proof -
  obtain es where es: "lp_rep lp es" "map lp_str es = ss" using assms(1) by (auto simp: lp_strings_def)
  show ?thesis using rep_length [OF es(1)] es(2) unfolding lp_strings_def by auto
qed

theorem lpLength_strings_witness: "\<exists>lp'. lpLength lp_demo = Some (2, lp') \<and> lp_strings lp' [[104, 105], [52, 50]]"
  using lpLength_strings [OF lp_demo(1)] by (simp add: numeral_2_eq_2)

text \<open>
  C30. \<^verbatim>\<open>lpBatchAppend\<close>, which makes room for all new entries at once, appends them one after the
  other: strings as given, integers in their decimal form.
\<close>

theorem lpBatchAppend_strings:
  assumes "lp_strings lp ss" "es \<noteq> []" "list_all batch_ok es"
    "lpBytes lp = Some n" "n + sum_list (map (\<lambda>ent. length (lp_entry (batch_enc ent))) es) \<le> UINT32_MAX"
  shows "\<exists>lp'. lpBatchAppend al lp es = Some (Some lp') \<and>
    lp_strings lp' (ss @ map (\<lambda>ent. case ent of ESval s \<Rightarrow> s | ELval v \<Rightarrow> ll_repr v) es)"
proof -
  obtain fs where fs: "lp_rep lp fs" "map lp_str fs = ss" using assms(1) by (auto simp: lp_strings_def)
  have body: "sum_list (map (\<lambda>ent. length (lp_entry (batch_enc ent))) es) = length (lp_body (map batch_enc es))" for es
    by (induction es) simp_all
  have "lp_rep lp (fs @ [])" using fs(1) by simp
  moreover have "7 + length (lp_body (fs @ map batch_enc es @ [])) \<le> UINT32_MAX"
    using assms(4,5) rep_bytes [OF fs(1)] by (simp add: body)
  ultimately obtain lp' where lp': "lpBatchInsert al lp (lp_off fs) LP_BEFORE es =
      Some (Some (lp', Some (lp_off (fs @ map batch_enc (butlast es)))))" "lp_rep lp' (fs @ map batch_enc es @ [])"
    using rep_batch_insert [of lp fs "[]" es al] assms(2,3) by (auto simp: list_all_iff)
  have "lp_str (batch_enc ent) = (case ent of ESval s \<Rightarrow> s | ELval v \<Rightarrow> ll_repr v)" if "batch_ok ent" for ent
    using that lp_str_encode(2) lp_encode_int by (cases ent) (auto simp: lp_str_def)
  then have "map lp_str (fs @ map batch_enc es) = ss @ map (\<lambda>ent. case ent of ESval s \<Rightarrow> s | ELval v \<Rightarrow> ll_repr v) es"
    using fs(2) assms(3) by (auto simp: list_all_iff)
  then show ?thesis using lp' rep_end [OF fs(1)] unfolding lp_strings_def
    by (auto simp: lpBatchAppend_def intro!: exI [of _ "fs @ map batch_enc es"])
qed

theorem lpBatchAppend_strings_witness:
  "\<exists>lp'. lpBatchAppend exact_alloc lp_demo [ESval [97], ELval 5] = Some (Some lp') \<and>
     lp_strings lp' [[104, 105], [52, 50], [97], [53]]"
proof -
  have "string2ll [97] = None" by (simp add: string2ll_def)
  moreover have "ll_repr 5 = [53]" by (simp add: ll_repr_def)
  ultimately show ?thesis
    using lpBatchAppend_strings [OF lp_demo(1) _ _ lp_demo(2), of "[ESval [97], ELval 5]" exact_alloc]
    by (simp add: fits_def length_lp_entry lp_encode_def lpEncodeString_def lpEncodeIntegerGetType_def lpEncodeBacklenBytes_def)
qed

end
