(* ===== verification/Listpack_Validate.thy ===== *)
theory Listpack_Validate
  imports Listpack_Strings
begin

text \<open>
  \<^verbatim>\<open>lpValidateIntegrity\<close> on blocks from untrusted sources (\<^verbatim>\<open>RESTORE\<close>, replication, RDB files): it always
  returns without leaving the block, what it accepts parses as entries up to the
  terminator, and it accepts every listpack the library builds.
\<close>

section \<open>Validation of untrusted blocks\<close>

lemma decode_loop_total:
  "shift \<le> 28 \<Longrightarrow> (28 - shift) div 7 \<le> p \<Longrightarrow> p < length lp \<Longrightarrow> \<exists>v. lpDecodeBacklen_loop lp p val shift = Some v"
proof (induction lp p val shift rule: lpDecodeBacklen_loop.induct)
  case (1 lp p val shift)
  have r: "rd lp p = Some (lp ! p)" using 1(4) by (simp add: rd_def)
  show ?case
  proof (cases "lp ! p AND 128 = 0 \<or> shift + 7 > 28")
    case True
    then show ?thesis using r by (subst lpDecodeBacklen_loop.simps) (auto simp: Let_def)
  next
    case False
    then have p: "0 < p" "(28 - (shift + 7)) div 7 \<le> p - 1" using 1(3) by linarith+
    have "\<exists>v. lpDecodeBacklen_loop lp (p - 1) (val + unat (lp ! p AND 127) * 2 ^ shift) (shift + 7) = Some v"
      using False p 1(4) r by (intro 1(1) [of "lp ! p"]) auto
    then show ?thesis using r False p by (subst lpDecodeBacklen_loop.simps) (auto simp: Let_def)
  qed
qed

lemma decode_total: "4 \<le> p \<Longrightarrow> p < length lp \<Longrightarrow> \<exists>v. lpDecodeBacklen lp p = Some v"
  using decode_loop_total [of 0 p lp 0] by (simp add: lpDecodeBacklen_def)

lemma size_total:
  assumes "rd lp p = Some b" "p + lpCurrentEncodedSizeBytes b \<le> length lp"
  shows "\<exists>n. lpCurrentEncodedSizeUnsafe lp p = Some n"
  using assms by (auto simp: lpCurrentEncodedSizeUnsafe_def lpCurrentEncodedSizeBytes_def STR_LEN_6BIT_def
      STR_LEN_12BIT_def STR_LEN_32BIT_def rd_def rdn_def split: if_splits)

text \<open>On any block: the check returns, and a pointer it advances to lies behind the old one and inside.\<close>

lemma validate_next_total:
  assumes "n \<le> length lp"
  shows "\<exists>ok q. lpValidateNext lp (Some p) n = Some (ok, q) \<and>
    (ok \<longrightarrow> (case q of None \<Rightarrow> rd lp p = Some LP_EOF | Some q' \<Rightarrow> p < q' \<and> q' < n))"
proof (cases "p < LP_HDR_SIZE \<or> p \<ge> n")
  case True
  then show ?thesis by (auto simp: lpValidateNext_def)
next
  case False
  then obtain b where b: "rd lp p = Some b" using assms by (auto simp: rd_def)
  let ?l = "lpCurrentEncodedSizeBytes b"
  show ?thesis
  proof (cases "b = LP_EOF \<or> ?l = 0 \<or> p + ?l \<ge> n")
    case True
    then show ?thesis using b False by (auto simp: lpValidateNext_def Let_def)
  next
    case F2: False
    then obtain m where m: "lpCurrentEncodedSizeUnsafe lp p = Some m" using size_total [OF b] assms by auto
    let ?e = "m + lpEncodeBacklenBytes m"
    have e: "1 \<le> ?e" using backlen_bytes(1) [of m] by simp
    show ?thesis
    proof (cases "p + ?e \<ge> n")
      case True
      then show ?thesis using b False F2 m by (auto simp: lpValidateNext_def Let_def)
    next
      case F3: False
      have "4 \<le> p + ?e - 1" "p + ?e - 1 < length lp" using e False F3 assms by linarith+
      from decode_total [OF this] obtain v where v: "lpDecodeBacklen lp (p + ?e - 1) = Some v" by blast
      have pe: "0 < lpEncodeBacklenBytes m" using backlen_bytes(1) [of m] by linarith
      show ?thesis
        by (cases "(v + lpEncodeBacklenBytes m) mod 2 ^ 64 = ?e")
          (use b False F2 F3 m v pe in \<open>simp_all add: lpValidateNext_def Let_def not_le ex_bool_eq\<close>)
    qed
  qed
qed

lemma validate_loop_total:
  assumes "n \<le> length lp"
  shows "p < n \<Longrightarrow> \<exists>x. lpValidate_loop lp n numele cb (Some p) c = Some x"
proof (induction "n - p" arbitrary: p c rule: less_induct)
  case less
  obtain b where b: "rd lp p = Some b" using less.prems assms by (auto simp: rd_def)
  show ?case
  proof (cases "b = LP_EOF")
    case True
    then show ?thesis using b by (subst lpValidate_loop.simps) simp
  next
    case False
    obtain ok q where q: "lpValidateNext lp (Some p) n = Some (ok, q)"
      "ok \<longrightarrow> (case q of None \<Rightarrow> rd lp p = Some LP_EOF | Some q' \<Rightarrow> p < q' \<and> q' < n)"
      using validate_next_total [OF assms] by blast
    show ?thesis
    proof (cases "ok \<and> (case cb of None \<Rightarrow> True | Some f \<Rightarrow> f p numele)")
      case True
      then obtain q' where q': "q = Some q'" "p < q'" "q' < n" using q(2) b False by (auto split: option.splits)
      obtain x where "lpValidate_loop lp n numele cb (Some q') (u32add c 1) = Some x"
        using less.hyps [of q'] q' less.prems by (meson diff_less_mono2)
      then show ?thesis using b False q(1) q' True
        by (subst lpValidate_loop.simps) (auto split: option.splits)
    next
      case F2: False
      then show ?thesis using b False q(1) by (subst lpValidate_loop.simps) (auto split: option.splits)
    qed
  qed
qed

lemma validate_total:
  assumes "sz \<le> length lp"
  shows "\<exists>ok. lpValidateIntegrity lp sz deep cb = Some ok"
proof (cases "sz < LP_HDR_SIZE + 1")
  case True
  then show ?thesis by (simp add: lpValidateIntegrity_def ex_bool_eq)
next
  case False
  then have l: "sz - 1 < length lp" "6 \<le> length lp" using assms by linarith+
  then obtain m k b where g: "lpGetTotalBytes lp = Some m" "lpGetNumElements lp = Some k" "rd lp (sz - 1) = Some b"
    by (simp add: lpGetTotalBytes_def lpGetNumElements_def rdn_def rd_def)
  obtain x where "lpValidate_loop lp sz k cb (Some LP_HDR_SIZE) 0 = Some x"
    using validate_loop_total [OF assms] False by force
  then show ?thesis using g False by (cases x) (auto simp: lpValidateIntegrity_def split: option.splits)
qed


lemma decode_loop_low:
  "lpDecodeBacklen_loop lp p val shift = Some v \<Longrightarrow> 7 \<le> shift \<Longrightarrow> v = ULLONG_MAX \<or> v mod 128 = val mod 128"
proof (induction lp p val shift rule: lpDecodeBacklen_loop.induct)
  case (1 lp p val shift)
  obtain b where b: "rd lp p = Some b" using 1(2) by (subst (asm) lpDecodeBacklen_loop.simps) (auto simp: bind_eq_Some_conv)
  have "(2 :: nat) ^ shift = 128 * 2 ^ (shift - 7)" using 1(3) power_add [of "2 :: nat" 7 "shift - 7"] by simp
  then have m: "(val + unat (b AND 127) * 2 ^ shift) mod 128 = val mod 128" by (simp add: mult.left_commute)
  show ?case
  proof (cases "b AND 128 = 0 \<or> shift + 7 > 28 \<or> p = 0")
    case True
    then show ?thesis using 1(2) b m by (subst (asm) lpDecodeBacklen_loop.simps) (auto simp: Let_def split: if_splits)
  next
    case False
    then have "lpDecodeBacklen_loop lp (p - 1) (val + unat (b AND 127) * 2 ^ shift) (shift + 7) = Some v"
      using 1(2) b by (subst (asm) lpDecodeBacklen_loop.simps) (auto simp: Let_def split: if_splits)
    then show ?thesis using 1(1) [OF b refl] False m by auto
  qed
qed

lemma decode_low:
  assumes "lpDecodeBacklen lp p = Some v" "rd lp p = Some b"
  shows "v = ULLONG_MAX \<or> v mod 128 = unat b mod 128"
proof -
  have u: "unat (b AND 127) = unat b mod 128" by (simp add: byte_masks)
  show ?thesis
  proof (cases "b AND 128 = 0 \<or> p = 0")
    case True
    then show ?thesis using assms u unfolding lpDecodeBacklen_def
      by (subst (asm) lpDecodeBacklen_loop.simps) (auto simp: Let_def split: if_splits)
  next
    case False
    then have "lpDecodeBacklen_loop lp (p - 1) (unat (b AND 127)) 7 = Some v" using assms unfolding lpDecodeBacklen_def
      by (subst (asm) lpDecodeBacklen_loop.simps) (auto simp: Let_def split: if_splits)
    from decode_loop_low [OF this] show ?thesis using u by simp
  qed
qed

lemma u32add_wrap:
  assumes "x < 2 ^ 32" "u32add 5 x < 5"
  shows "x = 2 ^ 32 - 5 + u32add 5 x"
proof -
  have n: "\<not> 5 + x < 2 ^ 32" using assms(2) u32add_small [of 5 x] by auto
  then have "(5 + x) mod 2 ^ 32 = 5 + x - 2 ^ 32" using assms(1) by (subst le_mod_geq) auto
  then have "u32add 5 x = 5 + x - 2 ^ 32" by (simp only: u32add_def)
  then have "5 + x = 2 ^ 32 + u32add 5 x" using n by linarith
  then show ?thesis by simp
qed

text \<open>A 32-bit string length so large that the size of the entry wraps around is never accepted.\<close>

lemma wrapped_size_rejected:
  assumes "rd lp p = Some 0xF0" "rdn lp (p + 1) 4 = Some l" "m = u32add 5 (le_val l)" "m < 5"
    "rd lp (p + m) = Some b" "unat b mod 128 = m"
  shows False
proof -
  have l4: "length l = 4" "l = take 4 (drop (p + 1) lp)" "p + 5 \<le> length lp" using assms(2) by (auto simp: rdn_def split: if_splits)
  have lv: "le_val l < 2 ^ 32" using le_val_bound [of l] l4 by simp
  have v: "le_val l = 2 ^ 32 - 5 + m" using u32add_wrap [OF lv] assms(3,4) by simp
  have lb: "l = le_bytes 4 (2 ^ 32 - 5 + m)" using le_bytes_le_val [OF l4(1)] v by (simp only:)
  have bl: "b = l ! (m - 1)" if "1 \<le> m"
  proof -
    have "l ! (m - 1) = lp ! (p + 1 + (m - 1))" using l4 assms(4) that by (simp only: l4(2)) (subst nth_take, simp, subst nth_drop, simp_all)
    then show ?thesis using assms(5) that by (simp add: rd_def split: if_splits)
  qed
  consider "m = 0" | "m = 1" | "m = 2" | "m = 3" | "m = 4" using assms(4) by linarith
  then show False
  proof cases
    case 1
    then show ?thesis using assms(1,5,6) by simp
  next
    case 2
    have "b = l ! 0" using bl 2 by simp
    moreover have "l ! 0 = 0xFC"
      unfolding lb le_bytes_4 2 by simp
    ultimately show ?thesis using assms(6) 2 by simp
  next
    case 3
    have "b = l ! 1" using bl 3 by simp
    moreover have "l ! 1 = 0xFF"
      unfolding lb le_bytes_4 3 by simp
    ultimately show ?thesis using assms(6) 3 by simp
  next
    case 4
    have "b = l ! 2" using bl 4 by simp
    moreover have "l ! 2 = 0xFF"
      unfolding lb le_bytes_4 4 by simp
    ultimately show ?thesis using assms(6) 4 by simp
  next
    case 5
    have "b = l ! 3" using bl 5 by simp
    moreover have "l ! 3 = 0xFF"
      unfolding lb le_bytes_4 5 by simp
    ultimately show ?thesis using assms(6) 5 by simp
  qed
qed

lemma at_take: "p + n \<le> length m \<Longrightarrow> at m p (take n (drop p m))"
  using atI [of "take p m" p "take n (drop p m)" "drop n (drop p m)"] by (simp del: drop_drop)

lemma at_rd: "at m p e \<Longrightarrow> i < length e \<Longrightarrow> rd e i = rd m (p + i)"
  by (auto simp: at_def rd_def nth_append)

lemma at_rdn: "at m p e \<Longrightarrow> i + n \<le> length e \<Longrightarrow> rdn e i n = rdn m (p + i) n"
  by (auto simp: at_def rdn_def)

text \<open>The size is read from the length bytes alone.\<close>

lemma size_local:
  assumes "at m p e" "rd m p = Some b" "lpCurrentEncodedSizeBytes b \<le> length e" "b \<noteq> LP_EOF" "0 < lpCurrentEncodedSizeBytes b"
  shows "lpCurrentEncodedSizeUnsafe e 0 = lpCurrentEncodedSizeUnsafe m p"
proof -
  have "0 < length e" using assms(3,5) by linarith
  then have r0: "rd e 0 = Some b" using at_rd [OF assms(1), of 0] assms(2) by simp
  have r1: "2 \<le> length e \<Longrightarrow> rd e (Suc 0) = rd m (Suc p)" using at_rd [OF assms(1), of 1] by simp
  have r4: "5 \<le> length e \<Longrightarrow> rdn e (Suc 0) 4 = rdn m (Suc p) 4" using at_rdn [OF assms(1), of 1 4] by simp
  show ?thesis using assms(2,3) r0 r1 r4
    by (simp add: lpCurrentEncodedSizeUnsafe_def lpCurrentEncodedSizeBytes_def STR_LEN_6BIT_def STR_LEN_12BIT_def
        STR_LEN_32BIT_def split: if_splits)
qed

lemma size_ge_lenbytes:
  assumes "rd lp p = Some b" "lpCurrentEncodedSizeUnsafe lp p = Some m" "b \<noteq> LP_EOF"
  shows "lpCurrentEncodedSizeBytes b \<le> m \<or> b = 0xF0 \<and> m < 5"
proof (cases b rule: byte_ranges)
  case 5
  then have "b = 0xF0" by (simp add: word_unat_eq_iff)
  then show ?thesis by (simp add: lpCurrentEncodedSizeBytes_def IS_tests) linarith
qed (use assms EOF_iff [of b] in \<open>auto simp: lpCurrentEncodedSizeUnsafe_def lpCurrentEncodedSizeBytes_def IS_tests STR_LEN_12BIT_def bind_eq_Some_conv\<close>)

lemma validate_next_sound:
  assumes "lpValidateNext lp (Some p) n = Some (True, Some q)" "n \<le> length lp"
  shows "\<exists>e b. lp_enc e \<and> length b = lpEncodeBacklenBytes (length e) \<and> at lp p (e @ b) \<and> q = p + length (e @ b) \<and> q < n"
proof -
  have p: "6 \<le> p" "p < n" using assms(1) by (auto simp: lpValidateNext_def split: if_splits)
  then obtain b where b: "rd lp p = Some b" using assms(2) by (auto simp: rd_def)
  let ?l = "lpCurrentEncodedSizeBytes b"
  have l: "b \<noteq> LP_EOF" "0 < ?l" "p + ?l < n" using assms(1) p b by (auto simp: lpValidateNext_def Let_def split: if_splits)
  then obtain m where m: "lpCurrentEncodedSizeUnsafe lp p = Some m" using size_total [OF b] assms(2) by auto
  let ?k = "lpEncodeBacklenBytes m"
  have q: "q = p + (m + ?k)" "q < n" using assms(1) p b l m by (auto simp: lpValidateNext_def Let_def bind_eq_Some_conv split: if_splits)
  obtain v where v: "lpDecodeBacklen lp (p + (m + ?k) - 1) = Some v" "(v + ?k) mod 2 ^ 64 = m + ?k"
    using assms(1) p b l m q by (auto simp: lpValidateNext_def Let_def bind_eq_Some_conv split: if_splits)
  have lm: "?l \<le> m"
  proof (rule ccontr)
    assume "\<not> ?l \<le> m"
    then have w: "b = 0xF0" "m < 5" using size_ge_lenbytes [OF b m l(1)] by auto
    then have k: "?k = 1" by (simp add: lpEncodeBacklenBytes_def)
    have "v \<noteq> ULLONG_MAX" using v(2) k by auto
    obtain c where c: "rd lp (p + m) = Some c" using q k assms(2) by (auto simp: rd_def)
    have vc: "v mod 128 = unat c mod 128"
      using decode_low [OF v(1), of c] c k \<open>v \<noteq> ULLONG_MAX\<close> by auto
    have "v mod 128 = m"
    proof -
      have "(v + 1) mod 2 ^ 64 mod 128 = (m + 1) mod 128" using v(2) k by simp
      moreover have "(v + 1) mod 2 ^ 64 mod 128 = (v + 1) mod 128" by (rule mod_mod_cancel) simp
      ultimately have "(v + 1) mod 128 = (m + 1) mod 128" by (simp only:)
      then have "(v mod 128 + 1) mod 128 = m + 1" using w(2) by (simp add: mod_simps)
      then show ?thesis using mod_less_divisor [of 128 v] by (cases "v mod 128 = 127") auto
    qed
    moreover obtain x where "rdn lp (p + 1) 4 = Some x" "m = u32add 5 (le_val x)"
      using m w(1) b by (auto simp: lpCurrentEncodedSizeUnsafe_def IS_tests STR_LEN_32BIT_def bind_eq_Some_conv)
    ultimately show False using wrapped_size_rejected [of lp p x m c] b w c vc by simp
  qed
  let ?e = "take m (drop p lp)" and ?b = "take ?k (drop (p + m) lp)"
  have len: "length ?e = m" "length ?b = ?k" using q assms(2) by simp_all
  have ate: "at lp p ?e" using q assms(2) by (intro at_take) simp
  have "lpCurrentEncodedSizeUnsafe ?e 0 = Some m" using size_local [OF ate b] len lm l m by simp
  moreover have "hd ?e = b" using b lm l len(1) q assms(2) by (simp add: rd_def hd_conv_nth split: if_splits)
  ultimately have "lp_enc ?e" using len lm l by (auto simp: lp_enc_def)
  moreover have "?e @ ?b = take (m + ?k) (drop p lp)" using take_add [of m ?k "drop p lp"] by (simp add: add.commute)
  moreover have "at lp p (take (m + ?k) (drop p lp))" using q assms(2) by (intro at_take) simp
  ultimately show ?thesis using len q by (intro exI [of _ ?e] exI [of _ ?b]) simp
qed


lemma at_join: "at m p e \<Longrightarrow> at m (p + length e) f \<Longrightarrow> at m p (e @ f)"
proof -
  assume "at m p e" "at m (p + length e) f"
  then obtain a b where m: "m = a @ e @ b" "length a = p" unfolding at_def by blast
  obtain a' b' where m': "m = a' @ f @ b'" "length a' = p + length e" using \<open>at m (p + length e) f\<close> unfolding at_def by blast
  have "(a @ e) @ b = a' @ (f @ b')" "length (a @ e) = length a'" using m m' by simp_all
  then have "a' = a @ e" by (metis append_eq_append_conv)
  then show ?thesis using m(2) m'(1) atI [of a p "e @ f" b'] by simp
qed

definition lp_chunks :: "(bytes \<times> bytes) list \<Rightarrow> bytes" where
  "lp_chunks ebs = concat (map (\<lambda>(e, b). e @ b) ebs)"

definition chunks_ok :: "(bytes \<times> bytes) list \<Rightarrow> bool" where
  "chunks_ok ebs \<longleftrightarrow> (\<forall>(e, b) \<in> set ebs. lp_enc e \<and> length b = lpEncodeBacklenBytes (length e))"

lemma validate_loop_sound:
  assumes "n \<le> length lp"
  shows "lpValidate_loop lp n num cb (Some p) c = Some (Some (r, c')) \<Longrightarrow> p < n \<Longrightarrow> c + (n - p) < 2 ^ 32 \<Longrightarrow>
    \<exists>ebs q. r = Some q \<and> q < n \<and> at lp p (lp_chunks ebs) \<and> q = p + length (lp_chunks ebs) \<and> rd lp q = Some LP_EOF \<and>
      c' = c + length ebs \<and> chunks_ok ebs"
proof (induction "n - p" arbitrary: p c rule: less_induct)
  case less
  obtain b where b: "rd lp p = Some b" using less.prems(2) assms by (auto simp: rd_def)
  show ?case
  proof (cases "b = LP_EOF")
    case True
    then have "r = Some p" "c' = c" using less.prems(1) b by (subst (asm) lpValidate_loop.simps, simp)+
    moreover have "at lp p []" using less.prems(2) assms at_take [of p 0 lp] by simp
    ultimately show ?thesis using True b less.prems(2)
      by (intro exI [of _ "[]"] exI [of _ p]) (simp add: lp_chunks_def chunks_ok_def)
  next
    case False
    obtain q where q: "lpValidateNext lp (Some p) n = Some (True, q)"
      "lpValidate_loop lp n num cb q (u32add c 1) = Some (Some (r, c'))"
      using less.prems(1) b False
      by (subst (asm) lpValidate_loop.simps) (auto simp: bind_eq_Some_conv split: if_splits)
    obtain q' where q': "q = Some q'" using validate_next_total [OF assms, of p] q(1) b False by (cases q) auto
    obtain e bl where e: "lp_enc e" "length bl = lpEncodeBacklenBytes (length e)" "at lp p (e @ bl)"
      "q' = p + length (e @ bl)" "q' < n" using validate_next_sound [of lp p n q'] q(1) q' assms by blast
    have pq: "p < q'" using e(1,4) by (auto simp: lp_enc_def)
    have c: "u32add c 1 = c + 1" "c + 1 + (n - q') < 2 ^ 32" using less.prems pq e(5) by (simp_all add: u32add_def)
    have lt: "n - q' < n - p" using pq e(5) by linarith
    have loop: "lpValidate_loop lp n num cb (Some q') (c + 1) = Some (Some (r, c'))" using q(2) q' c(1) by simp
    obtain ebs t where t: "r = Some t" "t < n" "at lp q' (lp_chunks ebs)" "t = q' + length (lp_chunks ebs)"
      "rd lp t = Some LP_EOF" "c' = c + 1 + length ebs" "chunks_ok ebs"
      using less.hyps [OF lt loop e(5) c(2)] by blast
    have "at lp p ((e @ bl) @ lp_chunks ebs)" using at_join [OF e(3)] t(3) e(4) by simp
    then show ?thesis using t e by (intro exI [of _ "(e, bl) # ebs"] exI [of _ t]) (simp add: lp_chunks_def chunks_ok_def)
  qed
qed

lemma validate_sound:
  assumes "lpValidateIntegrity lp (length lp) True cb = Some True"
  shows "\<exists>ebs k. lp = hdr (length lp) k @ lp_chunks ebs @ [LP_EOF] \<and> chunks_ok ebs \<and>
    (k = LP_HDR_NUMELE_UNKNOWN \<or> k = length ebs)"
proof -
  let ?n = "length lp"
  have n7: "7 \<le> ?n" using assms by (auto simp: lpValidateIntegrity_def split: if_splits)
  then obtain k x where k: "lpGetTotalBytes lp = Some ?n" "lpGetNumElements lp = Some k"
    "lpValidate_loop lp ?n k cb (Some LP_HDR_SIZE) 0 = Some x"
    and res: "(case x of None \<Rightarrow> Some False | Some (p, count) \<Rightarrow>
        (if p \<noteq> Some (?n - Suc 0) then Some False
         else if k \<noteq> LP_HDR_NUMELE_UNKNOWN \<and> k \<noteq> count then Some False else Some True)) = Some True"
    using assms by (auto simp: lpValidateIntegrity_def bind_eq_Some_conv split: if_splits)
  obtain r c where x: "x = Some (r, c)" "r = Some (?n - 1)" "k = LP_HDR_NUMELE_UNKNOWN \<or> k = c"
    using res by (auto split: option.splits if_splits)
  have v: "le_val (take 4 lp) = ?n" "le_val (take 2 (drop 4 lp)) = k"
    using k(1,2) n7 by (auto simp: lpGetTotalBytes_def lpGetNumElements_def rdn_def)
  have n32: "?n < 2 ^ 32" using le_val_bound [of "take 4 lp"] v(1) n7 by simp
  obtain ebs where ebs: "at lp LP_HDR_SIZE (lp_chunks ebs)" "?n - 1 = LP_HDR_SIZE + length (lp_chunks ebs)"
      "rd lp (?n - 1) = Some LP_EOF" "c = length ebs" "chunks_ok ebs"
  proof -
    have "LP_HDR_SIZE < ?n" "0 + (?n - LP_HDR_SIZE) < 2 ^ 32" using n7 n32 by linarith+
    from validate_loop_sound [OF le_refl k(3) [unfolded x(1)] this] show ?thesis using that x(2) by auto
  qed
  have h: "take 6 lp = hdr ?n k"
  proof -
    have "take 6 lp = take 4 lp @ take 2 (drop 4 lp)" using take_add [of 4 2 lp] by simp
    then show ?thesis using le_bytes_le_val [of "take 4 lp" 4] le_bytes_le_val [of "take 2 (drop 4 lp)" 2] v n7
      by (simp add: hdr_def)
  qed
  obtain a z where az: "lp = a @ lp_chunks ebs @ z" "length a = 6" using ebs(1) by (auto simp: at_def)
  have "length z = 1" using az ebs(2) n7 by (metis add.commute add_diff_cancel_left' add_diff_inverse_nat append.assoc
      diff_diff_left length_append less_one linorder_not_le not_less_zero le_trans one_le_numeral)
  then obtain w where w: "z = [w]" by (cases z) auto
  have "w = LP_EOF" using ebs(3) az w by (simp add: rd_def nth_append)
  then show ?thesis using az w h x(3) ebs(4,5) by (intro exI [of _ ebs] exI [of _ k]) auto
qed

lemma rep_validate_loop:
  assumes "\<forall>q. case cb of None \<Rightarrow> True | Some f \<Rightarrow> f q num"
  shows "lp_rep lp (A @ B) \<Longrightarrow> n = 7 + length (lp_body (A @ B)) \<Longrightarrow> c + length B < 2 ^ 32 \<Longrightarrow>
    lpValidate_loop lp n num cb (Some (lp_off A)) c = Some (Some (Some (lp_off (A @ B)), c + length B))"
proof (induction B arbitrary: A c)
  case Nil
  then show ?case using rep_eof [of lp A] by (subst lpValidate_loop.simps) simp
next
  case (Cons e B)
  obtain b where b: "rd lp (lp_off A) = Some b" "b \<noteq> LP_EOF" using rep_rd [OF Cons.prems(1)] by blast
  have "lpValidate_loop lp n num cb (Some (lp_off (A @ [e]))) (c + 1) = Some (Some (Some (lp_off ((A @ [e]) @ B)), c + 1 + length B))"
    using Cons.prems by (intro Cons.IH) simp_all
  moreover have "lpValidateNext lp (Some (lp_off A)) n = Some (True, Some (lp_off (A @ [e])))"
    using rep_validate [OF Cons.prems(1)] Cons.prems(2) by simp
  ultimately show ?case using b Cons.prems(3) assms by (subst lpValidate_loop.simps) (auto split: option.splits)
qed

lemma validate_complete:
  assumes "lp_rep lp es" "\<forall>q num. case cb of None \<Rightarrow> True | Some f \<Rightarrow> f q num"
  shows "lpValidateIntegrity lp (7 + length (lp_body es)) deep cb = Some True"
proof -
  obtain k where k: "lpGetNumElements lp = Some k" "k = LP_HDR_NUMELE_UNKNOWN \<or> k = length es \<and> k < LP_HDR_NUMELE_UNKNOWN"
    using rep_num [OF assms(1)] by blast
  have "lpValidate_loop lp (7 + length (lp_body es)) k cb (Some (lp_off [])) 0 = Some (Some (Some (lp_off ([] @ es)), 0 + length es))"
    using assms rep_count_lt [OF assms(1)] by (intro rep_validate_loop) simp_all
  moreover have "rd lp (7 + length (lp_body es) - 1) = Some LP_EOF" using rep_eof [OF assms(1)] by (simp add: lp_off_def)
  ultimately show ?thesis using k rep_total [OF assms(1)] by (auto simp: lpValidateIntegrity_def lp_off_def)
qed

section \<open>Properties\<close>

text \<open>
  C6. \<^verbatim>\<open>lpValidateIntegrity\<close> is safe on arbitrary bytes: with a size that lies within the block it
  ends with a verdict, whatever the bytes are, with and without the deep check and an
  entry callback: no read leaves the block, and the walk over the entries ends.
\<close>

theorem lpValidateIntegrity_safe:
  assumes "sz \<le> length lp"
  shows "\<exists>ok. lpValidateIntegrity lp sz deep entry_cb = Some ok"
  using assms by (rule validate_total)

theorem lpValidateIntegrity_safe_witness:
  "\<exists>ok. lpValidateIntegrity [11, 0, 0, 0, 1, 0, 0xF0, 0xFB, 0xFF, 0xFF, 0xFF] 11 True None = Some ok"
  using lpValidateIntegrity_safe [of 11 "[11, 0, 0, 0, 1, 0, 0xF0, 0xFB, 0xFF, 0xFF, 0xFF]" True None] by simp

text \<open>
  C7. What the deep check accepts is well formed: the block is exactly a header with its own size
  and a count, a sequence of entries whose encoding bytes describe their own length and
  that are followed by a back length of the right width, and the terminator; the count is
  the number of entries or the marker for unknown. In particular a string length so large
  that the 32-bit entry size wraps around is rejected.
\<close>

theorem lpValidateIntegrity_sound:
  assumes "lpValidateIntegrity lp (length lp) True entry_cb = Some True"
  shows "\<exists>ebs k. lp = hdr (length lp) k @ lp_chunks ebs @ [LP_EOF] \<and> chunks_ok ebs \<and>
    (k = LP_HDR_NUMELE_UNKNOWN \<or> k = length ebs)"
  using assms by (rule validate_sound)

theorem lpValidateIntegrity_sound_witness:
  "\<exists>ebs k. lp_demo = hdr (length lp_demo) k @ lp_chunks ebs @ [LP_EOF] \<and> chunks_ok ebs \<and>
    (k = LP_HDR_NUMELE_UNKNOWN \<or> k = length ebs)"
proof -
  obtain es where es: "lp_rep lp_demo es" using lp_demo(1) by (auto simp: lp_strings_def)
  then have "7 + length (lp_body es) = length lp_demo" using rep_bytes [OF es] lp_demo(2) by (simp add: lp_demo_def)
  then have "lpValidateIntegrity lp_demo (length lp_demo) True None = Some True"
    using validate_complete [OF es, of None True] by simp
  from lpValidateIntegrity_sound [OF this] show ?thesis .
qed

text \<open>
  C31. Every listpack the library builds passes the check, shallow or deep, with the size its header
  states: validation rejects no block that represents a list.
\<close>

theorem lpValidateIntegrity_complete:
  assumes "lp_strings lp ss" "lpBytes lp = Some n"
  shows "lpValidateIntegrity lp n deep None = Some True"
proof -
  obtain es where es: "lp_rep lp es" using assms(1) by (auto simp: lp_strings_def)
  then show ?thesis using validate_complete [OF es, of None deep] rep_bytes [OF es] assms(2) by simp
qed

theorem lpValidateIntegrity_complete_witness: "lpValidateIntegrity lp_demo 13 True None = Some True"
  by (rule lpValidateIntegrity_complete [OF lp_demo])

end
