(* ===== verification/Notify.thy ===== *)
theory Notify
  imports Util
begin

text \<open>
  \<^verbatim>\<open>redis-stable/src/notify.c\<close>: the classes of keyspace events as flags and as the letters of
  the \<^verbatim>\<open>notify-keyspace-events\<close> option, and the messages one event publishes. A flag set is the C
  \<^verbatim>\<open>int\<close> it is, as a 32 bit word; a C string is the list of its characters before the NUL. The calls that
  leave the file (to the modules and to Pub/Sub) are recorded, in order, as a list of effects.
\<close>

section \<open>Definitions\<close>

type_synonym flags = "32 word"

definition NOTIFY_KEYSPACE :: flags where "NOTIFY_KEYSPACE = push_bit 0 1"
definition NOTIFY_KEYEVENT :: flags where "NOTIFY_KEYEVENT = push_bit 1 1"
definition NOTIFY_GENERIC :: flags where "NOTIFY_GENERIC = push_bit 2 1"
definition NOTIFY_STRING :: flags where "NOTIFY_STRING = push_bit 3 1"
definition NOTIFY_LIST :: flags where "NOTIFY_LIST = push_bit 4 1"
definition NOTIFY_SET :: flags where "NOTIFY_SET = push_bit 5 1"
definition NOTIFY_HASH :: flags where "NOTIFY_HASH = push_bit 6 1"
definition NOTIFY_ZSET :: flags where "NOTIFY_ZSET = push_bit 7 1"
definition NOTIFY_EXPIRED :: flags where "NOTIFY_EXPIRED = push_bit 8 1"
definition NOTIFY_EVICTED :: flags where "NOTIFY_EVICTED = push_bit 9 1"
definition NOTIFY_STREAM :: flags where "NOTIFY_STREAM = push_bit 10 1"
definition NOTIFY_KEY_MISS :: flags where "NOTIFY_KEY_MISS = push_bit 11 1"
definition NOTIFY_MODULE :: flags where "NOTIFY_MODULE = push_bit 13 1"
definition NOTIFY_NEW :: flags where "NOTIFY_NEW = push_bit 14 1"
definition NOTIFY_OVERWRITTEN :: flags where "NOTIFY_OVERWRITTEN = push_bit 15 1"
definition NOTIFY_TYPE_CHANGED :: flags where "NOTIFY_TYPE_CHANGED = push_bit 16 1"

definition NOTIFY_ALL :: flags where
  "NOTIFY_ALL = NOTIFY_GENERIC OR NOTIFY_STRING OR NOTIFY_LIST OR NOTIFY_SET OR NOTIFY_HASH OR NOTIFY_ZSET OR
     NOTIFY_EXPIRED OR NOTIFY_EVICTED OR NOTIFY_STREAM OR NOTIFY_MODULE"

definition notify_class :: "char \<Rightarrow> flags option" where
  "notify_class c =
    (if c = CHR ''A'' then Some NOTIFY_ALL
     else if c = CHR ''g'' then Some NOTIFY_GENERIC
     else if c = CHR ''$'' then Some NOTIFY_STRING
     else if c = CHR ''l'' then Some NOTIFY_LIST
     else if c = CHR ''s'' then Some NOTIFY_SET
     else if c = CHR ''h'' then Some NOTIFY_HASH
     else if c = CHR ''z'' then Some NOTIFY_ZSET
     else if c = CHR ''x'' then Some NOTIFY_EXPIRED
     else if c = CHR ''e'' then Some NOTIFY_EVICTED
     else if c = CHR ''K'' then Some NOTIFY_KEYSPACE
     else if c = CHR ''E'' then Some NOTIFY_KEYEVENT
     else if c = CHR ''t'' then Some NOTIFY_STREAM
     else if c = CHR ''m'' then Some NOTIFY_KEY_MISS
     else if c = CHR ''d'' then Some NOTIFY_MODULE
     else if c = CHR ''n'' then Some NOTIFY_NEW
     else if c = CHR ''o'' then Some NOTIFY_OVERWRITTEN
     else if c = CHR ''c'' then Some NOTIFY_TYPE_CHANGED
     else None)"

text \<open>The result \<^verbatim>\<open>-1\<close> for an unknown letter is \<^term>\<open>None\<close>.\<close>

fun keyspaceEvents_loop :: "flags \<Rightarrow> string \<Rightarrow> flags option" where
  "keyspaceEvents_loop flags [] = Some flags"
| "keyspaceEvents_loop flags (c # p) =
    (case notify_class c of None \<Rightarrow> None | Some f \<Rightarrow> keyspaceEvents_loop (flags OR f) p)"

definition keyspaceEventsStringToFlags :: "string \<Rightarrow> flags option" where
  "keyspaceEventsStringToFlags classes = keyspaceEvents_loop 0 classes"

definition cat_flag :: "flags \<Rightarrow> flags \<Rightarrow> string \<Rightarrow> string \<Rightarrow> string" where
  "cat_flag flags f s res = (if flags AND f \<noteq> 0 then res @ s else res)"

definition keyspaceEventsFlagsToString :: "flags \<Rightarrow> string" where
  "keyspaceEventsFlagsToString flags =
    (let res = [];
         res = (if flags AND NOTIFY_ALL = NOTIFY_ALL then res @ ''A''
           else
             let res = cat_flag flags NOTIFY_GENERIC ''g'' res;
                 res = cat_flag flags NOTIFY_STRING ''$'' res;
                 res = cat_flag flags NOTIFY_LIST ''l'' res;
                 res = cat_flag flags NOTIFY_SET ''s'' res;
                 res = cat_flag flags NOTIFY_HASH ''h'' res;
                 res = cat_flag flags NOTIFY_ZSET ''z'' res;
                 res = cat_flag flags NOTIFY_EXPIRED ''x'' res;
                 res = cat_flag flags NOTIFY_EVICTED ''e'' res;
                 res = cat_flag flags NOTIFY_STREAM ''t'' res;
                 res = cat_flag flags NOTIFY_MODULE ''d'' res;
                 res = cat_flag flags NOTIFY_NEW ''n'' res;
                 res = cat_flag flags NOTIFY_OVERWRITTEN ''o'' res
             in cat_flag flags NOTIFY_TYPE_CHANGED ''c'' res);
         res = cat_flag flags NOTIFY_KEYSPACE ''K'' res;
         res = cat_flag flags NOTIFY_KEYEVENT ''E'' res
     in cat_flag flags NOTIFY_KEY_MISS ''m'' res)"

datatype notification =
    ModuleNotify flags bytes bytes int
  | Publish bytes bytes

text \<open>
  \<open>buf\<close> is the local buffer of 24 bytes, with what it happens to hold. \<open>len\<close> is \<^verbatim>\<open>-1\<close> until the
  number of the database has been printed into it.
\<close>

definition notifyKeyspaceEvent ::
  "bytes \<Rightarrow> flags \<Rightarrow> flags \<Rightarrow> bytes \<Rightarrow> bytes \<Rightarrow> int \<Rightarrow> notification list option" where
  "notifyKeyspaceEvent buf notify_keyspace_events type event key dbid =
    (let out = [ModuleNotify type event key dbid];
         len = - 1
     in if notify_keyspace_events AND type = 0 then Some out
        else do {
          (buf, len, out) \<leftarrow>
            (if notify_keyspace_events AND NOTIFY_KEYSPACE \<noteq> 0 then do {
               let chan = ascii ''__keyspace@'';
               (buf, len) \<leftarrow> ll2string buf 0 24 dbid;
               b \<leftarrow> rdn buf 0 len;
               let chan = chan @ b @ ascii ''__:'' @ key;
               Some (buf, int len, out @ [Publish chan event])
             } else Some (buf, len, out));
          (if notify_keyspace_events AND NOTIFY_KEYEVENT \<noteq> 0 then do {
             let chan = ascii ''__keyevent@'';
             (buf, len) \<leftarrow> (if len = - 1 then do {
                 (buf, l) \<leftarrow> ll2string buf 0 24 dbid; Some (buf, int l) }
               else Some (buf, len));
             b \<leftarrow> rdn buf 0 (nat len);
             let chan = chan @ b @ ascii ''__:'' @ event;
             Some (out @ [Publish chan key])
           } else Some out)
        })"

section \<open>Letters and flags\<close>

lemmas notify_flags =
  NOTIFY_KEYSPACE_def NOTIFY_KEYEVENT_def NOTIFY_GENERIC_def NOTIFY_STRING_def NOTIFY_LIST_def NOTIFY_SET_def
  NOTIFY_HASH_def NOTIFY_ZSET_def NOTIFY_EXPIRED_def NOTIFY_EVICTED_def NOTIFY_STREAM_def NOTIFY_KEY_MISS_def
  NOTIFY_MODULE_def NOTIFY_NEW_def NOTIFY_OVERWRITTEN_def NOTIFY_TYPE_CHANGED_def

lemma loop_append: "keyspaceEvents_loop f (s @ t) =
  (case keyspaceEvents_loop f s of None \<Rightarrow> None | Some f \<Rightarrow> keyspaceEvents_loop f t)"
  by (induction s arbitrary: f) (auto split: option.splits)

lemma loop_cat:
  assumes "keyspaceEvents_loop 0 res = Some r" "notify_class c = Some (push_bit k 1)" "k < 32"
  shows "keyspaceEvents_loop 0 (cat_flag flags (push_bit k 1) [c] res) = Some (r OR (flags AND push_bit k 1))"
proof (cases "flags AND push_bit k 1 = 0")
  case False
  then have "bit flags k" by (simp only: bit_iff_and_push_bit_not_eq_0 not_False_eq_True)
  then have "flags AND push_bit k 1 = push_bit k 1"
    by (intro bit_eqI) (auto simp: bit_and_iff bit_push_bit_iff bit_1_iff simp del: push_bit_of_1)
  then show ?thesis using assms False by (simp add: cat_flag_def loop_append)
qed (simp add: cat_flag_def assms)

lemma or_and_distrib: "(f AND a) OR (f AND b) = f AND (a OR b :: flags)"
  by (simp add: bit.conj_disj_distrib)

text \<open>The flags that have a letter.\<close>

definition notify_known :: flags where
  "notify_known = NOTIFY_ALL OR NOTIFY_NEW OR NOTIFY_OVERWRITTEN OR NOTIFY_TYPE_CHANGED OR NOTIFY_KEYSPACE OR
     NOTIFY_KEYEVENT OR NOTIFY_KEY_MISS"

lemma cat_flag_class:
  assumes "keyspaceEvents_loop 0 res = Some (flags AND r)"
  shows
  "keyspaceEvents_loop 0 (cat_flag flags NOTIFY_GENERIC ''g'' res) = Some (flags AND (r OR NOTIFY_GENERIC))"
  "keyspaceEvents_loop 0 (cat_flag flags NOTIFY_STRING ''$'' res) = Some (flags AND (r OR NOTIFY_STRING))"
  "keyspaceEvents_loop 0 (cat_flag flags NOTIFY_LIST ''l'' res) = Some (flags AND (r OR NOTIFY_LIST))"
  "keyspaceEvents_loop 0 (cat_flag flags NOTIFY_SET ''s'' res) = Some (flags AND (r OR NOTIFY_SET))"
  "keyspaceEvents_loop 0 (cat_flag flags NOTIFY_HASH ''h'' res) = Some (flags AND (r OR NOTIFY_HASH))"
  "keyspaceEvents_loop 0 (cat_flag flags NOTIFY_ZSET ''z'' res) = Some (flags AND (r OR NOTIFY_ZSET))"
  "keyspaceEvents_loop 0 (cat_flag flags NOTIFY_EXPIRED ''x'' res) = Some (flags AND (r OR NOTIFY_EXPIRED))"
  "keyspaceEvents_loop 0 (cat_flag flags NOTIFY_EVICTED ''e'' res) = Some (flags AND (r OR NOTIFY_EVICTED))"
  "keyspaceEvents_loop 0 (cat_flag flags NOTIFY_STREAM ''t'' res) = Some (flags AND (r OR NOTIFY_STREAM))"
  "keyspaceEvents_loop 0 (cat_flag flags NOTIFY_MODULE ''d'' res) = Some (flags AND (r OR NOTIFY_MODULE))"
  "keyspaceEvents_loop 0 (cat_flag flags NOTIFY_NEW ''n'' res) = Some (flags AND (r OR NOTIFY_NEW))"
  "keyspaceEvents_loop 0 (cat_flag flags NOTIFY_OVERWRITTEN ''o'' res) = Some (flags AND (r OR NOTIFY_OVERWRITTEN))"
  "keyspaceEvents_loop 0 (cat_flag flags NOTIFY_TYPE_CHANGED ''c'' res) =
     Some (flags AND (r OR NOTIFY_TYPE_CHANGED))"
  "keyspaceEvents_loop 0 (cat_flag flags NOTIFY_KEYSPACE ''K'' res) = Some (flags AND (r OR NOTIFY_KEYSPACE))"
  "keyspaceEvents_loop 0 (cat_flag flags NOTIFY_KEYEVENT ''E'' res) = Some (flags AND (r OR NOTIFY_KEYEVENT))"
  "keyspaceEvents_loop 0 (cat_flag flags NOTIFY_KEY_MISS ''m'' res) = Some (flags AND (r OR NOTIFY_KEY_MISS))"
  unfolding notify_flags
  by (subst loop_cat [OF assms], simp add: notify_class_def notify_flags, simp, simp only: or_and_distrib)+

text \<open>
  C36. For every value of the flags, printing the classes and reading them back gives the flags that have a
  letter, except that \<^verbatim>\<open>n\<close>, \<^verbatim>\<open>o\<close> and \<^verbatim>\<open>c\<close> are lost whenever all the classes of \<^verbatim>\<open>A\<close> are set: the letters are
  printed in the branch \<^verbatim>\<open>A\<close> excludes although \<^verbatim>\<open>A\<close> does not stand for them.
\<close>

theorem keyspaceEvents_roundtrip:
  "keyspaceEventsStringToFlags (keyspaceEventsFlagsToString f) =
    Some (f AND (if f AND NOTIFY_ALL = NOTIFY_ALL
      then notify_known AND NOT (NOTIFY_NEW OR NOTIFY_OVERWRITTEN OR NOTIFY_TYPE_CHANGED)
      else notify_known))"
proof (cases "f AND NOTIFY_ALL = NOTIFY_ALL")
  case True
  have "keyspaceEvents_loop 0 ''A'' = Some (f AND NOTIFY_ALL)"
    by (simp add: True notify_class_def)
  note c = this [THEN cat_flag_class(14), THEN cat_flag_class(15), THEN cat_flag_class(16)]
  have "NOTIFY_ALL OR NOTIFY_KEYSPACE OR NOTIFY_KEYEVENT OR NOTIFY_KEY_MISS =
    notify_known AND NOT (NOTIFY_NEW OR NOTIFY_OVERWRITTEN OR NOTIFY_TYPE_CHANGED)"
    by (simp add: notify_known_def NOTIFY_ALL_def notify_flags)
  then show ?thesis using True c
    by (simp add: keyspaceEventsStringToFlags_def keyspaceEventsFlagsToString_def Let_def or.assoc)
next
  case False
  have "keyspaceEvents_loop 0 '''' = Some (f AND 0)" by simp
  note c = this [THEN cat_flag_class(1), THEN cat_flag_class(2), THEN cat_flag_class(3), THEN cat_flag_class(4),
    THEN cat_flag_class(5), THEN cat_flag_class(6), THEN cat_flag_class(7), THEN cat_flag_class(8),
    THEN cat_flag_class(9), THEN cat_flag_class(10), THEN cat_flag_class(11), THEN cat_flag_class(12),
    THEN cat_flag_class(13), THEN cat_flag_class(14), THEN cat_flag_class(15), THEN cat_flag_class(16)]
  then show ?thesis using False
    by (simp add: keyspaceEventsStringToFlags_def keyspaceEventsFlagsToString_def Let_def or.assoc
        notify_known_def NOTIFY_ALL_def)
qed

section \<open>Publication\<close>

lemma ll2string_rdn:
  assumes "int64 z" "length buf = 24"
  shows "\<exists>m. ll2string buf 0 24 z = Some (m, length (ll_repr z)) \<and>
    rdn m 0 (length (ll_repr z)) = Some (ll_repr z) \<and> length m = 24"
  using assms length_ll_repr [OF assms(1)] ll2string_spec [OF assms(1), of 0 24 buf]
  by (simp add: rdn_def)

text \<open>
  C37. An event is published to the channels named after the key and after the event, in this order, each exactly
  when its class \<^verbatim>\<open>K\<close> or \<^verbatim>\<open>E\<close> is on and the class of the event is on; the number of the database is
  printed in full in the 24 byte buffer, whatever the buffer held, and the modules are always told first.
\<close>

theorem notifyKeyspaceEvent_channels:
  assumes "fits 32 dbid" "length buf = 24"
  shows "notifyKeyspaceEvent buf on type event key dbid =
    Some (ModuleNotify type event key dbid #
      (if on AND type \<noteq> 0 \<and> bit on 0 then [Publish (ascii ''__keyspace@'' @ ll_repr dbid @ ascii ''__:'' @ key) event] else []) @
      (if on AND type \<noteq> 0 \<and> bit on 1 then [Publish (ascii ''__keyevent@'' @ ll_repr dbid @ ascii ''__:'' @ event) key] else []))"
proof -
  have z: "int64 dbid" using assms(1) by (rule fits_mono) simp
  have b: "on AND NOTIFY_KEYSPACE = 0 \<longleftrightarrow> \<not> bit on 0" "on AND NOTIFY_KEYEVENT = 0 \<longleftrightarrow> \<not> bit on 1"
    by (simp_all only: notify_flags bit_iff_and_push_bit_not_eq_0 not_not)
  obtain m where m: "ll2string buf 0 24 dbid = Some (m, length (ll_repr dbid))"
    "rdn m 0 (length (ll_repr dbid)) = Some (ll_repr dbid)" using ll2string_rdn [OF z assms(2)] by blast
  show ?thesis using m by (simp add: notifyKeyspaceEvent_def b Let_def)
qed

theorem notifyKeyspaceEvent_channels_witness:
  "notifyKeyspaceEvent (replicate 24 0xAA) 7 4 (ascii ''del'') (ascii ''k'') 12 =
    Some [ModuleNotify 4 (ascii ''del'') (ascii ''k'') 12,
      Publish (ascii ''__keyspace@12__:k'') (ascii ''del''), Publish (ascii ''__keyevent@12__:del'') (ascii ''k'')]"
proof -
  have "ll_repr 12 = ascii ''12''" by (simp add: ll_repr_def dec_step ascii_def)
  moreover have "bit (7 :: flags) 0" "bit (7 :: flags) 1" by simp_all
  ultimately show ?thesis
    using notifyKeyspaceEvent_channels [of 12 "replicate 24 0xAA" 7 4 "ascii ''del''" "ascii ''k''"]
    by (simp add: fits_def ascii_def)
qed

end
