(* ===== verification/Rand.thy ===== *)
theory Rand
  imports Prelude
begin

text \<open>
  \<^verbatim>\<open>redis-stable/src/rand.c\<close>: the pseudo random generator that scripts use, a copy of \<^verbatim>\<open>lrand48\<close> that
  behaves the same on every platform. The 48 bit state is kept in three 16 bit limbs; each step multiplies it
  by a constant with the carries written out. The reference is the linear congruential step
  \<open>X \<mapsto> (0x5DEECE66D * X + 0xB) mod 2 ^ 48\<close> on the number the limbs stand for.
\<close>

section \<open>Definitions\<close>

abbreviation MASK :: nat where "MASK \<equiv> 65535"

text \<open>The state \<^verbatim>\<open>x\<close> of the generator; \<^verbatim>\<open>a\<close> and \<^verbatim>\<open>c\<close> are never changed from the values \<^verbatim>\<open>SEED\<close> gives them.\<close>

record rand48 =
  x0 :: nat
  x1 :: nat
  x2 :: nat

definition LOW :: "nat \<Rightarrow> nat" where "LOW v = v mod 2 ^ 16"

definition A0 :: nat where "A0 = 0xE66D"
definition A1 :: nat where "A1 = 0xDEEC"
definition A2 :: nat where "A2 = 0x5"
definition C48 :: nat where "C48 = 0xB"

definition rand48_init :: rand48 where
  "rand48_init = \<lparr>x0 = 0x330E, x1 = 0xABCD, x2 = 0x1234\<rparr>"

text \<open>
  \<^verbatim>\<open>MUL\<close>: the product is cut to \<^verbatim>\<open>int32_t\<close>; \<^verbatim>\<open>HIGH\<close> shifts that signed value right and masks it.
\<close>

definition MUL :: "nat \<Rightarrow> nat \<Rightarrow> nat \<times> nat" where
  "MUL x y =
    (let l = u2s 32 ((x * y) mod 2 ^ 32) in (s2u 32 l mod 2 ^ 16, s2u 32 (l div 2 ^ 16) mod 2 ^ 16))"

definition CARRY :: "nat \<Rightarrow> nat \<Rightarrow> nat" where
  "CARRY x y = (if x + y > MASK then 1 else 0)"

definition next48 :: "rand48 \<Rightarrow> rand48" where
  "next48 x =
    (let (p0, p1) = MUL A0 (x0 x);
         carry0 = CARRY p0 C48; p0 = LOW (p0 + C48);
         carry1 = CARRY p1 carry0; p1 = LOW (p1 + carry0);
         (q0, q1) = MUL A0 (x1 x);
         carry0 = CARRY p1 q0; p1 = LOW (p1 + q0);
         (r0, r1) = MUL A1 (x0 x)
     in \<lparr>x0 = LOW p0,
         x1 = LOW (p1 + r0),
         x2 = LOW ((carry0 + carry1 + CARRY p1 r0 + q1 + r1 + A0 * x2 x + A1 * x1 x + A2 * x0 x) mod 2 ^ 32)\<rparr>)"

definition redisLrand48 :: "rand48 \<Rightarrow> rand48 \<times> nat" where
  "redisLrand48 x = (let x = next48 x in (x, (x2 x * 2 ^ 15 + x1 x div 2) mod 2 ^ 32))"

definition redisSrand48 :: "int \<Rightarrow> rand48" where
  "redisSrand48 seedval =
    \<lparr>x0 = 0x330E, x1 = s2u 32 seedval mod 2 ^ 16, x2 = s2u 32 (seedval div 2 ^ 16) mod 2 ^ 16\<rparr>"

section \<open>The congruential step\<close>

definition rand_wf :: "rand48 \<Rightarrow> bool" where
  "rand_wf x \<longleftrightarrow> x0 x < 2 ^ 16 \<and> x1 x < 2 ^ 16 \<and> x2 x < 2 ^ 16"

definition rand_val :: "rand48 \<Rightarrow> nat" where
  "rand_val x = x0 x + 2 ^ 16 * x1 x + 2 ^ 32 * x2 x"

definition lcg :: "nat \<Rightarrow> nat" where
  "lcg v = (0x5DEECE66D * v + 0xB) mod 2 ^ 48"

lemma s2u_low: "s2u 32 z mod 2 ^ 16 = nat (z mod 2 ^ 16)"
proof -
  have "s2u 32 z mod 2 ^ 16 = nat (z mod 2 ^ 32 mod 2 ^ 16)"
    unfolding s2u_def by (simp add: nat_mod_distrib)
  also have "z mod 2 ^ 32 mod 2 ^ 16 = z mod 2 ^ 16" by (rule mod_mod_cancel) simp
  finally show ?thesis .
qed

lemma u2s_limbs:
  assumes "n < 2 ^ 32"
  shows "s2u 32 (u2s 32 n) mod 2 ^ 16 = n mod 2 ^ 16 \<and> s2u 32 (u2s 32 n div 2 ^ 16) mod 2 ^ 16 = n div 2 ^ 16"
proof -
  have k: "u2s 32 n = int n \<or> u2s 32 n = int n - 2 ^ 16 * 2 ^ 16" by (simp add: u2s_def)
  have "(int n - 2 ^ 16 * 2 ^ 16) div 2 ^ 16 = int n div 2 ^ 16 - 2 ^ 16"
    "(int n - 2 ^ 16 * 2 ^ 16) mod 2 ^ 16 = int n mod 2 ^ 16"
    using div_mult_self1 [of "65536 :: int" "int n" "- 65536"] mod_mult_self1 [of "int n" "- 65536" 65536] by simp_all
  with k have "u2s 32 n mod 2 ^ 16 = int n mod 2 ^ 16" "u2s 32 n div 2 ^ 16 mod 2 ^ 16 = int n div 2 ^ 16 mod 2 ^ 16"
    by auto
  moreover have "n div 2 ^ 16 < 2 ^ 16" using assms by (simp add: div_less_iff_less_mult)
  then have "n div 2 ^ 16 mod 2 ^ 16 = n div 2 ^ 16" by (rule mod_less)
  moreover have "nat (int n mod 2 ^ 16) = n mod 2 ^ 16" by (simp add: nat_mod_distrib)
  moreover have "int n div 2 ^ 16 = int (n div 2 ^ 16)" by (simp add: zdiv_int)
  then have "nat (int n div 2 ^ 16 mod 2 ^ 16) = n div 2 ^ 16 mod 2 ^ 16" by (simp only:) (simp add: nat_mod_distrib)
  ultimately show ?thesis by (simp only: s2u_low simp_thms)
qed

lemma MUL_eq:
  assumes "x < 2 ^ 16" "y < 2 ^ 16"
  shows "MUL x y = ((x * y) mod 2 ^ 16, (x * y) div 2 ^ 16)"
proof -
  have "x * y \<le> MASK * MASK" using assms by (intro mult_mono) auto
  then have xy: "x * y < 2 ^ 32" by simp
  then have "(x * y) mod 2 ^ 32 = x * y" by simp
  then show ?thesis using u2s_limbs [OF xy] by (simp only: MUL_def Let_def)
qed

lemma CARRY_LOW: "a < 2 ^ 16 \<Longrightarrow> b < 2 ^ 16 \<Longrightarrow> a + b = 2 ^ 16 * CARRY a b + LOW (a + b)"
  by (auto simp: CARRY_def LOW_def le_mod_geq not_less)

lemma LOW_LOW: "LOW (LOW v) = LOW v"
  unfolding LOW_def by (rule mod_mod_trivial)

lemma limbs_mod:
  assumes "a < 2 ^ 16" "b < 2 ^ 16"
  shows "(a + 2 ^ 16 * b + 2 ^ 32 * s + 2 ^ 48 * t) mod 2 ^ 48 = a + 2 ^ 16 * b + 2 ^ 32 * (s mod 2 ^ 16 :: nat)"
proof -
  have "a + 2 ^ 16 * b + 2 ^ 32 * s + 2 ^ 48 * t =
    (a + 2 ^ 16 * b + 2 ^ 32 * (s mod 2 ^ 16)) + 2 ^ 48 * (s div 2 ^ 16 + t)"
    (is "?l = ?r")
  proof -
    define q r where "q = s div 2 ^ 16" and "r = s mod 2 ^ 16"
    have "s = q * 2 ^ 16 + r" by (simp add: q_def r_def)
    then show "?l = ?r" unfolding q_def [symmetric] r_def [symmetric] by simp
  qed
  moreover have "a + 2 ^ 16 * b + 2 ^ 32 * (s mod 2 ^ 16) < 2 ^ 48" using assms by simp
  ultimately show ?thesis by (simp only: mod_mult_self2 mod_less)
qed

lemma next48_step:
  assumes "rand_wf x"
  shows "rand_wf (next48 x) \<and> rand_val (next48 x) = lcg (rand_val x)"
proof -
  have w: "x0 x < 2 ^ 16" "x1 x < 2 ^ 16" "x2 x < 2 ^ 16" using assms by (simp_all add: rand_wf_def)
  define p0 p1 where "p0 = (A0 * x0 x) mod 2 ^ 16" and "p1 = (A0 * x0 x) div 2 ^ 16"
  define q0 q1 where "q0 = (A0 * x1 x) mod 2 ^ 16" and "q1 = (A0 * x1 x) div 2 ^ 16"
  define r0 r1 where "r0 = (A1 * x0 x) mod 2 ^ 16" and "r1 = (A1 * x0 x) div 2 ^ 16"
  define c0 c1 where "c0 = CARRY p0 C48" and "c1 = CARRY p1 c0"
  define p' where "p' = LOW (p1 + c0)"
  define c2 p'' where "c2 = CARRY p' q0" and "p'' = LOW (p' + q0)"
  define c3 where "c3 = CARRY p'' r0"
  define s where "s = c2 + c1 + c3 + q1 + r1 + A0 * x2 x + A1 * x1 x + A2 * x0 x"
  have a: "A0 < 2 ^ 16" "A1 < 2 ^ 16" by (simp_all add: A0_def A1_def)
  have m: "MUL A0 (x0 x) = (p0, p1)" "MUL A0 (x1 x) = (q0, q1)" "MUL A1 (x0 x) = (r0, r1)"
    using MUL_eq [OF a(1) w(1)] MUL_eq [OF a(1) w(2)] MUL_eq [OF a(2) w(1)]
    by (simp_all only: p0_def p1_def q0_def q1_def r0_def r1_def)
  have s16: "LOW (s mod 2 ^ 32) = s mod 2 ^ 16" unfolding LOW_def by (intro mod_mod_cancel le_imp_power_dvd) simp
  have n: "next48 x = \<lparr>x0 = LOW (p0 + C48), x1 = LOW (p'' + r0), x2 = s mod 2 ^ 16\<rparr>"
    using s16 unfolding next48_def m s_def c3_def p''_def c2_def p'_def c1_def c0_def
    by (simp only: Let_def prod.case LOW_LOW)
  have lt: "p0 < 2 ^ 16" "p1 < 2 ^ 16" "q0 < 2 ^ 16" "r0 < 2 ^ 16" "p' < 2 ^ 16" "p'' < 2 ^ 16" "c0 < 2 ^ 16"
    using w by (simp_all add: p0_def p1_def q0_def r0_def p'_def p''_def LOW_def c0_def CARRY_def A0_def)
  have sums: "p0 + C48 = 2 ^ 16 * c0 + LOW (p0 + C48)" "p1 + c0 = 2 ^ 16 * c1 + p'"
    "p' + q0 = 2 ^ 16 * c2 + p''" "p'' + r0 = 2 ^ 16 * c3 + LOW (p'' + r0)"
    using lt CARRY_LOW by (simp_all add: c0_def c1_def p'_def c2_def p''_def c3_def C48_def)
  have prods: "A0 * x0 x = 2 ^ 16 * p1 + p0" "A0 * x1 x = 2 ^ 16 * q1 + q0" "A1 * x0 x = 2 ^ 16 * r1 + r0"
    by (simp_all add: p0_def p1_def q0_def q1_def r0_def r1_def)
  define a b where "a = LOW (p0 + C48)" and "b = LOW (p'' + r0)"
  have v: "0x5DEECE66D * rand_val x + 0xB =
    a + 2 ^ 16 * b + 2 ^ 32 * s + 2 ^ 48 * (A1 * x2 x + A2 * x1 x + 2 ^ 16 * (A2 * x2 x))"
    using sums [folded a_def b_def] prods unfolding rand_val_def s_def A0_def A1_def A2_def C48_def by simp
  have ab: "a < 2 ^ 16" "b < 2 ^ 16" by (simp_all add: a_def b_def LOW_def)
  have "lcg (rand_val x) = a + 2 ^ 16 * b + 2 ^ 32 * (s mod 2 ^ 16)"
    unfolding lcg_def v by (rule limbs_mod [OF ab])
  then show ?thesis using ab by (simp add: n rand_val_def rand_wf_def flip: a_def b_def)
qed

lemma seed_val: "rand_wf (redisSrand48 seed) \<and> rand_val (redisSrand48 seed) = 0x330E + 2 ^ 16 * s2u 32 seed"
proof -
  define n where "n = s2u 32 seed"
  have n: "n < 2 ^ 32" unfolding n_def by (rule s2u_lt)
  have "seed div 2 ^ 16 mod 2 ^ 16 = (seed mod 2 ^ 32) div 2 ^ 16"
    using mod_mult2_eq' [of seed "2 ^ 16" "2 ^ 16"] by simp
  then have "s2u 32 (seed div 2 ^ 16) mod 2 ^ 16 = n div 2 ^ 16"
    unfolding s2u_low unfolding n_def s2u_def by (simp only:) (simp add: nat_div_distrib)
  then have "redisSrand48 seed = \<lparr>x0 = 0x330E, x1 = n mod 2 ^ 16, x2 = n div 2 ^ 16\<rparr>"
    by (simp only: redisSrand48_def n_def)
  moreover have "65536 * (n mod 65536) + 4294967296 * (n div 65536) = 65536 * (n div 65536 * 65536 + n mod 65536)"
    by (simp only: distrib_left)
  then have "65536 * (n mod 65536) + 4294967296 * (n div 65536) = 65536 * n" by (simp only: div_mult_mod_eq)
  moreover have "n div 65536 < 65536" using n by (simp add: div_less_iff_less_mult)
  ultimately show ?thesis by (simp add: rand_wf_def rand_val_def flip: n_def)
qed

lemma redisLrand48_step:
  assumes "rand_wf x"
  shows "\<exists>x'. redisLrand48 x = (x', lcg (rand_val x) div 2 ^ 17) \<and> rand_wf x' \<and> rand_val x' = lcg (rand_val x)"
proof -
  define y where "y = next48 x"
  have y: "x0 y < 2 ^ 16" "x1 y < 2 ^ 16" "x2 y < 2 ^ 16" "rand_wf y" "rand_val y = lcg (rand_val x)"
    using next48_step [OF assms] by (simp_all add: y_def rand_wf_def)
  have "rand_val y = x0 y + 2 ^ 16 * (x1 y + 2 ^ 16 * x2 y)" by (simp add: rand_val_def)
  then have "rand_val y div 2 ^ 16 = x1 y + 2 * (2 ^ 15 * x2 y)" using y(1) by simp
  then have "rand_val y div 2 ^ 16 div 2 = x2 y * 2 ^ 15 + x1 y div 2" by (simp add: div_mult_self2)
  then have "rand_val y div 2 ^ 17 = x2 y * 2 ^ 15 + x1 y div 2" by (simp add: div_mult2_eq [symmetric])
  moreover have "x2 y * 2 ^ 15 + x1 y div 2 < 2 ^ 32" using y(2,3) by simp
  moreover note y
  ultimately show ?thesis by (simp add: redisLrand48_def Let_def flip: y_def)
qed

lemma draws_state:
  "rand_wf (((\<lambda>x. fst (redisLrand48 x)) ^^ n) (redisSrand48 seed)) \<and>
   rand_val (((\<lambda>x. fst (redisLrand48 x)) ^^ n) (redisSrand48 seed)) = (lcg ^^ n) (0x330E + 2 ^ 16 * s2u 32 seed)"
proof (induction n)
  case (Suc n)
  define x where "x = ((\<lambda>x. fst (redisLrand48 x)) ^^ n) (redisSrand48 seed)"
  have x: "rand_wf x" "rand_val x = (lcg ^^ n) (0x330E + 2 ^ 16 * s2u 32 seed)" using Suc by (simp_all add: x_def)
  obtain x' where "fst (redisLrand48 x) = x'" "rand_wf x'" "rand_val x' = lcg (rand_val x)"
    using redisLrand48_step [OF x(1)] by auto
  then show ?case using x(2) by (simp flip: x_def)
qed (use seed_val in simp)

text \<open>
  C26. After \<^verbatim>\<open>redisSrand48(seed)\<close> the numbers \<^verbatim>\<open>redisLrand48\<close> returns are the 31 high bits of the successive states
  of the 48 bit linear congruential generator started at the seed: the products cut to 32 signed bits and the
  carries between the 16 bit limbs lose nothing. So the sequence is the same on every platform.
\<close>

theorem redisLrand48_sequence:
  "snd (redisLrand48 (((\<lambda>x. fst (redisLrand48 x)) ^^ n) (redisSrand48 seed))) =
    (lcg ^^ Suc n) (0x330E + 2 ^ 16 * s2u 32 seed) div 2 ^ 17"
  using draws_state [of n seed] redisLrand48_step [of "((\<lambda>x. fst (redisLrand48 x)) ^^ n) (redisSrand48 seed)"]
  by auto

end
