(* ===== verification/Siphash.thy ===== *)
theory Siphash
  imports Prelude
begin

text \<open>
  \<^verbatim>\<open>redis-stable/src/siphash.c\<close>: the keyed hash of the dictionaries (SipHash with one compression and two
  finalization rounds) and its variant that ignores the case of ASCII letters. The input is a block and the hash
  reads it with checked loads, so a result other than \<^term>\<open>None\<close> shows that no byte outside the input is read.
  The reference \<open>SipHash\<close> is the published definition of SipHash-\<open>c\<close>-\<open>d\<close>, written without the definitions of the code and
  checked against a vector of \<^verbatim>\<open>vectors_sip64\<close>; \<open>siphash12\<close> is the code as one fold over the words of the padded message.
\<close>

section \<open>Definitions\<close>

type_synonym w64 = "64 word"

record sipstate =
  v0 :: w64
  v1 :: w64
  v2 :: w64
  v3 :: w64

definition siptlw :: "byte \<Rightarrow> byte" where
  "siptlw c = (if 65 \<le> c \<and> c \<le> 90 then c + (97 - 65) else c)"

definition ROTL :: "w64 \<Rightarrow> nat \<Rightarrow> w64" where
  "ROTL x b = push_bit b x OR drop_bit (64 - b) x"

definition U8TO64_LE :: "bytes \<Rightarrow> w64" where
  "U8TO64_LE p = ucast (p ! 0) OR push_bit 8 (ucast (p ! 1)) OR push_bit 16 (ucast (p ! 2)) OR
     push_bit 24 (ucast (p ! 3)) OR push_bit 32 (ucast (p ! 4)) OR push_bit 40 (ucast (p ! 5)) OR
     push_bit 48 (ucast (p ! 6)) OR push_bit 56 (ucast (p ! 7))"

definition U8TO64_LE_NOCASE :: "bytes \<Rightarrow> w64" where
  "U8TO64_LE_NOCASE p = ucast (siptlw (p ! 0)) OR push_bit 8 (ucast (siptlw (p ! 1))) OR
     push_bit 16 (ucast (siptlw (p ! 2))) OR push_bit 24 (ucast (siptlw (p ! 3))) OR
     push_bit 32 (ucast (siptlw (p ! 4))) OR push_bit 40 (ucast (siptlw (p ! 5))) OR
     push_bit 48 (ucast (siptlw (p ! 6))) OR push_bit 56 (ucast (siptlw (p ! 7)))"

definition SIPROUND :: "sipstate \<Rightarrow> sipstate" where
  "SIPROUND v =
    (let v = v\<lparr>v0 := v0 v + v1 v\<rparr>;
         v = v\<lparr>v1 := ROTL (v1 v) 13\<rparr>;
         v = v\<lparr>v1 := v1 v XOR v0 v\<rparr>;
         v = v\<lparr>v0 := ROTL (v0 v) 32\<rparr>;
         v = v\<lparr>v2 := v2 v + v3 v\<rparr>;
         v = v\<lparr>v3 := ROTL (v3 v) 16\<rparr>;
         v = v\<lparr>v3 := v3 v XOR v2 v\<rparr>;
         v = v\<lparr>v0 := v0 v + v3 v\<rparr>;
         v = v\<lparr>v3 := ROTL (v3 v) 21\<rparr>;
         v = v\<lparr>v3 := v3 v XOR v0 v\<rparr>;
         v = v\<lparr>v2 := v2 v + v1 v\<rparr>;
         v = v\<lparr>v1 := ROTL (v1 v) 17\<rparr>;
         v = v\<lparr>v1 := v1 v XOR v2 v\<rparr>
     in v\<lparr>v2 := ROTL (v2 v) 32\<rparr>)"

text \<open>The constants, mixed with the key.\<close>

definition sip_init :: "w64 \<Rightarrow> w64 \<Rightarrow> sipstate" where
  "sip_init k0 k1 = \<lparr>v0 = 0x736f6d6570736575 XOR k0, v1 = 0x646f72616e646f6d XOR k1,
     v2 = 0x6c7967656e657261 XOR k0, v3 = 0x7465646279746573 XOR k1\<rparr>"

text \<open>The last three rounds.\<close>

definition sip_final :: "w64 \<Rightarrow> sipstate \<Rightarrow> w64" where
  "sip_final b v =
    (let v = v\<lparr>v3 := v3 v XOR b\<rparr>;
         v = SIPROUND v;
         v = v\<lparr>v0 := v0 v XOR b\<rparr>;
         v = v\<lparr>v2 := v2 v XOR 0xff\<rparr>;
         v = SIPROUND v;
         v = SIPROUND v
     in v0 v XOR v1 v XOR v2 v XOR v3 v)"

function siphash_loop :: "bytes \<Rightarrow> nat \<Rightarrow> nat \<Rightarrow> sipstate \<Rightarrow> sipstate option" where
  "siphash_loop inp i endp v =
    (if i = endp then Some v
     else case rdn inp i 8 of
       None \<Rightarrow> None
     | Some p \<Rightarrow>
         (let m = U8TO64_LE p;
              v = v\<lparr>v3 := v3 v XOR m\<rparr>;
              v = SIPROUND v;
              v = v\<lparr>v0 := v0 v XOR m\<rparr>
          in siphash_loop inp (i + 8) endp v))"
  by pat_completeness auto

termination
  by (relation "measure (\<lambda>(inp, i, endp, v). length inp - i)") (auto simp: rdn_def split: if_splits)

function siphash_nocase_loop :: "bytes \<Rightarrow> nat \<Rightarrow> nat \<Rightarrow> sipstate \<Rightarrow> sipstate option" where
  "siphash_nocase_loop inp i endp v =
    (if i = endp then Some v
     else case rdn inp i 8 of
       None \<Rightarrow> None
     | Some p \<Rightarrow>
         (let m = U8TO64_LE_NOCASE p;
              v = v\<lparr>v3 := v3 v XOR m\<rparr>;
              v = SIPROUND v;
              v = v\<lparr>v0 := v0 v XOR m\<rparr>
          in siphash_nocase_loop inp (i + 8) endp v))"
  by pat_completeness auto

termination
  by (relation "measure (\<lambda>(inp, i, endp, v). length inp - i)") (auto simp: rdn_def split: if_splits)

declare siphash_loop.simps [simp del] siphash_nocase_loop.simps [simp del]

text \<open>One \<^verbatim>\<open>case\<close> of the \<^verbatim>\<open>switch\<close> on the bytes left, which falls through from the higher ones.\<close>

definition sip_left :: "(byte \<Rightarrow> byte) \<Rightarrow> bytes \<Rightarrow> nat \<Rightarrow> nat \<Rightarrow> nat \<Rightarrow> w64 \<Rightarrow> w64 option" where
  "sip_left f inp i left j b =
    (if left > j then do { c \<leftarrow> rd inp (i + j); Some (b OR push_bit (8 * j) (ucast (f c))) } else Some b)"

definition siphash :: "bytes \<Rightarrow> bytes \<Rightarrow> w64 option" where
  "siphash inp k = do {
     let inlen = length inp;
     p0 \<leftarrow> rdn k 0 8;
     p1 \<leftarrow> rdn k 8 8;
     let k0 = U8TO64_LE p0;
     let k1 = U8TO64_LE p1;
     let endp = inlen - inlen mod 8;
     let left = inlen mod 8;
     let b = push_bit 56 (word_of_nat inlen);
     v \<leftarrow> siphash_loop inp 0 endp (sip_init k0 k1);
     b \<leftarrow> sip_left id inp endp left 6 b;
     b \<leftarrow> sip_left id inp endp left 5 b;
     b \<leftarrow> sip_left id inp endp left 4 b;
     b \<leftarrow> sip_left id inp endp left 3 b;
     b \<leftarrow> sip_left id inp endp left 2 b;
     b \<leftarrow> sip_left id inp endp left 1 b;
     b \<leftarrow> sip_left id inp endp left 0 b;
     Some (sip_final b v)
   }"

definition siphash_nocase :: "bytes \<Rightarrow> bytes \<Rightarrow> w64 option" where
  "siphash_nocase inp k = do {
     let inlen = length inp;
     p0 \<leftarrow> rdn k 0 8;
     p1 \<leftarrow> rdn k 8 8;
     let k0 = U8TO64_LE p0;
     let k1 = U8TO64_LE p1;
     let endp = inlen - inlen mod 8;
     let left = inlen mod 8;
     let b = push_bit 56 (word_of_nat inlen);
     v \<leftarrow> siphash_nocase_loop inp 0 endp (sip_init k0 k1);
     b \<leftarrow> sip_left siptlw inp endp left 6 b;
     b \<leftarrow> sip_left siptlw inp endp left 5 b;
     b \<leftarrow> sip_left siptlw inp endp left 4 b;
     b \<leftarrow> sip_left siptlw inp endp left 3 b;
     b \<leftarrow> sip_left siptlw inp endp left 2 b;
     b \<leftarrow> sip_left siptlw inp endp left 1 b;
     b \<leftarrow> sip_left siptlw inp endp left 0 b;
     Some (sip_final b v)
   }"

section \<open>The code as a fold over words\<close>

definition sip_compress :: "w64 \<Rightarrow> sipstate \<Rightarrow> sipstate" where
  "sip_compress m v = (let v = SIPROUND (v\<lparr>v3 := v3 v XOR m\<rparr>) in v\<lparr>v0 := v0 v XOR m\<rparr>)"

definition sip_pad :: "bytes \<Rightarrow> bytes" where
  "sip_pad s = s @ replicate (7 - length s mod 8) 0 @ [word_of_nat (length s)]"

function sip_words :: "bytes \<Rightarrow> w64 list" where
  "sip_words s = (if s = [] then [] else U8TO64_LE (take 8 s) # sip_words (drop 8 s))"
  by pat_completeness auto

termination
  by (relation "measure length") auto

declare sip_words.simps [simp del]

definition siphash12 :: "bytes \<Rightarrow> bytes \<Rightarrow> w64" where
  "siphash12 s k =
    (let v = fold sip_compress (sip_words (sip_pad s)) (sip_init (U8TO64_LE (take 8 k)) (U8TO64_LE (take 8 (drop 8 k))));
         v = v\<lparr>v2 := v2 v XOR 0xff\<rparr>;
         v = SIPROUND (SIPROUND v)
     in v0 v XOR v1 v XOR v2 v XOR v3 v)"

lemma sip_final_compress:
  "sip_final b v = (let v = sip_compress b v; v = v\<lparr>v2 := v2 v XOR 0xff\<rparr>; v = SIPROUND (SIPROUND v)
     in v0 v XOR v1 v XOR v2 v XOR v3 v)"
  by (simp add: sip_final_def sip_compress_def Let_def)

lemma U8TO64_LE_nocase: "length p = 8 \<Longrightarrow> U8TO64_LE_NOCASE p = U8TO64_LE (map siptlw p)"
  by (simp add: U8TO64_LE_NOCASE_def U8TO64_LE_def)

lemma rdn_map: "rdn (map f m) i n = map_option (map f) (rdn m i n)"
  by (simp add: rdn_def take_map drop_map)

lemma siphash_nocase_loop_eq: "siphash_nocase_loop inp i endp v = siphash_loop (map siptlw inp) i endp v"
proof (induction inp i endp v rule: siphash_nocase_loop.induct)
  case (1 inp i endp v)
  show ?case
  proof (cases "i = endp \<or> rdn inp i 8 = None")
    case True
    then show ?thesis by (subst siphash_nocase_loop.simps, subst siphash_loop.simps) (auto simp: rdn_map)
  next
    case False
    then obtain p where p: "rdn inp i 8 = Some p" "i \<noteq> endp" "length p = 8"
      by (auto simp: rdn_def split: if_splits)
    show ?thesis using 1 [OF p(2,1) refl refl refl refl] p
      by (subst siphash_nocase_loop.simps, subst siphash_loop.simps) (simp add: rdn_map U8TO64_LE_nocase Let_def)
  qed
qed

lemma sip_left_map: "sip_left f inp i left j b = sip_left id (map f inp) i left j b"
  by (simp add: sip_left_def rd_def)

lemma siphash_nocase_map: "siphash_nocase inp k = siphash (map siptlw inp) k"
  unfolding siphash_nocase_def siphash_def
  by (simp add: siphash_nocase_loop_eq sip_left_map [of siptlw] Let_def)

lemma siphash_loop_words:
  assumes "length a = i" "length b = 8 * n"
  shows "siphash_loop (a @ b @ c) i (i + 8 * n) v = Some (fold sip_compress (sip_words b) v)"
  using assms
proof (induction n arbitrary: a b i v)
  case 0
  then show ?case by (subst siphash_loop.simps) (simp add: sip_words.simps)
next
  case (Suc n)
  define b1 b2 where "b1 = take 8 b" and "b2 = drop 8 b"
  have b: "b = b1 @ b2" "length b1 = 8" "length b2 = 8 * n" using Suc.prems by (auto simp: b1_def b2_def)
  have r: "rdn (a @ b @ c) i 8 = Some b1" using Suc.prems b by (simp add: rdn_def)
  have w: "sip_words b = U8TO64_LE b1 # sip_words b2" using b by (subst sip_words.simps) auto
  have "siphash_loop ((a @ b1) @ b2 @ c) (i + 8) (i + 8 + 8 * n) v' = Some (fold sip_compress (sip_words b2) v')" for v'
    using Suc.IH [of "a @ b1" "i + 8" b2 v'] b Suc.prems by simp
  then show ?case using b r w
    by (subst siphash_loop.simps) (simp add: sip_compress_def Let_def add.assoc)
qed

lemma push_len: "push_bit 56 (word_of_nat n :: w64) = push_bit 56 (ucast (word_of_nat n :: byte))"
proof -
  have "ucast (word_of_nat n :: byte) = take_bit 8 (word_of_nat n :: w64)"
    by (simp add: unsigned_of_nat of_nat_take_bit)
  then show ?thesis by (simp only: push_bit_take_bit) (simp add: take_bit_word_eq_self)
qed

lemma sip_left_at:
  "length a = i \<Longrightarrow> sip_left id (a @ r) i (length r) j b =
    Some (if j < length r then b OR push_bit (8 * j) (ucast (r ! j)) else b)"
  by (auto simp: sip_left_def rd_def nth_append)

lemma pad_nth:
  assumes "length r < 8" "j < 7"
  shows "(r @ replicate (7 - length r) 0 @ [c]) ! j = (if j < length r then r ! j else (0 :: byte))"
  using assms by (auto simp: nth_append)

lemma pad_last: "length r < 8 \<Longrightarrow> (r @ replicate (7 - length r) 0 @ [c]) ! 7 = (c :: byte)"
  by (auto simp: nth_append)

lemma or_if: "(if p then b OR push_bit n (ucast c) else b) = (b OR push_bit n (ucast (if p then c else (0 :: byte))) :: w64)"
  by simp

lemma sip_tail:
  assumes "length a = i" "length r < 8" "inp = a @ r"
  shows "do {
     b \<leftarrow> sip_left id inp i (length r) 6 (push_bit 56 (word_of_nat n));
     b \<leftarrow> sip_left id inp i (length r) 5 b;
     b \<leftarrow> sip_left id inp i (length r) 4 b;
     b \<leftarrow> sip_left id inp i (length r) 3 b;
     b \<leftarrow> sip_left id inp i (length r) 2 b;
     b \<leftarrow> sip_left id inp i (length r) 1 b;
     b \<leftarrow> sip_left id inp i (length r) 0 b;
     Some (sip_final b v)
   } = Some (sip_final (U8TO64_LE (r @ replicate (7 - length r) 0 @ [word_of_nat n])) v)"
proof -
  let ?p = "r @ replicate (7 - length r) 0 @ [word_of_nat n]"
  let ?f = "\<lambda>j b. b OR push_bit (8 * j) (ucast (?p ! j)) :: w64"
  have l: "sip_left id inp i (length r) j b = Some (?f j b)" if "j < 7" for j b
    using that by (simp only: assms(3) sip_left_at [OF assms(1)] or_if pad_nth [OF assms(2)])
  have "U8TO64_LE ?p = ?f 0 (?f 1 (?f 2 (?f 3 (?f 4 (?f 5 (?f 6 (push_bit 56 (ucast (?p ! 7)))))))))"
    by (simp add: U8TO64_LE_def ac_simps del: append_assoc)
  also have "push_bit 56 (ucast (?p ! 7)) = push_bit 56 (word_of_nat n :: w64)"
    by (simp only: pad_last [OF assms(2)] push_len)
  finally show ?thesis by (simp add: l)
qed

lemma sip_words_append: "length b = 8 * n \<Longrightarrow> length c = 8 \<Longrightarrow> sip_words (b @ c) = sip_words b @ [U8TO64_LE c]"
proof (induction n arbitrary: b)
  case 0
  then have "c \<noteq> []" by auto
  with 0 show ?case by (simp add: sip_words.simps [of "[]"] sip_words.simps [of c])
next
  case (Suc n)
  then have "b \<noteq> []" "drop 8 (b @ c) = drop 8 b @ c" "take 8 (b @ c) = take 8 b" by auto
  then show ?case using Suc.IH [of "drop 8 b"] Suc.prems
    by (subst sip_words.simps, subst (2) sip_words.simps) simp
qed

lemma siphash_siphash12:
  assumes "16 \<le> length k"
  shows "siphash inp k = Some (siphash12 inp k)"
proof -
  define n where "n = length inp div 8"
  define b r where "b = take (8 * n) inp" and "r = drop (8 * n) inp"
  have len: "length inp = 8 * n + length inp mod 8" by (simp add: n_def)
  have br: "inp = b @ r" "length b = 8 * n" "length r = length inp mod 8" "length r < 8"
    using len by (auto simp: b_def r_def min_def)
  have endp: "length inp - length inp mod 8 = 8 * n" using len by linarith
  have loop: "siphash_loop inp 0 (8 * n) v = Some (fold sip_compress (sip_words b) v)" for v
    using siphash_loop_words [of "[]" 0 b n r v] br by simp
  have pad: "sip_pad inp = b @ (r @ replicate (7 - length r) 0 @ [word_of_nat (length inp)])"
    unfolding sip_pad_def br(3) using br(1) by simp
  have words: "sip_words (sip_pad inp) = sip_words b @ [U8TO64_LE (r @ replicate (7 - length r) 0 @ [word_of_nat (length inp)])]"
    unfolding pad using br(2,4) by (intro sip_words_append) auto
  have key: "rdn k 0 8 = Some (take 8 k)" "rdn k 8 8 = Some (take 8 (drop 8 k))" using assms by (simp_all add: rdn_def)
  have "siphash12 inp k = sip_final (U8TO64_LE (r @ replicate (7 - length r) 0 @ [word_of_nat (length inp)]))
    (fold sip_compress (sip_words b) (sip_init (U8TO64_LE (take 8 k)) (U8TO64_LE (take 8 (drop 8 k)))))"
    unfolding siphash12_def words fold_append fold.simps comp_def id_def sip_final_compress Let_def ..
  then show ?thesis
    unfolding siphash_def Let_def endp key bind.bind_lunit loop
    unfolding br(3) [symmetric] by (simp only: sip_tail [OF br(2,4,1)])
qed

section \<open>SipHash\<close>

text \<open>
  SipHash-\<open>c\<close>-\<open>d\<close> as its authors define it: a state of four words, initialized with the key and the words of the text
  ``somepseudorandomlygeneratedbytes'' (each read with its first character on top); the message cut into words read with
  the first byte at the bottom, the last word filled with zeros up to the length of the message modulo 256; \<open>c\<close> rounds for
  each word and \<open>d\<close> rounds at the end. Nothing of it refers to the definitions of the code.
\<close>

type_synonym sip = "w64 \<times> w64 \<times> w64 \<times> w64"

definition le64 :: "bytes \<Rightarrow> w64" where
  "le64 p = word_of_nat (\<Sum>i<length p. unat (p ! i) * 256 ^ i)"

definition ascii64 :: "string \<Rightarrow> w64" where
  "ascii64 s = word_of_nat (fold (\<lambda>c n. 256 * n + of_char c) s 0)"

definition sip_round :: "sip \<Rightarrow> sip" where
  "sip_round = (\<lambda>(a, b, c, d).
    let a = a + b; c = c + d;
        b = word_rotl 13 b; d = word_rotl 16 d;
        b = b XOR a; d = d XOR c;
        a = word_rotl 32 a;
        c = c + b; a = a + d;
        b = word_rotl 17 b; d = word_rotl 21 d;
        b = b XOR c; d = d XOR a;
        c = word_rotl 32 c
    in (a, b, c, d))"

definition sip_word :: "nat \<Rightarrow> w64 \<Rightarrow> sip \<Rightarrow> sip" where
  "sip_word n m = (\<lambda>(a, b, c, d). case (sip_round ^^ n) (a, b, c, d XOR m) of (a, b, c, d) \<Rightarrow> (a XOR m, b, c, d))"

definition message_words :: "bytes \<Rightarrow> w64 list" where
  "message_words s =
    (let n = length s div 8 in
     map (\<lambda>j. le64 (take 8 (drop (8 * j) s))) [0..<n] @
     [le64 (drop (8 * n) s) + 2 ^ 56 * word_of_nat (length s mod 256)])"

definition SipHash :: "nat \<Rightarrow> nat \<Rightarrow> bytes \<Rightarrow> bytes \<Rightarrow> w64" where
  "SipHash c d key s =
    (let k0 = le64 (take 8 key); k1 = le64 (drop 8 key);
         start = (ascii64 ''somepseu'' XOR k0, ascii64 ''dorandom'' XOR k1,
                  ascii64 ''lygenera'' XOR k0, ascii64 ''tedbytes'' XOR k1);
         (v0, v1, v2, v3) = fold (sip_word c) (message_words s) start;
         (v0, v1, v2, v3) = (sip_round ^^ d) (v0, v1, v2 XOR 255, v3)
     in v0 XOR v1 XOR v2 XOR v3)"

lemma le64_Nil [simp]: "le64 [] = 0"
  by (simp add: le64_def)

lemma le64_Cons [simp]: "le64 (c # p) = ucast c + 256 * le64 p"
proof -
  have "(\<Sum>i<length (c # p). unat ((c # p) ! i) * 256 ^ i) = unat c + 256 * (\<Sum>i<length p. unat (p ! i) * 256 ^ i)"
    by (simp add: sum.lessThan_Suc_shift sum_distrib_left ac_simps del: sum.lessThan_Suc)
  then show ?thesis unfolding le64_def by (simp del: length_Cons)
qed

lemma le64_append: "le64 (p @ q) = le64 p + 256 ^ length p * le64 q"
  by (induction p) (simp_all add: algebra_simps)

lemma le64_zeros [simp]: "le64 (replicate n 0) = 0"
  by (induction n) simp_all

lemma or_shift: "(ucast (c :: byte) :: w64) OR push_bit 8 w = ucast c + 256 * w"
proof -
  have "(ucast c :: w64) OR push_bit 8 w = ucast c + push_bit 8 w"
    by (rule disjunctive_add_eq_or [symmetric]) (auto simp: bit_eq_iff bit_simps dest: bit_imp_le_length)
  then show ?thesis by (simp add: push_bit_eq_mult)
qed

lemma U8TO64_LE_le64:
  assumes "length p = 8"
  shows "U8TO64_LE p = le64 p"
proof -
  have "U8TO64_LE p = ucast (p ! 0) OR push_bit 8 (ucast (p ! 1) OR push_bit 8 (ucast (p ! 2) OR push_bit 8 (ucast (p ! 3) OR
    push_bit 8 (ucast (p ! 4) OR push_bit 8 (ucast (p ! 5) OR push_bit 8 (ucast (p ! 6) OR push_bit 8 (ucast (p ! 7) OR push_bit 8 0)))))))"
    by (simp add: U8TO64_LE_def push_bit_or push_bit_push_bit ac_simps)
  also have "\<dots> = le64 (map ((!) p) [0..<8])" unfolding or_shift by (simp add: upt_rec numeral_nat)
  also have "map ((!) p) [0..<8] = p" using map_nth [of p] assms by simp
  finally show ?thesis .
qed

lemma ROTL_rotl:
  assumes "0 < n" "n < 64"
  shows "ROTL x n = word_rotl n x"
proof (rule bit_word_eqI)
  fix i assume "i < LENGTH(64)"
  then show "bit (ROTL x n) i = bit (word_rotl n x) i" using assms
    by (cases "i < n") (auto simp: ROTL_def bit_simps mod_if add.commute [of 64 i] dest: bit_imp_le_length)
qed

definition sip_of :: "sipstate \<Rightarrow> sip" where
  "sip_of v = (v0 v, v1 v, v2 v, v3 v)"

lemma SIPROUND_round: "sip_of (SIPROUND v) = sip_round (sip_of v)"
  by (simp add: SIPROUND_def sip_round_def sip_of_def Let_def ROTL_rotl ac_simps)

lemma compress_word: "sip_of (sip_compress m v) = sip_word 1 m (sip_of v)"
  using SIPROUND_round [of "v\<lparr>v3 := v3 v XOR m\<rparr>"]
  by (simp add: sip_compress_def sip_word_def sip_of_def Let_def case_prod_unfold prod_eq_iff)

lemma fold_compress: "sip_of (fold sip_compress ms v) = fold (sip_word 1) ms (sip_of v)"
  by (induction ms arbitrary: v) (simp_all add: compress_word)


lemma sip_words_map:
  "length s = 8 * n \<Longrightarrow> sip_words s = map (\<lambda>j. le64 (take 8 (drop (8 * j) s))) [0..<n]"
proof (induction n arbitrary: s)
  case 0
  then show ?case by (simp add: sip_words.simps)
next
  case (Suc n)
  then have "sip_words s = le64 (take 8 s) # sip_words (drop 8 s)"
    by (subst sip_words.simps) (auto simp: U8TO64_LE_le64)
  then show ?case using Suc
    by (simp add: upt_conv_Cons map_Suc_upt [symmetric] comp_def ac_simps del: upt_Suc)
qed

lemma init_start:
  "sip_of (sip_init k0 k1) = (ascii64 ''somepseu'' XOR k0, ascii64 ''dorandom'' XOR k1,
    ascii64 ''lygenera'' XOR k0, ascii64 ''tedbytes'' XOR k1)"
  by (simp add: sip_of_def sip_init_def ascii64_def)

lemma pad_words: "sip_words (sip_pad s) = message_words s"
proof -
  define n where "n = length s div 8"
  define b r where "b = take (8 * n) s" and "r = drop (8 * n) s"
  have len: "length s = 8 * n + length s mod 8" by (simp add: n_def)
  have br: "s = b @ r" "length b = 8 * n" "length r = length s mod 8" "length r < 8"
    using len by (auto simp: b_def r_def min_def)
  let ?t = "r @ replicate (7 - length r) 0 @ [word_of_nat (length s)]"
  have "sip_pad s = b @ ?t" unfolding sip_pad_def br(3) using br(1) by simp
  then have "sip_words (sip_pad s) = sip_words b @ [le64 ?t]"
    using sip_words_append [OF br(2), of ?t] br(4) by (simp add: U8TO64_LE_le64)
  also have "sip_words b = map (\<lambda>j. le64 (take 8 (drop (8 * j) s))) [0..<n]"
    unfolding sip_words_map [OF br(2)] by (auto simp: b_def drop_take min_def)
  also have "le64 ?t = le64 r + 256 ^ 7 * ucast (word_of_nat (length s) :: byte)"
    using br(4) by (simp add: le64_append flip: mult.assoc power_add)
  also have "ucast (word_of_nat (length s) :: byte) = (word_of_nat (length s mod 256) :: w64)"
    by (simp add: unsigned_of_nat take_bit_eq_mod)
  finally show ?thesis by (simp add: message_words_def Let_def n_def r_def)
qed

lemma siphash12_SipHash:
  assumes "length k = 16"
  shows "siphash12 s k = SipHash 1 2 k s"
proof -
  have k: "U8TO64_LE (take 8 k) = le64 (take 8 k)" "U8TO64_LE (take 8 (drop 8 k)) = le64 (drop 8 k)"
    using assms by (simp_all add: U8TO64_LE_le64)
  let ?v = "fold sip_compress (message_words s) (sip_init (le64 (take 8 k)) (le64 (drop 8 k)))"
  let ?w = "?v\<lparr>v2 := v2 ?v XOR 0xff\<rparr>"
  have 1: "fold (sip_word 1) (message_words s) (ascii64 ''somepseu'' XOR le64 (take 8 k),
    ascii64 ''dorandom'' XOR le64 (drop 8 k), ascii64 ''lygenera'' XOR le64 (take 8 k),
    ascii64 ''tedbytes'' XOR le64 (drop 8 k)) = (v0 ?v, v1 ?v, v2 ?v, v3 ?v)"
    unfolding init_start [symmetric] fold_compress [symmetric] by (simp add: sip_of_def)
  have 2: "(sip_round ^^ 2) (v0 ?v, v1 ?v, v2 ?v XOR 255, v3 ?v) = sip_of (SIPROUND (SIPROUND ?w))"
    by (simp add: SIPROUND_round numeral_2_eq_2) (simp add: sip_of_def)
  show ?thesis
    unfolding SipHash_def Let_def 1 prod.case 2 siphash12_def pad_words k by (simp add: sip_of_def)
qed


text \<open>The first of the vectors \<^verbatim>\<open>vectors_sip64\<close> (\<^verbatim>\<open>siphash.c\<close>), which are for SipHash-2-4: the key \<open>0 \<dots> 15\<close> and no message.\<close>

lemma sip_round_ROTL: "sip_round (a, b, c, d) =
   (let a = a + b; c = c + d; b = ROTL b 13; d = ROTL d 16; b = b XOR a; d = d XOR c; a = ROTL a 32;
        c = c + b; a = a + d; b = ROTL b 17; d = ROTL d 21; b = b XOR c; d = d XOR a; c = ROTL c 32
    in (a, b, c, d))"
  by (simp add: sip_round_def ROTL_rotl Let_def)

lemma vector_rounds:
  "sip_round (0x7469686173716475, 0x6b617f6d656e6665, 0x6b7f62616d677361, 0x7b6b696e727e6c7b) =
    (0x6864848c93698c85, 0x41d43f143c94a7dc, 0xf3f94792d7121732, 0x5e52f75805987c12)"
  "sip_round (0x6864848c93698c85, 0x41d43f143c94a7dc, 0xf3f94792d7121732, 0x5e52f75805987c12) =
    (0x75126fd44af190b6, 0x84235164f06142b, 0x37b04f9f8026831d, 0x1b4678cde8253231)"
  "sip_round (0x75126fd44af190b6, 0x84235164f06142b, 0x37b04f9f802683e2, 0x1b4678cde8253231) =
    (0xc432c529d7cf523f, 0x54f98392486c0c10, 0xc3be7bfc8eed3577, 0xcd398a7c7d6a155b)"
  "sip_round (0xc432c529d7cf523f, 0x54f98392486c0c10, 0xc3be7bfc8eed3577, 0xcd398a7c7d6a155b) =
    (0x3abfd9623238d0a7, 0xb9354b5807b0cd1e, 0xae109fa2ba56082a, 0x58dcf8f2cf5b8028)"
  "sip_round (0x3abfd9623238d0a7, 0xb9354b5807b0cd1e, 0xae109fa2ba56082a, 0x58dcf8f2cf5b8028) =
    (0x3808f593fd8ef548, 0x2913fc753c3d6609, 0xa9fbd335618bbce1, 0xc1c9c6a9ec5136a2)"
  "sip_round (0x3808f593fd8ef548, 0x2913fc753c3d6609, 0xa9fbd335618bbce1, 0xc1c9c6a9ec5136a2) =
    (0xe738d0dfdc9b2453, 0x214ac5771e0c4cd2, 0xe2ea71f68a57ef6d, 0x56f7bf1995ce89dd)"
  by (simp_all add: sip_round_ROTL ROTL_def)

lemma vector_start:
  "(ascii64 ''somepseu'' XOR le64 (take 8 (map word_of_nat [0..<16])), ascii64 ''dorandom'' XOR le64 (drop 8 (map word_of_nat [0..<16])),
    ascii64 ''lygenera'' XOR le64 (take 8 (map word_of_nat [0..<16])), ascii64 ''tedbytes'' XOR le64 (drop 8 (map word_of_nat [0..<16]))) =
    (0x7469686173716475, 0x6b617f6d656e6665, 0x6b7f62616d677361, 0x7b6b696e727e6c7b)"
  by (simp add: ascii64_def upt_rec)

lemma SipHash_2_4_vector: "SipHash 2 4 (map word_of_nat [0..<16]) [] = 0x726fdb47dd0e0e31"
proof -
  have "message_words [] = [0]" by (simp add: message_words_def)
  then show ?thesis unfolding SipHash_def Let_def vector_start
    by (simp add: sip_word_def numeral_2_eq_2 numeral_eq_Suc vector_rounds)
qed

text \<open>
  C19. \<^verbatim>\<open>siphash\<close> computes SipHash-1-2 as the published definition gives it (its own rounds, constants, byte order and
  padding, none of them taken from the code) of the whole input, for inputs of every length and every key of 16 bytes, and reads no byte outside its input and its key.
\<close>

theorem siphash_correct:
  assumes "length k = 16"
  shows "siphash inp k = Some (SipHash 1 2 k inp)"
  using siphash_siphash12 [of k] siphash12_SipHash [OF assms] assms by simp

theorem siphash_correct_witness:
  "siphash [1, 2, 3] (replicate 16 7) = Some (SipHash 1 2 (replicate 16 7) [1, 2, 3])"
  using siphash_correct [of "replicate 16 7"] by simp

text \<open>
  \<^verbatim>\<open>siphash_nocase\<close> is the hash of the input in lower case: keys that differ only in the case of ASCII letters
  always fall in the same bucket, and no byte outside the input is read.
\<close>

theorem siphash_nocase_lower:
  assumes "length k = 16"
  shows "siphash_nocase inp k = Some (SipHash 1 2 k (map siptlw inp)) \<and>
    (map siptlw inp = map siptlw inp' \<longrightarrow> siphash_nocase inp k = siphash_nocase inp' k)"
  using siphash_siphash12 [of k] siphash12_SipHash [OF assms] assms by (simp add: siphash_nocase_map)

theorem siphash_nocase_lower_witness:
  "siphash_nocase [71, 101, 84] (replicate 16 7) = siphash_nocase [103, 101, 116] (replicate 16 7)"
  by (rule siphash_nocase_lower [THEN conjunct2, THEN mp]) (simp_all add: siptlw_def)

end
