(* ===== verification/Adlist.thy ===== *)
theory Adlist
  imports Interfaces
begin

text \<open>
  \<^verbatim>\<open>redis-stable/src/adlist.c\<close>: the doubly linked list. The nodes live in a store, a map from addresses to nodes;
  a pointer is an address or \<^term>\<open>None\<close> for NULL. Following NULL or a pointer to a node that is not allocated (it was
  freed, or it never existed) is the result \<^term>\<open>None\<close> of the operation. \<^verbatim>\<open>zmalloc\<close> of a node is a function \<open>new\<close> from the
  store to an address and to what the link fields of the new node happen to hold, a parameter whose only law is that the
  address is not in use; it never returns NULL, it stops the server instead. The values handed to the free method of a list are recorded in the order they are freed.
\<close>

section \<open>Definitions\<close>

type_synonym addr = nat

record 'v listNode =
  prv :: "addr option"
  nxt :: "addr option"
  val :: 'v

record 'v store =
  nodes :: "addr \<Rightarrow> 'v listNode option"
  freed :: "'v list"

datatype direction = AL_START_HEAD | AL_START_TAIL

record listIter =
  inext :: "addr option"
  dir :: direction

record 'v alist =
  head :: "addr option"
  tail :: "addr option"
  dup :: "('v \<Rightarrow> 'v option) option"
  free :: bool
  match :: "('v \<Rightarrow> 'v \<Rightarrow> bool) option"
  len :: nat

type_synonym 'v new = "'v store \<Rightarrow> addr \<times> addr option \<times> addr option"

subsection \<open>Memory\<close>

definition node_at :: "'v store \<Rightarrow> addr option \<Rightarrow> 'v listNode option" where
  "node_at s q = (case q of None \<Rightarrow> None | Some p \<Rightarrow> nodes s p)"

definition set_node :: "'v store \<Rightarrow> addr option \<Rightarrow> ('v listNode \<Rightarrow> 'v listNode) \<Rightarrow> 'v store option" where
  "set_node s q f = (case q of None \<Rightarrow> None | Some p \<Rightarrow>
     (case nodes s p of None \<Rightarrow> None | Some n \<Rightarrow> Some (s\<lparr>nodes := (nodes s)(p := Some (f n))\<rparr>)))"

definition zmalloc_node :: "'v new \<Rightarrow> 'v \<Rightarrow> 'v store \<Rightarrow> 'v store \<times> addr" where
  "zmalloc_node new value s =
    (let (p, q, r) = new s in (s\<lparr>nodes := (nodes s)(p := Some \<lparr>prv = q, nxt = r, val = value\<rparr>)\<rparr>, p))"

definition zfree_node :: "'v store \<Rightarrow> addr \<Rightarrow> 'v store option" where
  "zfree_node s p = (if nodes s p = None then None else Some (s\<lparr>nodes := (nodes s)(p := None)\<rparr>))"

definition free_value :: "'v alist \<Rightarrow> 'v \<Rightarrow> 'v store \<Rightarrow> 'v store" where
  "free_value l v s = (if free l then s\<lparr>freed := freed s @ [v]\<rparr> else s)"

subsection \<open>Operations\<close>

definition listCreate :: "'v alist" where
  "listCreate = \<lparr>head = None, tail = None, dup = None, free = False, match = None, len = 0\<rparr>"

fun listEmpty_loop :: "'v alist \<Rightarrow> nat \<Rightarrow> addr option \<Rightarrow> 'v store \<Rightarrow> 'v store option" where
  "listEmpty_loop l 0 current s = Some s"
| "listEmpty_loop l (Suc n) current s = do {
     c \<leftarrow> node_at s current;
     let nx = nxt c;
     let s = free_value l (val c) s;
     s \<leftarrow> zfree_node s (the current);
     listEmpty_loop l n nx s
   }"

definition listEmpty :: "'v alist \<Rightarrow> 'v store \<Rightarrow> ('v alist \<times> 'v store) option" where
  "listEmpty l s = do {
     s \<leftarrow> listEmpty_loop l (len l) (head l) s;
     Some (l\<lparr>head := None, tail := None, len := 0\<rparr>, s)
   }"

text \<open>The structure itself is freed as well, so only the store is left.\<close>

definition listRelease :: "'v alist option \<Rightarrow> 'v store \<Rightarrow> 'v store option" where
  "listRelease l s = (case l of None \<Rightarrow> Some s | Some l \<Rightarrow> do { (l, s) \<leftarrow> listEmpty l s; Some s })"

definition listLinkNodeHead :: "'v alist \<Rightarrow> addr \<Rightarrow> 'v store \<Rightarrow> ('v alist \<times> 'v store) option" where
  "listLinkNodeHead l node s = do {
     (l, s) \<leftarrow>
       (if len l = 0 then do {
          let l = l\<lparr>head := Some node, tail := Some node\<rparr>;
          s \<leftarrow> set_node s (Some node) (\<lambda>n. n\<lparr>prv := None, nxt := None\<rparr>);
          Some (l, s)
        } else do {
          s \<leftarrow> set_node s (Some node) (\<lambda>n. n\<lparr>prv := None\<rparr>);
          s \<leftarrow> set_node s (Some node) (\<lambda>n. n\<lparr>nxt := head l\<rparr>);
          s \<leftarrow> set_node s (head l) (\<lambda>n. n\<lparr>prv := Some node\<rparr>);
          Some (l\<lparr>head := Some node\<rparr>, s)
        });
     Some (l\<lparr>len := len l + 1\<rparr>, s)
   }"

definition listAddNodeHead :: "'v new \<Rightarrow> 'v alist \<Rightarrow> 'v \<Rightarrow> 'v store \<Rightarrow> ('v alist \<times> 'v store) option" where
  "listAddNodeHead new l value s =
    (let (s, node) = zmalloc_node new value s in listLinkNodeHead l node s)"

definition listLinkNodeTail :: "'v alist \<Rightarrow> addr \<Rightarrow> 'v store \<Rightarrow> ('v alist \<times> 'v store) option" where
  "listLinkNodeTail l node s = do {
     (l, s) \<leftarrow>
       (if len l = 0 then do {
          let l = l\<lparr>head := Some node, tail := Some node\<rparr>;
          s \<leftarrow> set_node s (Some node) (\<lambda>n. n\<lparr>prv := None, nxt := None\<rparr>);
          Some (l, s)
        } else do {
          s \<leftarrow> set_node s (Some node) (\<lambda>n. n\<lparr>prv := tail l\<rparr>);
          s \<leftarrow> set_node s (Some node) (\<lambda>n. n\<lparr>nxt := None\<rparr>);
          s \<leftarrow> set_node s (tail l) (\<lambda>n. n\<lparr>nxt := Some node\<rparr>);
          Some (l\<lparr>tail := Some node\<rparr>, s)
        });
     Some (l\<lparr>len := len l + 1\<rparr>, s)
   }"

definition listAddNodeTail :: "'v new \<Rightarrow> 'v alist \<Rightarrow> 'v \<Rightarrow> 'v store \<Rightarrow> ('v alist \<times> 'v store) option" where
  "listAddNodeTail new l value s =
    (let (s, node) = zmalloc_node new value s in listLinkNodeTail l node s)"

definition listInsertNode ::
  "'v new \<Rightarrow> 'v alist \<Rightarrow> addr \<Rightarrow> 'v \<Rightarrow> bool \<Rightarrow> 'v store \<Rightarrow> ('v alist \<times> 'v store) option" where
  "listInsertNode new l old_node value after s = do {
     let (s, node) = zmalloc_node new value s;
     old \<leftarrow> node_at s (Some old_node);
     (l, s) \<leftarrow>
       (if after then do {
          s \<leftarrow> set_node s (Some node) (\<lambda>n. n\<lparr>prv := Some old_node, nxt := nxt old\<rparr>);
          Some (if tail l = Some old_node then l\<lparr>tail := Some node\<rparr> else l, s)
        } else do {
          s \<leftarrow> set_node s (Some node) (\<lambda>n. n\<lparr>nxt := Some old_node, prv := prv old\<rparr>);
          Some (if head l = Some old_node then l\<lparr>head := Some node\<rparr> else l, s)
        });
     n \<leftarrow> node_at s (Some node);
     s \<leftarrow> (if prv n \<noteq> None then set_node s (prv n) (\<lambda>n. n\<lparr>nxt := Some node\<rparr>) else Some s);
     n \<leftarrow> node_at s (Some node);
     s \<leftarrow> (if nxt n \<noteq> None then set_node s (nxt n) (\<lambda>n. n\<lparr>prv := Some node\<rparr>) else Some s);
     Some (l\<lparr>len := len l + 1\<rparr>, s)
   }"

definition listUnlinkNode :: "'v alist \<Rightarrow> addr \<Rightarrow> 'v store \<Rightarrow> ('v alist \<times> 'v store) option" where
  "listUnlinkNode l node s = do {
     n \<leftarrow> node_at s (Some node);
     (l, s) \<leftarrow>
       (if prv n \<noteq> None then do { s \<leftarrow> set_node s (prv n) (\<lambda>m. m\<lparr>nxt := nxt n\<rparr>); Some (l, s) }
        else Some (l\<lparr>head := nxt n\<rparr>, s));
     n \<leftarrow> node_at s (Some node);
     (l, s) \<leftarrow>
       (if nxt n \<noteq> None then do { s \<leftarrow> set_node s (nxt n) (\<lambda>m. m\<lparr>prv := prv n\<rparr>); Some (l, s) }
        else Some (l\<lparr>tail := prv n\<rparr>, s));
     s \<leftarrow> set_node s (Some node) (\<lambda>n. n\<lparr>nxt := None\<rparr>);
     s \<leftarrow> set_node s (Some node) (\<lambda>n. n\<lparr>prv := None\<rparr>);
     Some (l\<lparr>len := len l - 1\<rparr>, s)
   }"

definition listDelNode :: "'v alist \<Rightarrow> addr \<Rightarrow> 'v store \<Rightarrow> ('v alist \<times> 'v store) option" where
  "listDelNode l node s = do {
     (l, s) \<leftarrow> listUnlinkNode l node s;
     n \<leftarrow> node_at s (Some node);
     let s = free_value l (val n) s;
     s \<leftarrow> zfree_node s node;
     Some (l, s)
   }"

definition listGetIterator :: "'v alist \<Rightarrow> direction \<Rightarrow> listIter" where
  "listGetIterator l direction =
    (if direction = AL_START_HEAD then \<lparr>inext = head l, dir = direction\<rparr>
     else \<lparr>inext = tail l, dir = direction\<rparr>)"

definition listRewind :: "'v alist \<Rightarrow> listIter" where
  "listRewind l = \<lparr>inext = head l, dir = AL_START_HEAD\<rparr>"

definition listRewindTail :: "'v alist \<Rightarrow> listIter" where
  "listRewindTail l = \<lparr>inext = tail l, dir = AL_START_TAIL\<rparr>"

definition listNext :: "'v store \<Rightarrow> listIter \<Rightarrow> (listIter \<times> addr option) option" where
  "listNext s iter =
    (let current = inext iter in
     if current \<noteq> None then do {
       c \<leftarrow> node_at s current;
       Some (iter\<lparr>inext := (if dir iter = AL_START_HEAD then nxt c else prv c)\<rparr>, current)
     } else Some (iter, current))"

text \<open>Loops over an iterator: they do not end on a cyclic list, which is \<^term>\<open>None\<close> here.\<close>

partial_function (option) listDup_loop ::
  "'v new \<Rightarrow> 'v alist \<Rightarrow> listIter \<Rightarrow> 'v store \<Rightarrow> ('v alist option \<times> 'v store) option" where
  "listDup_loop new copy iter s = do {
     (iter, node) \<leftarrow> listNext s iter;
     (case node of
        None \<Rightarrow> Some (Some copy, s)
      | Some p \<Rightarrow> do {
          n \<leftarrow> node_at s node;
          (case (case dup copy of Some f \<Rightarrow> f (val n) | None \<Rightarrow> Some (val n)) of
             None \<Rightarrow> do { s \<leftarrow> listRelease (Some copy) s; Some (None, s) }
           | Some v \<Rightarrow> do {
               (copy, s) \<leftarrow> listAddNodeTail new copy v s;
               listDup_loop new copy iter s
             })
        })
   }"

definition listDup :: "'v new \<Rightarrow> 'v alist \<Rightarrow> 'v store \<Rightarrow> ('v alist option \<times> 'v store) option" where
  "listDup new orig s =
    (let copy = listCreate\<lparr>dup := dup orig, free := free orig, match := match orig\<rparr>
     in listDup_loop new copy (listRewind orig) s)"

partial_function (option) listSearchKey_loop ::
  "'v alist \<Rightarrow> 'v \<Rightarrow> listIter \<Rightarrow> 'v store \<Rightarrow> addr option option" where
  "listSearchKey_loop l key iter s = do {
     (iter, node) \<leftarrow> listNext s iter;
     (if node = None then Some None
      else do {
        n \<leftarrow> node_at s node;
        (if (case match l of Some f \<Rightarrow> f (val n) key | None \<Rightarrow> key = val n) then Some node
         else listSearchKey_loop l key iter s)
      })
   }"

definition listSearchKey :: "'v alist \<Rightarrow> 'v \<Rightarrow> 'v store \<Rightarrow> addr option option" where
  "listSearchKey l key s = listSearchKey_loop l key (listRewind l) s"

fun listIndex_loop :: "('v listNode \<Rightarrow> addr option) \<Rightarrow> nat \<Rightarrow> addr option \<Rightarrow> 'v store \<Rightarrow> addr option option" where
  "listIndex_loop step 0 n s = Some n"
| "listIndex_loop step (Suc index) n s =
    (if n = None then Some n
     else do { c \<leftarrow> node_at s n; listIndex_loop step index (step c) s })"

text \<open>Negating the smallest \<^verbatim>\<open>long\<close> is undefined.\<close>

definition listIndex :: "'v alist \<Rightarrow> int \<Rightarrow> 'v store \<Rightarrow> addr option option" where
  "listIndex l index s =
    (if index = - (2 ^ 63) then None
     else if index < 0 then listIndex_loop prv (nat ((- index) - 1)) (tail l) s
     else listIndex_loop nxt (nat index) (head l) s)"

definition listRotateTailToHead :: "'v alist \<Rightarrow> 'v store \<Rightarrow> ('v alist \<times> 'v store) option" where
  "listRotateTailToHead l s =
    (if len l \<le> 1 then Some (l, s)
     else do {
       let t = tail l;
       n \<leftarrow> node_at s t;
       let l = l\<lparr>tail := prv n\<rparr>;
       s \<leftarrow> set_node s (tail l) (\<lambda>n. n\<lparr>nxt := None\<rparr>);
       s \<leftarrow> set_node s (head l) (\<lambda>n. n\<lparr>prv := t\<rparr>);
       s \<leftarrow> set_node s t (\<lambda>n. n\<lparr>prv := None\<rparr>);
       s \<leftarrow> set_node s t (\<lambda>n. n\<lparr>nxt := head l\<rparr>);
       Some (l\<lparr>head := t\<rparr>, s)
     })"

definition listRotateHeadToTail :: "'v alist \<Rightarrow> 'v store \<Rightarrow> ('v alist \<times> 'v store) option" where
  "listRotateHeadToTail l s =
    (if len l \<le> 1 then Some (l, s)
     else do {
       let h = head l;
       n \<leftarrow> node_at s h;
       let l = l\<lparr>head := nxt n\<rparr>;
       s \<leftarrow> set_node s (head l) (\<lambda>n. n\<lparr>prv := None\<rparr>);
       s \<leftarrow> set_node s (tail l) (\<lambda>n. n\<lparr>nxt := h\<rparr>);
       s \<leftarrow> set_node s h (\<lambda>n. n\<lparr>nxt := None\<rparr>);
       s \<leftarrow> set_node s h (\<lambda>n. n\<lparr>prv := tail l\<rparr>);
       Some (l\<lparr>tail := h\<rparr>, s)
     })"

definition listJoin :: "'v alist \<Rightarrow> 'v alist \<Rightarrow> 'v store \<Rightarrow> ('v alist \<times> 'v alist \<times> 'v store) option" where
  "listJoin l o' s =
    (if len o' = 0 then Some (l, o', s)
     else do {
       s \<leftarrow> set_node s (head o') (\<lambda>n. n\<lparr>prv := tail l\<rparr>);
       (l, s) \<leftarrow>
         (if tail l \<noteq> None then do { s \<leftarrow> set_node s (tail l) (\<lambda>n. n\<lparr>nxt := head o'\<rparr>); Some (l, s) }
          else Some (l\<lparr>head := head o'\<rparr>, s));
       let l = l\<lparr>tail := tail o', len := len l + len o'\<rparr>;
       Some (l, o'\<lparr>head := None, tail := None, len := 0\<rparr>, s)
     })"

definition listInitNode :: "addr \<Rightarrow> 'v \<Rightarrow> 'v store \<Rightarrow> 'v store option" where
  "listInitNode node value s = set_node s (Some node) (\<lambda>n. n\<lparr>prv := None, nxt := None, val := value\<rparr>)"

section \<open>Representation\<close>

text \<open>
  \<open>lseg s b xs e\<close>: the pairs of \<open>xs\<close> (address and value) are nodes linked in this order, the first one pointing back
  to \<open>b\<close> and the last one forward to \<open>e\<close>.
\<close>

definition first_or :: "(addr \<times> 'v) list \<Rightarrow> addr option \<Rightarrow> addr option" where
  "first_or xs e = (case xs of [] \<Rightarrow> e | (p, v) # xs \<Rightarrow> Some p)"

definition last_or :: "addr option \<Rightarrow> (addr \<times> 'v) list \<Rightarrow> addr option" where
  "last_or b xs = (if xs = [] then b else Some (fst (last xs)))"

fun lseg :: "(addr \<Rightarrow> 'v listNode option) \<Rightarrow> addr option \<Rightarrow> (addr \<times> 'v) list \<Rightarrow> addr option \<Rightarrow> bool" where
  "lseg h b [] e \<longleftrightarrow> True"
| "lseg h b ((p, v) # xs) e \<longleftrightarrow>
    h p = Some \<lparr>prv = b, nxt = first_or xs e, val = v\<rparr> \<and> lseg h (Some p) xs e"

definition is_list :: "'v store \<Rightarrow> 'v alist \<Rightarrow> (addr \<times> 'v) list \<Rightarrow> bool" where
  "is_list s l xs \<longleftrightarrow> finite (dom (nodes s)) \<and> distinct (map fst xs) \<and> lseg (nodes s) None xs None \<and>
     head l = first_or xs None \<and> tail l = last_or None xs \<and> len l = length xs"

definition methods :: "'v alist \<Rightarrow> ('v \<Rightarrow> 'v option) option \<times> bool \<times> ('v \<Rightarrow> 'v \<Rightarrow> bool) option" where
  "methods l = (dup l, free l, match l)"

text \<open>The rest of the store is left alone.\<close>

definition same_except :: "addr set \<Rightarrow> 'v store \<Rightarrow> 'v store \<Rightarrow> bool" where
  "same_except A s s' \<longleftrightarrow> (\<forall>p. p \<notin> A \<longrightarrow> nodes s' p = nodes s p)"

definition fresh :: "'v new \<Rightarrow> bool" where
  "fresh new \<longleftrightarrow> (\<forall>s. finite (dom (nodes s)) \<longrightarrow> nodes s (fst (new s)) = None)"

definition values_freed :: "'v alist \<Rightarrow> 'v list \<Rightarrow> 'v list" where
  "values_freed l vs = (if free l then vs else [])"

lemma first_or_simps [simp]: "first_or [] e = e" "first_or (x # xs) e = Some (fst x)"
  by (simp_all add: first_or_def split: prod.splits)

lemma first_or_append [simp]: "first_or (xs @ ys) e = first_or xs (first_or ys e)"
  by (cases xs) auto

lemma last_or_simps [simp]: "last_or b [] = b" "last_or b (x # xs) = last_or (Some (fst x)) xs"
  by (simp_all add: last_or_def)

lemma last_or_append [simp]: "last_or b (xs @ ys) = last_or (last_or b xs) ys"
  by (induction xs arbitrary: b) auto

lemma last_or_eq: "last_or (Some a) xs = Some p \<Longrightarrow> p \<notin> fst ` set xs \<Longrightarrow> p = a"
  by (induction xs arbitrary: a) auto

lemma first_or_eq: "first_or xs (Some a) = Some p \<Longrightarrow> p \<notin> fst ` set xs \<Longrightarrow> p = a"
  by (cases xs) auto

lemma lseg_append [simp]:
  "lseg h b (xs @ ys) e \<longleftrightarrow> lseg h b xs (first_or ys e) \<and> lseg h (last_or b xs) ys e"
  by (induction h b xs "first_or ys e" rule: lseg.induct) auto

lemma lseg_upd [simp]: "p \<notin> fst ` set xs \<Longrightarrow> lseg (h(p := n)) b xs e = lseg h b xs e"
  by (induction h b xs e rule: lseg.induct) auto

lemma lseg_frame: "lseg h b xs e \<Longrightarrow> \<forall>p \<in> fst ` set xs. h' p = h p \<Longrightarrow> lseg h' b xs e"
  by (induction h b xs e rule: lseg.induct) auto

lemma lseg_dom: "lseg h b xs e \<Longrightarrow> p \<in> fst ` set xs \<Longrightarrow> h p \<noteq> None"
  by (induction h b xs e rule: lseg.induct) auto

lemma fresh_notin: "fresh new \<Longrightarrow> is_list s l xs \<Longrightarrow> nodes s (fst (new s)) = None \<and> fst (new s) \<notin> fst ` set xs"
  using lseg_dom unfolding fresh_def is_list_def by metis

lemma unused_notin: "nodes s p = None \<Longrightarrow> is_list s l xs \<Longrightarrow> p \<notin> fst ` set xs"
  using lseg_dom unfolding is_list_def by metis

lemma same_except_finite: "same_except A s s' \<Longrightarrow> finite A \<Longrightarrow> finite (dom (nodes s)) \<Longrightarrow> finite (dom (nodes s'))"
proof -
  assume "same_except A s s'" "finite A" "finite (dom (nodes s))"
  moreover from this(1) have "dom (nodes s') \<subseteq> A \<union> dom (nodes s)" by (auto simp: same_except_def domIff)
  ultimately show ?thesis by (meson finite_UnI finite_subset)
qed

lemmas op_defs = node_at_def set_node_def zfree_node_def free_value_def

lemma is_list_create: "finite (dom (nodes s)) \<Longrightarrow> is_list s listCreate []"
  by (simp add: is_list_def listCreate_def)

lemma link_head:
  assumes "is_list s l xs" "p \<notin> fst ` set xs" "nodes s p = Some n"
  shows "\<exists>l' s'. listLinkNodeHead l p s = Some (l', s') \<and> is_list s' l' ((p, val n) # xs) \<and> methods l' = methods l \<and>
    same_except (insert p (fst ` set xs)) s s' \<and> freed s' = freed s"
proof (cases xs)
  case Nil
  then show ?thesis using assms
    by (auto simp: listLinkNodeHead_def is_list_def op_defs methods_def same_except_def)
next
  case (Cons x ys)
  then show ?thesis using assms
    by (cases x) (auto simp: listLinkNodeHead_def is_list_def op_defs methods_def same_except_def image_iff)
qed

lemma link_tail:
  assumes "is_list s l xs" "p \<notin> fst ` set xs" "nodes s p = Some n"
  shows "\<exists>l' s'. listLinkNodeTail l p s = Some (l', s') \<and> is_list s' l' (xs @ [(p, val n)]) \<and> methods l' = methods l \<and>
    same_except (insert p (fst ` set xs)) s s' \<and> freed s' = freed s"
proof (cases xs rule: rev_cases)
  case Nil
  then show ?thesis using assms
    by (auto simp: listLinkNodeTail_def is_list_def op_defs methods_def same_except_def)
next
  case (snoc ys x)
  then show ?thesis using assms
    by (cases x) (auto simp: listLinkNodeTail_def is_list_def op_defs methods_def same_except_def)
qed

lemma unlink:
  assumes "is_list s l (ys @ (p, v) # zs)"
  shows "\<exists>l' s'. listUnlinkNode l p s = Some (l', s') \<and> is_list s' l' (ys @ zs) \<and> methods l' = methods l \<and>
    same_except (fst ` set (ys @ (p, v) # zs)) s s' \<and> freed s' = freed s \<and>
    nodes s' p = Some \<lparr>prv = None, nxt = None, val = v\<rparr>"
proof (cases ys rule: rev_cases)
  case Nil
  then show ?thesis using assms
    by (cases zs) (auto simp: listUnlinkNode_def is_list_def op_defs methods_def same_except_def)
next
  case (snoc ys' x)
  then show ?thesis using assms
    by (cases zs; cases x) (auto simp: listUnlinkNode_def is_list_def op_defs methods_def same_except_def)
qed

section \<open>Insertion and deletion\<close>

lemma add_head:
  assumes "is_list s l xs" "fresh new"
  shows "\<exists>l' s' p. listAddNodeHead new l v s = Some (l', s') \<and> is_list s' l' ((p, v) # xs) \<and> nodes s p = None \<and>
    methods l' = methods l \<and> same_except (insert p (fst ` set xs)) s s' \<and> freed s' = freed s"
proof -
  obtain p q r where n: "new s = (p, q, r)" by (cases "new s")
  define s1 where "s1 = s\<lparr>nodes := (nodes s)(p := Some \<lparr>prv = q, nxt = r, val = v\<rparr>)\<rparr>"
  have p: "nodes s p = None" "p \<notin> fst ` set xs"
    using n fresh_notin [OF assms(2,1)] by auto
  then have "is_list s1 l xs" using assms(1) by (simp add: is_list_def s1_def)
  from link_head [OF this p(2), of "\<lparr>prv = q, nxt = r, val = v\<rparr>"] show ?thesis using p n
    by (fastforce simp: listAddNodeHead_def zmalloc_node_def s1_def same_except_def)
qed

lemma add_tail:
  assumes "is_list s l xs" "fresh new"
  shows "\<exists>l' s' p. listAddNodeTail new l v s = Some (l', s') \<and> is_list s' l' (xs @ [(p, v)]) \<and> nodes s p = None \<and>
    methods l' = methods l \<and> same_except (insert p (fst ` set xs)) s s' \<and> freed s' = freed s"
proof -
  obtain p q r where n: "new s = (p, q, r)" by (cases "new s")
  define s1 where "s1 = s\<lparr>nodes := (nodes s)(p := Some \<lparr>prv = q, nxt = r, val = v\<rparr>)\<rparr>"
  have p: "nodes s p = None" "p \<notin> fst ` set xs"
    using n fresh_notin [OF assms(2,1)] by auto
  then have "is_list s1 l xs" using assms(1) by (simp add: is_list_def s1_def)
  from link_tail [OF this p(2), of "\<lparr>prv = q, nxt = r, val = v\<rparr>"] show ?thesis using p n
    by (fastforce simp: listAddNodeTail_def zmalloc_node_def s1_def same_except_def)
qed

lemma insert_after:
  assumes "is_list s l (ys @ (p, v) # zs)" "nodes s (fst (new s)) = None"
  shows "\<exists>l' s' n. listInsertNode new l p w True s = Some (l', s') \<and> is_list s' l' (ys @ (p, v) # (n, w) # zs) \<and>
    nodes s n = None \<and> methods l' = methods l \<and> freed s' = freed s"
proof -
  obtain n q r where n: "new s = (n, q, r)" by (cases "new s")
  have f: "nodes s n = None" "n \<notin> fst ` set ys" "n \<notin> fst ` set zs" "n \<noteq> p"
    using n assms(2) unused_notin [OF assms(2,1)] by auto
  show ?thesis using assms n f
    by (cases zs) (auto simp: listInsertNode_def zmalloc_node_def is_list_def op_defs methods_def dest: last_or_eq)
qed

lemma insert_before:
  assumes "is_list s l (ys @ (p, v) # zs)" "nodes s (fst (new s)) = None"
  shows "\<exists>l' s' n. listInsertNode new l p w False s = Some (l', s') \<and> is_list s' l' (ys @ (n, w) # (p, v) # zs) \<and>
    nodes s n = None \<and> methods l' = methods l \<and> freed s' = freed s"
proof -
  obtain n q r where n: "new s = (n, q, r)" by (cases "new s")
  have f: "nodes s n = None" "n \<notin> fst ` set ys" "n \<notin> fst ` set zs" "n \<noteq> p"
    using n assms(2) unused_notin [OF assms(2,1)] by auto
  show ?thesis using assms n f
    by (cases ys rule: rev_cases) (auto simp: listInsertNode_def zmalloc_node_def is_list_def op_defs methods_def
        dest: first_or_eq)
qed

lemma del_node:
  assumes "is_list s l (ys @ (p, v) # zs)"
  shows "\<exists>l' s'. listDelNode l p s = Some (l', s') \<and> is_list s' l' (ys @ zs) \<and> nodes s' p = None \<and>
    methods l' = methods l \<and> same_except (fst ` set (ys @ (p, v) # zs)) s s' \<and>
    freed s' = freed s @ values_freed l [v]"
proof -
  obtain l' s' where u: "listUnlinkNode l p s = Some (l', s')" "is_list s' l' (ys @ zs)" "methods l' = methods l"
    "same_except (fst ` set (ys @ (p, v) # zs)) s s'" "freed s' = freed s"
    "nodes s' p = Some \<lparr>prv = None, nxt = None, val = v\<rparr>" using unlink [OF assms] by blast
  have "p \<notin> fst ` set ys" "p \<notin> fst ` set zs" using assms by (auto simp: is_list_def)
  then show ?thesis using u
    by (auto simp: listDelNode_def op_defs is_list_def methods_def values_freed_def same_except_def)
qed

lemma empty_loop:
  "lseg (nodes s) b xs e \<Longrightarrow> distinct (map fst xs) \<Longrightarrow> \<exists>s'. listEmpty_loop l (length xs) (first_or xs e) s = Some s' \<and>
    (\<forall>p \<in> fst ` set xs. nodes s' p = None) \<and> same_except (fst ` set xs) s s' \<and>
    freed s' = freed s @ values_freed l (map snd xs)"
proof (induction xs arbitrary: b s)
  case (Cons x xs)
  obtain p v where x: "x = (p, v)" by (cases x)
  define s1 where "s1 = (free_value l v s)\<lparr>nodes := (nodes s)(p := None)\<rparr>"
  have s1: "lseg (nodes s1) (Some p) xs e" "freed s1 = freed s @ values_freed l [v]"
    using Cons.prems x by (auto simp: s1_def free_value_def values_freed_def)
  obtain s' where "listEmpty_loop l (length xs) (first_or xs e) s1 = Some s'" "\<forall>q \<in> fst ` set xs. nodes s' q = None"
    "same_except (fst ` set xs) s1 s'" "freed s' = freed s1 @ values_freed l (map snd xs)"
    using Cons.IH [OF s1(1)] Cons.prems by auto
  moreover have "p \<notin> fst ` set xs" using Cons.prems x by auto
  moreover have "listEmpty_loop l (length (x # xs)) (first_or (x # xs) e) s =
    listEmpty_loop l (length xs) (first_or xs e) s1"
    using Cons.prems x by (simp add: node_at_def zfree_node_def s1_def free_value_def)
  ultimately show ?case using s1(2) x
    by (auto simp: same_except_def values_freed_def s1_def)
qed (simp add: same_except_def values_freed_def)

lemma empty_list:
  assumes "is_list s l xs"
  shows "\<exists>l' s'. listEmpty l s = Some (l', s') \<and> is_list s' l' [] \<and> (\<forall>p \<in> fst ` set xs. nodes s' p = None) \<and>
    methods l' = methods l \<and> same_except (fst ` set xs) s s' \<and> freed s' = freed s @ values_freed l (map snd xs)"
  using assms empty_loop [of s None xs None l]
  by (auto simp: listEmpty_def is_list_def methods_def dest: same_except_finite [OF _ finite_imageI [OF finite_set]])

section \<open>Traversal\<close>

lemma search_loop:
  assumes "lseg (nodes s) b xs None"
  shows "listSearchKey_loop l key \<lparr>inext = first_or xs None, dir = AL_START_HEAD\<rparr> s =
    Some (map_option fst (find (\<lambda>x. case match l of Some f \<Rightarrow> f (snd x) key | None \<Rightarrow> key = snd x) xs))"
  using assms
proof (induction xs arbitrary: b)
  case Nil
  then show ?case by (subst listSearchKey_loop.simps) (simp add: listNext_def)
next
  case (Cons x xs)
  obtain p v where x: "x = (p, v)" by (cases x)
  show ?case using Cons x
    by (subst listSearchKey_loop.simps) (auto simp: listNext_def node_at_def split: option.splits)
qed

lemma index_fwd: "lseg (nodes s) b xs e \<Longrightarrow> i \<le> length xs \<Longrightarrow>
  listIndex_loop nxt i (first_or xs e) s = Some (first_or (drop i xs) e)"
proof (induction xs arbitrary: b i)
  case (Cons x xs)
  then show ?case by (cases i; cases x) (auto simp: node_at_def)
qed simp

lemma index_bwd: "lseg (nodes s) b xs e \<Longrightarrow> i \<le> length xs \<Longrightarrow>
  listIndex_loop prv i (last_or b xs) s = Some (last_or b (take (length xs - i) xs))"
proof (induction xs arbitrary: e i rule: rev_induct)
  case (snoc x xs)
  then show ?case by (cases i; cases x) (auto simp: node_at_def)
qed simp

lemma index_null: "listIndex_loop step i None s = Some None"
  by (cases i) auto

lemma index_loop_add:
  "listIndex_loop step i n s = Some n' \<Longrightarrow> listIndex_loop step (i + j) n s = listIndex_loop step j n' s"
  by (induction step i n s rule: listIndex_loop.induct) (auto split: if_splits option.splits bind_splits simp: index_null)

lemma index_list:
  assumes "is_list s l xs" "i \<noteq> - (2 ^ 63)"
  shows "listIndex l i s = Some (
    if 0 \<le> i then (if nat i < length xs then Some (fst (xs ! nat i)) else None)
    else (if nat (- i) \<le> length xs then Some (fst (xs ! (length xs - nat (- i)))) else None))"
proof -
  have seg: "lseg (nodes s) None xs None" "head l = first_or xs None" "tail l = last_or None xs"
    using assms(1) by (auto simp: is_list_def)
  have past: "listIndex_loop step j n s = Some None"
    if "listIndex_loop step (length xs) n s = Some None" "length xs \<le> j" for step j n
    using index_loop_add [OF that(1), of "j - length xs"] that(2) by (simp add: index_null)
  show ?thesis
  proof (cases "0 \<le> i")
    case True
    then have "listIndex_loop nxt (nat i) (head l) s = Some (if nat i < length xs then Some (fst (xs ! nat i)) else None)"
      using index_fwd [OF seg(1), of "nat i"] past [of nxt "head l"] index_fwd [OF seg(1), of "length xs"] seg(2)
      by (auto simp: Cons_nth_drop_Suc [symmetric])
    then show ?thesis using True assms(2) by (simp add: listIndex_def)
  next
    case False
    define k where "k = nat (- i - 1)"
    have k: "nat (- i) = Suc k" using False by (simp add: k_def)
    have "listIndex_loop prv k (tail l) s = Some (if Suc k \<le> length xs then Some (fst (xs ! (length xs - Suc k))) else None)"
      using index_bwd [OF seg(1), of k] past [of prv "tail l" k] index_bwd [OF seg(1), of "length xs"] seg(3)
      by (auto simp: last_or_def last_conv_nth)
    then show ?thesis using False k assms(2) by (simp add: listIndex_def k_def)
  qed
qed

section \<open>Whole lists\<close>

lemma rotate_tail_head:
  assumes "is_list s l (xs @ [x])"
  shows "\<exists>l' s'. listRotateTailToHead l s = Some (l', s') \<and> is_list s' l' (x # xs) \<and> methods l' = methods l \<and>
    same_except (fst ` set (x # xs)) s s' \<and> freed s' = freed s"
proof (cases xs rule: rev_cases)
  case Nil
  then show ?thesis using assms by (simp add: listRotateTailToHead_def is_list_def same_except_def)
next
  case (snoc ys y)
  then show ?thesis using assms
    by (cases ys; cases x; cases y)
      (auto simp: listRotateTailToHead_def Let_def is_list_def op_defs methods_def same_except_def)
qed

lemma rotate_head_tail:
  assumes "is_list s l (x # xs)"
  shows "\<exists>l' s'. listRotateHeadToTail l s = Some (l', s') \<and> is_list s' l' (xs @ [x]) \<and> methods l' = methods l \<and>
    same_except (fst ` set (x # xs)) s s' \<and> freed s' = freed s"
proof (cases xs rule: rev_cases)
  case Nil
  then show ?thesis using assms by (simp add: listRotateHeadToTail_def is_list_def same_except_def)
next
  case (snoc ys y)
  then show ?thesis using assms
    by (cases ys; cases x; cases y)
      (auto simp: listRotateHeadToTail_def Let_def is_list_def op_defs methods_def same_except_def)
qed

lemma join_lists:
  assumes "is_list s l xs" "is_list s m ys" "fst ` set xs \<inter> fst ` set ys = {}"
  shows "\<exists>l' m' s'. listJoin l m s = Some (l', m', s') \<and> is_list s' l' (xs @ ys) \<and> is_list s' m' [] \<and>
    methods l' = methods l \<and> methods m' = methods m \<and> same_except (fst ` set (xs @ ys)) s s' \<and> freed s' = freed s"
proof (cases ys)
  case Nil
  then show ?thesis using assms by (auto simp: listJoin_def is_list_def same_except_def)
next
  case (Cons y zs)
  then show ?thesis using assms
    by (cases xs rule: rev_cases; cases y)
      (auto simp: listJoin_def is_list_def op_defs methods_def same_except_def)
qed

definition dup_val :: "'v alist \<Rightarrow> 'v \<Rightarrow> 'v option" where
  "dup_val l v = (case dup l of Some f \<Rightarrow> f v | None \<Rightarrow> Some v)"

lemma dup_loop:
  assumes "fresh new" "is_list s copy zs" "lseg (nodes s) b ys None"
    "A \<inter> fst ` set zs = {}" "fst ` set ys \<subseteq> A" "\<forall>a \<in> A. nodes s a \<noteq> None"
  shows "\<exists>r s'. listDup_loop new copy \<lparr>inext = first_or ys None, dir = AL_START_HEAD\<rparr> s = Some (r, s') \<and>
    finite (dom (nodes s')) \<and> (\<forall>a \<in> A. nodes s' a = nodes s a) \<and>
    (case those (map (dup_val copy) (map snd ys)) of
       None \<Rightarrow> r = None
     | Some vs \<Rightarrow> \<exists>l' ws. r = Some l' \<and> methods l' = methods copy \<and> is_list s' l' (zs @ ws) \<and> map snd ws = vs \<and>
         A \<inter> fst ` set ws = {})"
  using assms
proof (induction ys arbitrary: s copy zs b)
  case Nil
  then show ?case by (subst listDup_loop.simps) (auto simp: listNext_def is_list_def)
next
  case (Cons y ys)
  obtain p v where y: "y = (p, v)" by (cases y)
  have n: "nodes s p = Some \<lparr>prv = b, nxt = first_or ys None, val = v\<rparr>" using Cons.prems(3) y by simp
  note step = listDup_loop.simps [of new copy "\<lparr>inext = first_or (y # ys) None, dir = AL_START_HEAD\<rparr>" s]
  show ?case
  proof (cases "dup_val copy v")
    case None
    obtain l' s' where e: "listEmpty copy s = Some (l', s')" "same_except (fst ` set zs) s s'" "is_list s' l' []"
      using empty_list [OF Cons.prems(2)] by blast
    have "\<forall>a \<in> A. nodes s' a = nodes s a" "finite (dom (nodes s'))"
      using e(2,3) Cons.prems(4) by (auto simp: same_except_def is_list_def)
    then show ?thesis using None e y n
      by (subst step) (auto simp: listNext_def node_at_def dup_val_def listRelease_def split: option.splits)
  next
    case (Some w)
    obtain l1 s1 q where a: "listAddNodeTail new copy w s = Some (l1, s1)" "is_list s1 l1 (zs @ [(q, w)])"
      "nodes s q = None" "methods l1 = methods copy" "same_except (insert q (fst ` set zs)) s s1"
      using add_tail [OF Cons.prems(2,1), of w] by blast
    have q: "q \<notin> A" using a(3) Cons.prems(6) by blast
    have A: "\<forall>a \<in> A. nodes s1 a = nodes s a" using a(5) q Cons.prems(4) by (auto simp: same_except_def)
    have seg: "lseg (nodes s1) (Some p) ys None"
      using Cons.prems(3,5) A y by (auto intro!: lseg_frame [of "nodes s"])
    have d: "dup_val l1 = dup_val copy" using a(4) by (simp add: dup_val_def methods_def fun_eq_iff)
    from Cons.IH [OF Cons.prems(1) a(2) seg] q A Cons.prems(4,5,6) y
    obtain r s' where r: "listDup_loop new l1 \<lparr>inext = first_or ys None, dir = AL_START_HEAD\<rparr> s1 = Some (r, s')"
      "finite (dom (nodes s')) \<and> (\<forall>a \<in> A. nodes s' a = nodes s1 a)"
      "case those (map (dup_val l1) (map snd ys)) of None \<Rightarrow> r = None
       | Some vs \<Rightarrow> \<exists>l' ws. r = Some l' \<and> methods l' = methods l1 \<and> is_list s' l' ((zs @ [(q, w)]) @ ws) \<and>
           map snd ws = vs \<and> A \<inter> fst ` set ws = {}" by auto
    have l: "listDup_loop new copy \<lparr>inext = first_or (y # ys) None, dir = AL_START_HEAD\<rparr> s = Some (r, s')"
      using Some n y a(1) r(1) by (subst step) (simp add: listNext_def node_at_def dup_val_def split: option.splits)
    show ?thesis
    proof (cases "those (map (dup_val l1) (map snd ys))")
      case None
      then show ?thesis using l r A d Some y by auto
    next
      case (Some vs)
      then obtain l' ws where w: "r = Some l'" "methods l' = methods l1" "is_list s' l' ((zs @ [(q, w)]) @ ws)"
        "map snd ws = vs" "A \<inter> fst ` set ws = {}" using r(3) by auto
      have t: "those (map (dup_val copy) (map snd (y # ys))) = Some (w # vs)" using Some \<open>dup_val copy v = Some w\<close> d y by simp
      have "r = Some l' \<and> methods l' = methods copy \<and> is_list s' l' (zs @ (q, w) # ws) \<and> map snd ((q, w) # ws) = w # vs \<and>
        A \<inter> fst ` set ((q, w) # ws) = {}" using w a(4) q by simp
      then have "\<exists>l' ws. r = Some l' \<and> methods l' = methods copy \<and> is_list s' l' (zs @ ws) \<and> map snd ws = w # vs \<and>
        A \<inter> fst ` set ws = {}" by (intro exI)
      moreover have "finite (dom (nodes s'))" "\<forall>a \<in> A. nodes s' a = nodes s a" using r(2) A by simp_all
      ultimately show ?thesis unfolding t option.case
        by (intro exI [of _ r] exI [of _ s'] conjI [OF l] conjI) assumption+
    qed
  qed
qed

lemma dup_list:
  assumes "fresh new" "is_list s l xs"
  shows "\<exists>r s'. listDup new l s = Some (r, s') \<and> is_list s' l xs \<and>
    (case those (map (dup_val l) (map snd xs)) of
       None \<Rightarrow> r = None
     | Some vs \<Rightarrow> \<exists>l' ys. r = Some l' \<and> methods l' = methods l \<and> is_list s' l' ys \<and> map snd ys = vs \<and>
         fst ` set xs \<inter> fst ` set ys = {})"
proof -
  let ?c = "listCreate\<lparr>dup := dup l, free := free l, match := match l\<rparr> :: 'a alist"
  have xs: "distinct (map fst xs)" "lseg (nodes s) None xs None" "head l = first_or xs None"
    using assms(2) by (auto simp: is_list_def)
  have c: "is_list s ?c []" "methods ?c = methods l" "dup_val ?c = dup_val l"
    using assms(2) by (simp_all add: is_list_def listCreate_def methods_def dup_val_def fun_eq_iff)
  have a: "\<forall>a \<in> fst ` set xs. nodes s a \<noteq> None" using lseg_dom [OF xs(2)] by blast
  have e: "fst ` set xs \<inter> fst ` set [] = {}" by simp
  have "\<exists>r s'. listDup_loop new ?c \<lparr>inext = first_or xs None, dir = AL_START_HEAD\<rparr> s = Some (r, s') \<and>
    finite (dom (nodes s')) \<and> (\<forall>a \<in> fst ` set xs. nodes s' a = nodes s a) \<and>
    (case those (map (dup_val l) (map snd xs)) of None \<Rightarrow> r = None
     | Some vs \<Rightarrow> \<exists>l' ys. r = Some l' \<and> methods l' = methods l \<and> is_list s' l' ys \<and> map snd ys = vs \<and>
         fst ` set xs \<inter> fst ` set ys = {})"
    by (rule dup_loop [OF assms(1) c(1) xs(2) _ subset_refl, unfolded c(2,3) append_Nil, OF e a])
  then obtain r s' where
    r: "listDup_loop new ?c \<lparr>inext = first_or xs None, dir = AL_START_HEAD\<rparr> s = Some (r, s')"
      "finite (dom (nodes s'))" "\<forall>a \<in> fst ` set xs. nodes s' a = nodes s a"
      "case those (map (dup_val l) (map snd xs)) of None \<Rightarrow> r = None
       | Some vs \<Rightarrow> \<exists>l' ys. r = Some l' \<and> methods l' = methods l \<and> is_list s' l' ys \<and> map snd ys = vs \<and>
         fst ` set xs \<inter> fst ` set ys = {}" by (elim exE conjE) (rule that; assumption)
  have "is_list s' l xs" using assms(2) r(2,3) by (auto simp: is_list_def intro: lseg_frame)
  then show ?thesis using r xs(3) by (auto simp: listDup_def listRewind_def)
qed

section \<open>The list as a double-ended queue\<close>

text \<open>The values of a list, read by walking it.\<close>

fun walk :: "'v store \<Rightarrow> nat \<Rightarrow> addr option \<Rightarrow> 'v list" where
  "walk s 0 q = []"
| "walk s (Suc n) q = (case node_at s q of None \<Rightarrow> [] | Some c \<Rightarrow> val c # walk s n (nxt c))"

definition list_values :: "'v alist \<times> 'v store \<Rightarrow> 'v list" where
  "list_values = (\<lambda>(l, s). walk s (len l) (head l))"

lemma walk_seg: "lseg (nodes s) b xs e \<Longrightarrow> walk s (length xs) (first_or xs e) = map snd xs"
proof (induction xs arbitrary: b)
  case (Cons x xs)
  then show ?case by (cases x) (auto simp: node_at_def)
qed simp

lemma list_values_eq: "is_list s l xs \<Longrightarrow> list_values (l, s) = map snd xs"
  using walk_seg [of s None xs None] by (simp add: list_values_def is_list_def)

definition list_inv :: "'v new \<Rightarrow> 'v alist \<times> 'v store \<Rightarrow> bool" where
  "list_inv new = (\<lambda>(l, s). fresh new \<and> (\<exists>xs. is_list s l xs))"

definition push_head :: "'v new \<Rightarrow> 'v alist \<times> 'v store \<Rightarrow> 'v \<Rightarrow> ('v alist \<times> 'v store) option" where
  "push_head new = (\<lambda>(l, s) v. listAddNodeHead new l v s)"

definition push_tail :: "'v new \<Rightarrow> 'v alist \<times> 'v store \<Rightarrow> 'v \<Rightarrow> ('v alist \<times> 'v store) option" where
  "push_tail new = (\<lambda>(l, s) v. listAddNodeTail new l v s)"

definition del_first :: "'v alist \<times> 'v store \<Rightarrow> ('v alist \<times> 'v store) option" where
  "del_first = (\<lambda>(l, s). case head l of None \<Rightarrow> None | Some p \<Rightarrow> listDelNode l p s)"

definition del_last :: "'v alist \<times> 'v store \<Rightarrow> ('v alist \<times> 'v store) option" where
  "del_last = (\<lambda>(l, s). case tail l of None \<Rightarrow> None | Some p \<Rightarrow> listDelNode l p s)"

lemma list_inv_size: "list_inv new st \<Longrightarrow> len (fst st) = length (list_values st)"
  using list_values_eq by (fastforce simp: list_inv_def is_list_def split: prod.splits)

lemma del_first_values:
  assumes "list_inv new st" "list_values st \<noteq> []"
  shows "\<exists>st'. del_first st = Some st' \<and> list_inv new st' \<and> list_values st' = tl (list_values st)"
proof -
  obtain l s where st: "st = (l, s)" by (cases st)
  from assms(1) obtain xs where xs: "is_list s l xs" and f: "fresh new" by (auto simp: st list_inv_def)
  from assms(2) have "xs \<noteq> []" using list_values_eq [OF xs] by (auto simp: st)
  then obtain p v ys where c: "xs = [] @ (p, v) # ys" by (cases xs) auto
  have "head l = Some p" using xs c by (simp add: is_list_def)
  then show ?thesis using del_node [OF xs [unfolded c]] f list_values_eq [OF xs] c
    by (auto simp: st del_first_def list_inv_def dest: list_values_eq)
qed

lemma del_last_values:
  assumes "list_inv new st" "list_values st \<noteq> []"
  shows "\<exists>st'. del_last st = Some st' \<and> list_inv new st' \<and> list_values st' = butlast (list_values st)"
proof -
  obtain l s where st: "st = (l, s)" by (cases st)
  from assms(1) obtain xs where xs: "is_list s l xs" and f: "fresh new" by (auto simp: st list_inv_def)
  from assms(2) have "xs \<noteq> []" using list_values_eq [OF xs] by (auto simp: st)
  then obtain p v ys where c: "xs = ys @ (p, v) # []" by (cases xs rule: rev_cases) auto
  have "tail l = Some p" using xs c by (simp add: is_list_def)
  then show ?thesis using del_node [OF xs [unfolded c]] f list_values_eq [OF xs] c
    by (auto simp: st del_last_def list_inv_def dest: list_values_eq)
qed

lemma list_invI: "is_list s l xs \<Longrightarrow> fresh new \<Longrightarrow> list_inv new (l, s) \<and> list_values (l, s) = map snd xs"
  using list_values_eq by (auto simp: list_inv_def)

lemma push_values:
  assumes "list_inv new st"
  shows "\<exists>st'. push_head new st v = Some st' \<and> list_inv new st' \<and> list_values st' = v # list_values st"
    and "\<exists>st'. push_tail new st v = Some st' \<and> list_inv new st' \<and> list_values st' = list_values st @ [v]"
proof -
  obtain l s where st: "st = (l, s)" by (cases st)
  from assms obtain xs where xs: "is_list s l xs" and f: "fresh new" by (auto simp: st list_inv_def)
  obtain l' s' p where h: "listAddNodeHead new l v s = Some (l', s')" "is_list s' l' ((p, v) # xs)"
    using add_head [OF xs f] by blast
  then show "\<exists>st'. push_head new st v = Some st' \<and> list_inv new st' \<and> list_values st' = v # list_values st"
    using list_invI [OF h(2) f] list_invI [OF xs f] by (simp add: st push_head_def)
  obtain l' s' p where t: "listAddNodeTail new l v s = Some (l', s')" "is_list s' l' (xs @ [(p, v)])"
    using add_tail [OF xs f] by blast
  then show "\<exists>st'. push_tail new st v = Some st' \<and> list_inv new st' \<and> list_values st' = list_values st @ [v]"
    using list_invI [OF t(2) f] list_invI [OF xs f] by (simp add: st push_tail_def)
qed

interpretation adl: deque "push_head new" "push_tail new" del_first del_last "\<lambda>st. len (fst st)" list_values "list_inv new"
  for new :: "'v new"
  by unfold_locales (rule list_inv_size push_values del_first_values del_last_values; assumption)+

section \<open>Properties\<close>

text \<open>The allocator that takes the lowest address not in use, and two lists in one store.\<close>

definition lowest_new :: "'v new" where
  "lowest_new s = (LEAST p. nodes s p = None, None, None)"

lemma fresh_lowest: "fresh lowest_new"
  unfolding fresh_def lowest_new_def fst_conv
  using ex_new_if_finite [OF infinite_UNIV_nat] by (metis (mono_tags, lifting) LeastI domIff)

definition demo_store :: "nat store" where
  "demo_store = \<lparr>nodes = [1 \<mapsto> \<lparr>prv = None, nxt = Some 2, val = 10\<rparr>, 2 \<mapsto> \<lparr>prv = Some 1, nxt = Some 3, val = 20\<rparr>,
     3 \<mapsto> \<lparr>prv = Some 2, nxt = None, val = 30\<rparr>, 5 \<mapsto> \<lparr>prv = None, nxt = None, val = 50\<rparr>], freed = []\<rparr>"

definition demo_list :: "nat alist" where
  "demo_list = \<lparr>head = Some 1, tail = Some 3, dup = None, free = True, match = None, len = 3\<rparr>"

definition demo_list2 :: "nat alist" where
  "demo_list2 = \<lparr>head = Some 5, tail = Some 5, dup = None, free = True, match = None, len = 1\<rparr>"

lemma demo_lists: "is_list demo_store demo_list [(1, 10), (2, 20), (3, 30)]" "is_list demo_store demo_list2 [(5, 50)]"
  by (simp_all add: is_list_def demo_store_def demo_list_def demo_list2_def)

text \<open>
  C12. \<^verbatim>\<open>listDelNode\<close> of any node of a well-linked list succeeds without following a NULL or dangling pointer, leaves a
  well-linked list of the other nodes in their order, frees the node and exactly its value, and touches no node
  outside the list.
\<close>

theorem listDelNode_list:
  assumes "is_list s l (ys @ (p, v) # zs)"
  shows "\<exists>l' s'. listDelNode l p s = Some (l', s') \<and> is_list s' l' (ys @ zs) \<and> nodes s' p = None \<and>
    methods l' = methods l \<and> (\<forall>q. q \<notin> fst ` set (ys @ (p, v) # zs) \<longrightarrow> nodes s' q = nodes s q) \<and>
    freed s' = freed s @ (if free l then [v] else [])"
  using del_node [OF assms] unfolding same_except_def values_freed_def .

theorem listDelNode_list_witness:
  "\<exists>l' s'. listDelNode demo_list 2 demo_store = Some (l', s') \<and> is_list s' l' [(1, 10), (3, 30)] \<and> freed s' = [20]"
  using listDelNode_list [of demo_store demo_list "[(1, 10)]" 2 20 "[(3, 30)]"] demo_lists(1)
  by (auto simp: demo_list_def demo_store_def)

text \<open>
  C24. \<^verbatim>\<open>listInsertNode\<close> puts the new value directly after or before the given node of a well-linked list, at the ends
  as well as inside, and the result is well linked in both directions.
\<close>

theorem listInsertNode_list:
  assumes "is_list s l (ys @ (p, v) # zs)" "nodes s (fst (new s)) = None"
  shows "\<exists>l' s' n. listInsertNode new l p w after s = Some (l', s') \<and> nodes s n = None \<and> methods l' = methods l \<and>
    freed s' = freed s \<and>
    is_list s' l' (if after then ys @ (p, v) # (n, w) # zs else ys @ (n, w) # (p, v) # zs)"
  using insert_after [OF assms(1), of new w] insert_before [OF assms(1), of new w] assms(2) by (cases after) fastforce+

theorem listInsertNode_list_witness:
  "\<exists>l' s' n. listInsertNode (\<lambda>_. (9, Some 4, None)) demo_list 3 35 True demo_store = Some (l', s') \<and>
    is_list s' l' [(1, 10), (2, 20), (3, 30), (n, 35)]"
  using listInsertNode_list [of demo_store demo_list "[(1, 10), (2, 20)]" 3 30 "[]" "\<lambda>_. (9, Some 4, None)" 35 True]
    demo_lists(1) by (auto simp: demo_store_def)

text \<open>
  \<^verbatim>\<open>listJoin\<close> appends the nodes of the second list to the first and leaves the second empty but valid, in
  constant time and whichever of the two was empty.
\<close>

theorem listJoin_list:
  assumes "is_list s l xs" "is_list s m ys" "fst ` set xs \<inter> fst ` set ys = {}"
  shows "\<exists>l' m' s'. listJoin l m s = Some (l', m', s') \<and> is_list s' l' (xs @ ys) \<and> is_list s' m' [] \<and>
    methods l' = methods l \<and> methods m' = methods m"
  using join_lists [OF assms] by blast

theorem listJoin_list_witness:
  "\<exists>l' m' s'. listJoin demo_list demo_list2 demo_store = Some (l', m', s') \<and>
    is_list s' l' [(1, 10), (2, 20), (3, 30), (5, 50)]"
  using listJoin_list [OF demo_lists] by auto

text \<open>
  C27. \<^verbatim>\<open>listDup\<close> always returns, never changes the original, and its copy has the duplicated values in the same order
  in nodes of its own; when the dup method fails for one value the result is NULL.
\<close>

theorem listDup_list:
  assumes "fresh new" "is_list s l xs"
  shows "\<exists>r s'. listDup new l s = Some (r, s') \<and> is_list s' l xs \<and>
    (case those (map (dup_val l) (map snd xs)) of
       None \<Rightarrow> r = None
     | Some vs \<Rightarrow> \<exists>l' ys. r = Some l' \<and> methods l' = methods l \<and> is_list s' l' ys \<and> map snd ys = vs \<and>
         fst ` set xs \<inter> fst ` set ys = {})"
  by (rule dup_list [OF assms])

theorem listDup_list_witness:
  "\<exists>l' s' ys. listDup lowest_new demo_list demo_store = Some (Some l', s') \<and> is_list s' l' ys \<and> map snd ys = [10, 20, 30]"
proof -
  have t: "those (map (dup_val demo_list) (map snd [(1 :: nat, 10), (2, 20), (3, 30)])) = Some [10, 20, 30]"
    by (simp add: dup_val_def demo_list_def)
  obtain r s' l' ys where "listDup lowest_new demo_list demo_store = Some (r, s')" "r = Some l'" "is_list s' l' ys"
    "map snd ys = [10, 20, 30]"
    using listDup_list [OF fresh_lowest demo_lists(1), unfolded t option.case] by (elim exE conjE) (rule that; assumption)
  then show ?thesis by (intro exI [of _ l'] exI [of _ s'] exI [of _ ys]) (simp only: simp_thms)
qed

text \<open>
  \<^verbatim>\<open>listIndex\<close> is the element at that position, counted from the tail for negative positions, and NULL outside;
  \<^verbatim>\<open>listSearchKey\<close> terminates and returns the first node whose value matches.
\<close>

theorem listIndex_listSearchKey:
  assumes "is_list s l xs"
  shows "(i \<noteq> - (2 ^ 63) \<longrightarrow> listIndex l i s = Some (
      if 0 \<le> i then (if nat i < length xs then Some (fst (xs ! nat i)) else None)
      else (if nat (- i) \<le> length xs then Some (fst (xs ! (length xs - nat (- i)))) else None))) \<and>
    listSearchKey l key s =
      Some (map_option fst (find (\<lambda>x. case match l of Some f \<Rightarrow> f (snd x) key | None \<Rightarrow> key = snd x) xs))"
proof -
  have "lseg (nodes s) None xs None" "head l = first_or xs None" using assms by (simp_all add: is_list_def)
  then show ?thesis using index_list [OF assms] search_loop [of s None xs l key]
    by (simp add: listSearchKey_def listRewind_def)
qed

theorem listIndex_listSearchKey_witness:
  "listIndex demo_list (- 1) demo_store = Some (Some 3) \<and> listSearchKey demo_list 20 demo_store = Some (Some 2)"
  using listIndex_listSearchKey [OF demo_lists(1), of "- 1" 20] by (simp add: demo_list_def)

end
