(* ===== verification/Slowlog.thy ===== *)
theory Slowlog
  imports Adlist Util
begin

text \<open>
  \<^verbatim>\<open>redis-stable/src/slowlog.c\<close>: the log of slow commands, a client of the linked list. An entry keeps at most 32
  arguments and 128 bytes of each; the log keeps the newest \<^verbatim>\<open>slowlog-max-len\<close> entries, newest first. A string object is
  its value and whether it is shared; the address of the client and the time are arguments of the operations.
\<close>

section \<open>Definitions\<close>

abbreviation SLOWLOG_ENTRY_MAX_ARGC :: nat where "SLOWLOG_ENTRY_MAX_ARGC \<equiv> 32"
abbreviation SLOWLOG_ENTRY_MAX_STRING :: nat where "SLOWLOG_ENTRY_MAX_STRING \<equiv> 128"

datatype strval = Raw bytes | EncInt int

record robj =
  sval :: strval
  shared :: bool

record slowlogEntry =
  argv :: "robj list"
  argc :: nat
  id :: int
  duration :: int
  time :: int
  cname :: bytes
  peerid :: bytes

record slclient =
  name :: "bytes option"
  peer :: bytes

record slserver =
  slowlog :: "slowlogEntry alist \<times> slowlogEntry store"
  slowlog_entry_id :: int
  slowlog_log_slower_than :: int
  slowlog_max_len :: nat

definition createStringObject :: "bytes \<Rightarrow> robj" where
  "createStringObject b = \<lparr>sval = Raw b, shared = False\<rparr>"

definition dupStringObject :: "robj \<Rightarrow> robj" where
  "dupStringObject o' = \<lparr>sval = sval o', shared = False\<rparr>"

text \<open>What an entry keeps of the argument \<open>j\<close>.\<close>

definition slowlog_arg :: "robj list \<Rightarrow> nat \<Rightarrow> nat \<Rightarrow> nat \<Rightarrow> robj" where
  "slowlog_arg av ac slargc j =
    (if slargc \<noteq> ac \<and> j = slargc - 1 then
       createStringObject (ascii ''... ('' @ dec (ac - slargc + 1) @ ascii '' more arguments)'')
     else
       (case sval (av ! j) of
          Raw s \<Rightarrow>
            (if length s > SLOWLOG_ENTRY_MAX_STRING then
               createStringObject (take SLOWLOG_ENTRY_MAX_STRING s @
                 ascii ''... ('' @ dec (length s - SLOWLOG_ENTRY_MAX_STRING) @ ascii '' more bytes)'')
             else if shared (av ! j) then av ! j
             else dupStringObject (av ! j))
        | EncInt _ \<Rightarrow> (if shared (av ! j) then av ! j else dupStringObject (av ! j))))"

definition slowlogCreateEntry :: "slclient \<Rightarrow> robj list \<Rightarrow> int \<Rightarrow> int \<Rightarrow> slserver \<Rightarrow> slowlogEntry \<times> slserver" where
  "slowlogCreateEntry c av dur now server =
    (let ac = length av;
         slargc = (if ac > SLOWLOG_ENTRY_MAX_ARGC then SLOWLOG_ENTRY_MAX_ARGC else ac)
     in (\<lparr>argv = map (slowlog_arg av ac slargc) [0..<slargc], argc = slargc, id = slowlog_entry_id server,
          duration = dur, time = now, cname = (case name c of Some n \<Rightarrow> n | None \<Rightarrow> []), peerid = peer c\<rparr>,
         server\<lparr>slowlog_entry_id := slowlog_entry_id server + 1\<rparr>))"

definition slowlogInit :: "slowlogEntry store \<Rightarrow> slserver \<Rightarrow> slserver" where
  "slowlogInit s server =
    server\<lparr>slowlog := (listCreate\<lparr>free := True\<rparr>, s), slowlog_entry_id := 0\<rparr>"

definition slowlogPushEntryIfNeeded ::
  "slowlogEntry new \<Rightarrow> slclient \<Rightarrow> robj list \<Rightarrow> int \<Rightarrow> int \<Rightarrow> slserver \<Rightarrow> slserver option" where
  "slowlogPushEntryIfNeeded new c av dur now server =
    (if slowlog_log_slower_than server < 0 \<or> slowlog_max_len server = 0 then Some server
     else do {
       server \<leftarrow>
         (if dur \<ge> slowlog_log_slower_than server then do {
            let (se, server) = slowlogCreateEntry c av dur now server;
            st \<leftarrow> push_head new (slowlog server) se;
            Some (server\<lparr>slowlog := st\<rparr>)
          } else Some server);
       st \<leftarrow> trim_loop (\<lambda>st. len (fst st)) del_last (slowlog_max_len server) (slowlog server);
       Some (server\<lparr>slowlog := st\<rparr>)
     })"

definition slowlogReset :: "slserver \<Rightarrow> slserver option" where
  "slowlogReset server = do {
     st \<leftarrow> trim_loop (\<lambda>st. len (fst st)) del_last 0 (slowlog server);
     Some (server\<lparr>slowlog := st\<rparr>)
   }"

section \<open>Entries are small\<close>

definition small_arg :: "robj \<Rightarrow> bool" where
  "small_arg r \<longleftrightarrow> (case sval r of Raw s \<Rightarrow> length s \<le> 165 | EncInt _ \<Rightarrow> True)"

lemma dec_len: "n < 10 ^ 20 \<Longrightarrow> length (dec n) \<le> 20"
proof (cases "n = 0")
  case False
  assume "n < 10 ^ 20"
  with False length_dec_bounds [of n] have "(10 :: nat) ^ (length (dec n) - 1) < 10 ^ 20" by simp
  then have "length (dec n) - 1 < 20" by (rule power_less_imp_less_exp [rotated]) simp
  then show ?thesis by simp
qed simp

lemma slowlog_arg_small:
  assumes "length av < 2 ^ 31" "\<forall>r \<in> set av. \<forall>s. sval r = Raw s \<longrightarrow> length s < 2 ^ 64" "j < k" "k \<le> length av"
  shows "small_arg (slowlog_arg av (length av) k j)"
proof -
  have m: "av ! j \<in> set av" using assms(3,4) by simp
  have 1: "length (dec (length av - k + 1)) \<le> 20" using assms(1) by (intro dec_len) simp
  have 2: "length (dec (length s - 128)) \<le> 20" if "sval (av ! j) = Raw s" for s
  proof (rule dec_len)
    have "length s < 2 ^ 64" using that assms(2) m by blast
    then show "length s - 128 < 10 ^ 20" by simp
  qed
  show ?thesis
    using 1 2 by (auto simp: small_arg_def slowlog_arg_def createStringObject_def dupStringObject_def ascii_def
        split: strval.splits)
qed

definition demo_server :: slserver where
  "demo_server = slowlogInit \<lparr>nodes = (\<lambda>_. None), freed = []\<rparr>
     \<lparr>slowlog = (listCreate, \<lparr>nodes = (\<lambda>_. None), freed = []\<rparr>), slowlog_entry_id = 0, slowlog_log_slower_than = 1,
      slowlog_max_len = 2\<rparr>"

text \<open>
  An entry of the slow log has at most 32 arguments and keeps at most 165 bytes of each, however many and however
  long the arguments of the command were (an array of C ints and strings of C sizes).
\<close>

theorem slowlogCreateEntry_bounded:
  assumes "length av < 2 ^ 31" "\<forall>r \<in> set av. \<forall>s. sval r = Raw s \<longrightarrow> length s < 2 ^ 64"
  shows "let se = fst (slowlogCreateEntry c av dur now server) in
    argc se = length (argv se) \<and> argc se \<le> SLOWLOG_ENTRY_MAX_ARGC \<and> (\<forall>r \<in> set (argv se). small_arg r)"
  using slowlog_arg_small [OF assms] by (auto simp: slowlogCreateEntry_def Let_def)

theorem slowlogCreateEntry_bounded_witness:
  "argc (fst (slowlogCreateEntry \<lparr>name = None, peer = []\<rparr> (replicate 40 \<lparr>sval = Raw (replicate 200 7), shared = False\<rparr>)
     5 0 demo_server)) \<le> 32"
  using slowlogCreateEntry_bounded [of "replicate 40 \<lparr>sval = Raw (replicate 200 7), shared = False\<rparr>"
    "\<lparr>name = None, peer = []\<rparr>" 5 0 demo_server] by (simp add: Let_def)

section \<open>The log keeps the newest entries\<close>

abbreviation entries :: "slserver \<Rightarrow> slowlogEntry list" where
  "entries server \<equiv> list_values (slowlog server)"

text \<open>The ids decrease along the log and are below the next id.\<close>

definition slowlog_inv :: "slowlogEntry new \<Rightarrow> slserver \<Rightarrow> bool" where
  "slowlog_inv new server \<longleftrightarrow> list_inv new (slowlog server) \<and>
     sorted_wrt (\<lambda>a b. id b < id a) (entries server) \<and> (\<forall>e \<in> set (entries server). id e < slowlog_entry_id server)"

lemma sorted_wrt_take: "sorted_wrt P xs \<Longrightarrow> sorted_wrt P (take n xs)"
  by (metis append_take_drop_id sorted_wrt_append)

text \<open>
  C14. Pushing a command keeps the invariant of the log (well linked, ids strictly decreasing from the newest), terminates
  and leaves exactly the newest \<^verbatim>\<open>slowlog-max-len\<close> entries: the new one first if the command was slow enough; a disabled
  log is not changed.
\<close>

theorem slowlogPush_newest:
  assumes "slowlog_inv new server"
  shows "\<exists>server'. slowlogPushEntryIfNeeded new c av dur now server = Some server' \<and> slowlog_inv new server' \<and>
    entries server' =
      (if slowlog_log_slower_than server < 0 \<or> slowlog_max_len server = 0 then entries server
       else if dur \<ge> slowlog_log_slower_than server
       then take (slowlog_max_len server) (fst (slowlogCreateEntry c av dur now server) # entries server)
       else take (slowlog_max_len server) (entries server))"
proof -
  let ?n = "slowlog_max_len server"
  have inv: "list_inv new (slowlog server)" using assms by (simp add: slowlog_inv_def)
  obtain st1 where st1: "trim_loop (\<lambda>st. len (fst st)) del_last ?n (slowlog server) = Some st1" "list_inv new st1"
    "list_values st1 = take ?n (entries server)" using adl.trim_back [OF inv, of ?n] by blast
  define se where "se = fst (slowlogCreateEntry c av dur now server)"
  obtain st2 where st2: "push_head new (slowlog server) se = Some st2" "list_inv new st2"
    "list_values st2 = se # entries server" using adl.push_front_law [OF inv] by blast
  obtain st3 where st3: "trim_loop (\<lambda>st. len (fst st)) del_last ?n st2 = Some st3" "list_inv new st3"
    "list_values st3 = take ?n (se # entries server)" using adl.trim_back [OF st2(2), of ?n] st2(3) by auto
  have ce: "slowlogCreateEntry c av dur now server = (se, server\<lparr>slowlog_entry_id := slowlog_entry_id server + 1\<rparr>)"
    "id se = slowlog_entry_id server" by (simp_all add: se_def slowlogCreateEntry_def Let_def)
  show ?thesis
  proof (cases "slowlog_log_slower_than server < 0 \<or> ?n = 0")
    case True
    then show ?thesis using assms by (auto simp: slowlogPushEntryIfNeeded_def)
  next
    case False
    show ?thesis
    proof (cases "dur \<ge> slowlog_log_slower_than server")
      case True
      let ?s = "server\<lparr>slowlog_entry_id := slowlog_entry_id server + 1, slowlog := st3\<rparr>"
      have "slowlogPushEntryIfNeeded new c av dur now server = Some ?s"
        unfolding slowlogPushEntryIfNeeded_def ce(1) using False True st2 st3 by simp
      moreover have "slowlog_inv new ?s" using assms st3 ce(2) False
        by (auto simp: slowlog_inv_def take_Cons' sorted_wrt_take dest!: in_set_takeD)
      ultimately show ?thesis using False True st3(3) by (simp flip: se_def)
    next
      case slow: False
      let ?s = "server\<lparr>slowlog := st1\<rparr>"
      have "slowlogPushEntryIfNeeded new c av dur now server = Some ?s"
        unfolding slowlogPushEntryIfNeeded_def using False slow st1 by simp
      moreover have "slowlog_inv new ?s" using assms st1
        by (auto simp: slowlog_inv_def sorted_wrt_take dest!: in_set_takeD)
      ultimately show ?thesis using False slow st1(3) by simp
    qed
  qed
qed

lemma init_inv:
  assumes "fresh new" "finite (dom (nodes s))"
  shows "slowlog_inv new (slowlogInit s server) \<and> entries (slowlogInit s server) = []"
proof -
  have "is_list s (listCreate\<lparr>free := True\<rparr>) []" using assms(2) by (simp add: is_list_def listCreate_def)
  from list_invI [OF this assms(1)] show ?thesis by (simp add: slowlog_inv_def slowlogInit_def)
qed

theorem slowlogPush_newest_witness:
  "\<exists>server'. slowlogPushEntryIfNeeded lowest_new \<lparr>name = None, peer = []\<rparr> [] 5 0 demo_server = Some server' \<and>
    map id (entries server') = [0]"
proof -
  have d: "slowlog_inv lowest_new demo_server" "entries demo_server = []"
    using init_inv [OF fresh_lowest, of "\<lparr>nodes = (\<lambda>_. None), freed = []\<rparr>"] by (simp_all add: demo_server_def)
  have p: "slowlog_log_slower_than demo_server = 1" "slowlog_max_len demo_server = 2" "slowlog_entry_id demo_server = 0"
    by (simp_all add: demo_server_def slowlogInit_def)
  obtain server' where
    "slowlogPushEntryIfNeeded lowest_new \<lparr>name = None, peer = []\<rparr> [] 5 0 demo_server = Some server'"
    "entries server' = [fst (slowlogCreateEntry \<lparr>name = None, peer = []\<rparr> [] 5 0 demo_server)]"
    using slowlogPush_newest [OF d(1), of "\<lparr>name = None, peer = []\<rparr>" "[]" 5 0] p d(2) by auto
  then show ?thesis using p by (simp add: slowlogCreateEntry_def Let_def)
qed

text \<open>
  \<^verbatim>\<open>SLOWLOG RESET\<close> terminates and leaves the log empty and usable; the ids go on from where they were.
\<close>

theorem slowlogReset_empty:
  assumes "slowlog_inv new server"
  shows "\<exists>server'. slowlogReset server = Some server' \<and> slowlog_inv new server' \<and> entries server' = [] \<and>
    slowlog_entry_id server' = slowlog_entry_id server"
proof -
  have inv: "list_inv new (slowlog server)" using assms by (simp add: slowlog_inv_def)
  obtain st where st: "trim_loop (\<lambda>st. len (fst st)) del_last 0 (slowlog server) = Some st" "list_inv new st"
    "list_values st = []" using adl.trim_back [OF inv, of 0] by auto
  have "slowlogReset server = Some (server\<lparr>slowlog := st\<rparr>)" using st(1) by (simp add: slowlogReset_def)
  then show ?thesis using st by (simp add: slowlog_inv_def)
qed

theorem slowlogReset_empty_witness: "\<exists>server'. slowlogReset demo_server = Some server' \<and> entries server' = []"
proof -
  have "slowlog_inv lowest_new demo_server"
    using init_inv [OF fresh_lowest, of "\<lparr>nodes = (\<lambda>_. None), freed = []\<rparr>"] by (simp add: demo_server_def)
  from slowlogReset_empty [OF this] show ?thesis by blast
qed

end
