(* ===== verification/Localtime.thy ===== *)
theory Localtime
  imports Prelude
begin

text \<open>
  \<^verbatim>\<open>redis-stable/src/localtime.c\<close>: the calendar date of a Unix time without calling \<^verbatim>\<open>localtime\<close>, which may block after a
  \<^verbatim>\<open>fork\<close>. Times are 64-bit \<^verbatim>\<open>time_t\<close> values, as integers, with the division of C, which rounds to zero; a signed overflow is
  \<^term>\<open>None\<close>. The reference is the Gregorian calendar: it counts the days of the years and months before the date.
\<close>

section \<open>Definitions\<close>









text \<open>
  Times are 64-bit \<^verbatim>\<open>time_t\<close> values and the daylight flag is an \<^verbatim>\<open>int\<close>; an adjustment that leaves the range is undefined in C,
  here \<^term>\<open>None\<close>. A \<^verbatim>\<open>time_t\<close> stored in an \<^verbatim>\<open>int\<close> field keeps its low 32 bits.
\<close>

definition to_int :: "int \<Rightarrow> int" where
  "to_int z = u2s 32 (s2u 32 z)"



section \<open>The calendar\<close>










lemma to_int_id [simp]: "fits 32 z \<Longrightarrow> to_int z = z"
  by (simp add: to_int_def u2s_s2u)












end
