(* ===== verification/Crc16.thy ===== *)
theory Crc16
  imports Prelude
begin

text \<open>
  \<^verbatim>\<open>redis-stable/src/crc16.c\<close> and \<^verbatim>\<open>keyHashSlot\<close> of \<^verbatim>\<open>cluster.h\<close>: the checksum that assigns a key to one of the 16384 slots
  of a cluster. The reference is the polynomial division one bit at a time (CRC-16/XMODEM: polynomial \<open>0x1021\<close>, initial
  value 0, no reflection) that the header comment of the file names.
\<close>

section \<open>Definitions\<close>

type_synonym w16 = "16 word"

definition crc16tab :: "w16 list" where
  "crc16tab = [
     0x0000, 0x1021, 0x2042, 0x3063, 0x4084, 0x50a5, 0x60c6, 0x70e7,
     0x8108, 0x9129, 0xa14a, 0xb16b, 0xc18c, 0xd1ad, 0xe1ce, 0xf1ef,
     0x1231, 0x0210, 0x3273, 0x2252, 0x52b5, 0x4294, 0x72f7, 0x62d6,
     0x9339, 0x8318, 0xb37b, 0xa35a, 0xd3bd, 0xc39c, 0xf3ff, 0xe3de,
     0x2462, 0x3443, 0x0420, 0x1401, 0x64e6, 0x74c7, 0x44a4, 0x5485,
     0xa56a, 0xb54b, 0x8528, 0x9509, 0xe5ee, 0xf5cf, 0xc5ac, 0xd58d,
     0x3653, 0x2672, 0x1611, 0x0630, 0x76d7, 0x66f6, 0x5695, 0x46b4,
     0xb75b, 0xa77a, 0x9719, 0x8738, 0xf7df, 0xe7fe, 0xd79d, 0xc7bc,
     0x48c4, 0x58e5, 0x6886, 0x78a7, 0x0840, 0x1861, 0x2802, 0x3823,
     0xc9cc, 0xd9ed, 0xe98e, 0xf9af, 0x8948, 0x9969, 0xa90a, 0xb92b,
     0x5af5, 0x4ad4, 0x7ab7, 0x6a96, 0x1a71, 0x0a50, 0x3a33, 0x2a12,
     0xdbfd, 0xcbdc, 0xfbbf, 0xeb9e, 0x9b79, 0x8b58, 0xbb3b, 0xab1a,
     0x6ca6, 0x7c87, 0x4ce4, 0x5cc5, 0x2c22, 0x3c03, 0x0c60, 0x1c41,
     0xedae, 0xfd8f, 0xcdec, 0xddcd, 0xad2a, 0xbd0b, 0x8d68, 0x9d49,
     0x7e97, 0x6eb6, 0x5ed5, 0x4ef4, 0x3e13, 0x2e32, 0x1e51, 0x0e70,
     0xff9f, 0xefbe, 0xdfdd, 0xcffc, 0xbf1b, 0xaf3a, 0x9f59, 0x8f78,
     0x9188, 0x81a9, 0xb1ca, 0xa1eb, 0xd10c, 0xc12d, 0xf14e, 0xe16f,
     0x1080, 0x00a1, 0x30c2, 0x20e3, 0x5004, 0x4025, 0x7046, 0x6067,
     0x83b9, 0x9398, 0xa3fb, 0xb3da, 0xc33d, 0xd31c, 0xe37f, 0xf35e,
     0x02b1, 0x1290, 0x22f3, 0x32d2, 0x4235, 0x5214, 0x6277, 0x7256,
     0xb5ea, 0xa5cb, 0x95a8, 0x8589, 0xf56e, 0xe54f, 0xd52c, 0xc50d,
     0x34e2, 0x24c3, 0x14a0, 0x0481, 0x7466, 0x6447, 0x5424, 0x4405,
     0xa7db, 0xb7fa, 0x8799, 0x97b8, 0xe75f, 0xf77e, 0xc71d, 0xd73c,
     0x26d3, 0x36f2, 0x0691, 0x16b0, 0x6657, 0x7676, 0x4615, 0x5634,
     0xd94c, 0xc96d, 0xf90e, 0xe92f, 0x99c8, 0x89e9, 0xb98a, 0xa9ab,
     0x5844, 0x4865, 0x7806, 0x6827, 0x18c0, 0x08e1, 0x3882, 0x28a3,
     0xcb7d, 0xdb5c, 0xeb3f, 0xfb1e, 0x8bf9, 0x9bd8, 0xabbb, 0xbb9a,
     0x4a75, 0x5a54, 0x6a37, 0x7a16, 0x0af1, 0x1ad0, 0x2ab3, 0x3a92,
     0xfd2e, 0xed0f, 0xdd6c, 0xcd4d, 0xbdaa, 0xad8b, 0x9de8, 0x8dc9,
     0x7c26, 0x6c07, 0x5c64, 0x4c45, 0x3ca2, 0x2c83, 0x1ce0, 0x0cc1,
     0xef1f, 0xff3e, 0xcf5d, 0xdf7c, 0xaf9b, 0xbfba, 0x8fd9, 0x9ff8,
     0x6e17, 0x7e36, 0x4e55, 0x5e74, 0x2e93, 0x3eb2, 0x0ed1, 0x1ef0]"

fun crc16_loop :: "bytes \<Rightarrow> w16 \<Rightarrow> w16" where
  "crc16_loop [] crc = crc"
| "crc16_loop (b # buf) crc =
    crc16_loop buf (push_bit 8 crc XOR crc16tab ! unat ((drop_bit 8 crc XOR ucast b) AND 0x00FF))"

definition crc16 :: "bytes \<Rightarrow> w16" where
  "crc16 buf = crc16_loop buf 0"

text \<open>The first position from \<open>s\<close> on that holds the byte \<open>c\<close>, or the length of the key.\<close>

function scan_byte :: "byte \<Rightarrow> bytes \<Rightarrow> nat \<Rightarrow> nat" where
  "scan_byte c key s = (if s < length key then (if key ! s = c then s else scan_byte c key (s + 1)) else length key)"
  by pat_completeness auto

termination
  by (relation "measure (\<lambda>(c, key, s). length key - s)") auto

declare scan_byte.simps [simp del]

definition keyHashSlot :: "bytes \<Rightarrow> nat" where
  "keyHashSlot key =
    (let keylen = length key;
         s = scan_byte 123 key 0
     in if s = keylen then unat (crc16 key AND 0x3FFF)
        else
          (let e = scan_byte 125 key (s + 1)
           in if e = keylen \<or> e = s + 1 then unat (crc16 key AND 0x3FFF)
              else unat (crc16 (take (e - s - 1) (drop (s + 1) key)) AND 0x3FFF)))"

section \<open>Polynomial division\<close>

definition crc_bit :: "w16 \<Rightarrow> w16" where
  "crc_bit x = push_bit 1 x XOR (if bit x 15 then 0x1021 else 0)"

definition crc_byte :: "w16 \<Rightarrow> w16" where
  "crc_byte x = crc_bit (crc_bit (crc_bit (crc_bit (crc_bit (crc_bit (crc_bit (crc_bit x)))))))"

definition xmodem :: "bytes \<Rightarrow> w16" where
  "xmodem buf = fold (\<lambda>b crc. crc_byte (crc XOR push_bit 8 (ucast b))) buf 0"

lemma crc_bit_xor: "crc_bit (x XOR y) = crc_bit x XOR crc_bit y"
  by (auto simp: crc_bit_def bit_xor_iff push_bit_xor ac_simps)

lemma crc_byte_xor: "crc_byte (x XOR y) = crc_byte x XOR crc_byte y"
  by (simp add: crc_byte_def crc_bit_xor)

lemma crc_bit_low: "\<not> bit x 15 \<Longrightarrow> crc_bit x = push_bit 1 x"
  by (simp add: crc_bit_def)

lemma crc_byte_low: "crc_byte (take_bit 8 x) = push_bit 8 x"
proof -
  let ?y = "take_bit 8 x"
  have b: "\<not> bit (push_bit k ?y) 15" if "k < 8" for k
  proof -
    have "\<not> 15 - k < 8" using that by linarith
    then show ?thesis by (simp add: bit_push_bit_iff bit_take_bit_iff)
  qed
  define f where "f k = push_bit k ?y" for k
  have p: "crc_bit (f k) = f (Suc k)" if "k < 8" for k
    unfolding f_def crc_bit_low [OF b [OF that]] by (simp add: push_bit_push_bit)
  have "crc_byte (f 0) = f 8" by (simp add: crc_byte_def p eval_nat_numeral)
  then have "crc_byte ?y = push_bit 8 ?y" by (simp add: f_def)
  also have "\<dots> = push_bit 8 x" by (simp add: push_bit_take_bit take_bit_word_eq_self)
  finally show ?thesis .
qed

text \<open>
  The table, checked entry by entry: the entries \<open>2 i\<close> and \<open>2 i + 1\<close> follow from the entry \<open>i\<close> by one step of the division.
\<close>

fun crc_rows :: "w16 list \<Rightarrow> w16 list" where
  "crc_rows [] = []"
| "crc_rows (x # xs) = crc_bit x # (crc_bit x XOR 0x1021) # crc_rows xs"

lemma crc16tab_rows: "crc16tab = crc_rows (take 128 crc16tab)"
  by (simp add: crc16tab_def crc_bit_def)

lemma crc_rows_nth: "i < length xs \<Longrightarrow> crc_rows xs ! (2 * i) = crc_bit (xs ! i) \<and>
  crc_rows xs ! (2 * i + 1) = crc_bit (xs ! i) XOR 0x1021"
proof (induction xs arbitrary: i rule: crc_rows.induct)
  case (2 x xs)
  then show ?case by (cases i) auto
qed simp

lemma crc_byte_double:
  assumes "j < 128"
  shows "crc_byte (push_bit 8 (word_of_nat (2 * j))) = crc_bit (crc_byte (push_bit 8 (word_of_nat j)))"
proof -
  let ?y = "push_bit 8 (word_of_nat j) :: w16"
  have "take_bit 7 j = j" using assms by (simp add: take_bit_nat_eq_self)
  then have "\<not> bit j 7" using bit_take_bit_iff [of 7 j 7] by simp
  moreover have "bit (word_of_int (int j) :: w16) 7 \<longleftrightarrow> bit j 7" by (simp only: bit_word_of_int_iff) (simp add: bit_of_nat_iff)
  ultimately have "\<not> bit ?y 15" by (simp add: bit_push_bit_iff)
  then have "crc_bit ?y = push_bit 1 ?y" by (rule crc_bit_low)
  moreover have "push_bit 1 ?y = push_bit 8 (word_of_nat (2 * j))" by (simp add: push_bit_eq_mult)
  moreover have "crc_bit (crc_byte ?y) = crc_byte (crc_bit ?y)" by (simp add: crc_byte_def)
  ultimately show ?thesis by simp
qed

lemma crc16tab_nth: "i < 256 \<Longrightarrow> crc16tab ! i = crc_byte (push_bit 8 (word_of_nat i))"
proof (induction i rule: less_induct)
  case (less i)
  have one: "crc_byte (push_bit 8 1) = 0x1021" by (simp add: crc_byte_def crc_bit_def)
  define j where "j = i div 2"
  have j: "j < 128" using less.prems by (simp add: j_def div_less_iff_less_mult)
  have len: "length (take 128 crc16tab) = 128" by (simp add: crc16tab_def)
  have rows: "crc16tab ! (2 * j) = crc_bit (crc16tab ! j)" "crc16tab ! (2 * j + 1) = crc_bit (crc16tab ! j) XOR 0x1021"
    using crc_rows_nth [of j "take 128 crc16tab"] j len by (simp_all add: crc16tab_rows [symmetric])
  show ?case
  proof (cases "i = 0")
    case True
    then show ?thesis by (simp add: crc16tab_def crc_byte_def crc_bit_def)
  next
    case False
    then have IH: "crc16tab ! j = crc_byte (push_bit 8 (word_of_nat j))" using less.IH [of j] j by (simp add: j_def)
    show ?thesis
    proof (cases "even i")
      case True
      then have "i = 2 * j" by (simp add: j_def)
      then show ?thesis using rows(1) IH crc_byte_double [OF j] by simp
    next
      case False
      then have i: "i = 2 * j + 1" by (simp add: j_def)
      have "2 * j XOR 1 = 2 * j + 1" using xor_one_eq [of "2 * j"] by simp
      then have "(word_of_nat i :: w16) = word_of_nat (2 * j) XOR 1" unfolding i by (metis of_nat_1 of_nat_xor_eq)
      then have "crc_byte (push_bit 8 (word_of_nat i)) = crc_byte (push_bit 8 (word_of_nat (2 * j))) XOR 0x1021"
        by (simp only: push_bit_xor crc_byte_xor one)
      then show ?thesis using rows(2) IH crc_byte_double [OF j] i by simp
    qed
  qed
qed

lemma crc_step:
  "push_bit 8 crc XOR crc16tab ! unat ((drop_bit 8 crc XOR ucast b) AND 0xFF) = crc_byte (crc XOR push_bit 8 (ucast (b :: byte)))"
proof -
  define h where "h = drop_bit 8 crc XOR (ucast b :: w16)"
  have bb: "bit b n \<Longrightarrow> n < 8" "bit crc (8 + n) \<Longrightarrow> n < 8" for n
    using bit_imp_le_length [of b n] bit_imp_le_length [of crc "8 + n"] by simp_all
  then have "h = take_bit 8 h"
    by (intro bit_eqI) (auto simp: h_def bit_take_bit_iff bit_xor_iff bit_drop_bit_eq bit_unsigned_iff)
  moreover have "(0xFF :: w16) = mask 8" by (simp add: mask_eq_exp_minus_1)
  ultimately have m: "h AND 0xFF = h" by (simp only: take_bit_eq_mask [symmetric])
  have "unat h = take_bit 8 (unat h)" using \<open>h = take_bit 8 h\<close> unsigned_take_bit_eq [of 8 h] by simp
  then have "unat h < 2 ^ 8" using take_bit_nat_less_exp [of 8 "unat h"] by simp
  then have t: "crc16tab ! unat h = crc_byte (push_bit 8 h)" by (simp add: crc16tab_nth)
  have "crc XOR push_bit 8 (ucast b) = push_bit 8 h XOR take_bit 8 crc"
    by (intro bit_eqI) (auto simp: h_def bit_take_bit_iff bit_xor_iff bit_push_bit_iff bit_drop_bit_eq)
  then show ?thesis unfolding h_def [symmetric] m t by (simp only: crc_byte_xor crc_byte_low xor.commute)
qed

lemma crc16_loop_fold: "crc16_loop buf crc = fold (\<lambda>b crc. crc_byte (crc XOR push_bit 8 (ucast b))) buf crc"
  by (induction buf arbitrary: crc) (simp_all add: crc_step)

lemma crc16_xmodem: "crc16 buf = xmodem buf"
  by (simp add: crc16_def xmodem_def crc16_loop_fold)

section \<open>Hash tags\<close>

lemma scan_byte_takeWhile: "s \<le> length key \<Longrightarrow> scan_byte c key s = s + length (takeWhile (\<lambda>x. x \<noteq> c) (drop s key))"
proof (induction c key s rule: scan_byte.induct)
  case (1 c key s)
  show ?case
  proof (cases "s < length key")
    case True
    then have "drop s key = key ! s # drop (Suc s) key" by (simp add: Cons_nth_drop_Suc)
    then show ?thesis using 1 True by (subst scan_byte.simps) auto
  next
    case False
    then show ?thesis using 1 by (subst scan_byte.simps) simp
  qed
qed

text \<open>What the specification of Redis Cluster calls the hash tag: what is between the first opening and the next closing brace.\<close>

definition hashtag :: "bytes \<Rightarrow> bytes" where
  "hashtag key =
    (case dropWhile (\<lambda>x. x \<noteq> 123) key of
       [] \<Rightarrow> key
     | _ # rest \<Rightarrow> (let t = takeWhile (\<lambda>x. x \<noteq> 125) rest in if t = [] \<or> t = rest then key else t))"

lemma and_3FFF: "unat (x AND 0x3FFF :: w16) = unat x mod 16384"
proof -
  have "(0x3FFF :: w16) = mask 14" by (simp add: mask_eq_exp_minus_1)
  then have "x AND 0x3FFF = take_bit 14 x" by (simp only: take_bit_eq_mask)
  then show ?thesis by (simp only: unsigned_take_bit_eq) (simp add: take_bit_eq_mod)
qed

text \<open>
  C13. The slot of a key is the CRC-16/XMODEM of its hash tag, by division one bit at a time, modulo 16384: the key between
  the first \<^verbatim>\<open>{\<close> and the next \<^verbatim>\<open>}\<close> when that is not empty, and the whole key otherwise. So the slot is always below 16384 and
  keys with the same hash tag share a slot.
\<close>

theorem keyHashSlot_hashtag: "keyHashSlot key = unat (xmodem (hashtag key)) mod 16384"
proof -
  define a where "a = takeWhile (\<lambda>x. x \<noteq> 123) key"
  have s: "scan_byte 123 key 0 = length a" using scan_byte_takeWhile [of 0 key 123] by (simp add: a_def)
  have split: "key = a @ dropWhile (\<lambda>x. x \<noteq> 123) key" by (simp add: a_def)
  show ?thesis
  proof (cases "dropWhile (\<lambda>x. x \<noteq> 123) key")
    case Nil
    then have "length a = length key" using split by (metis append_Nil2)
    moreover have "hashtag key = key" unfolding hashtag_def Nil by simp
    ultimately show ?thesis using s by (simp add: keyHashSlot_def and_3FFF crc16_xmodem)
  next
    case (Cons x rest)
    define t where "t = takeWhile (\<lambda>x. x \<noteq> 125) rest"
    have key: "key = a @ x # rest" using split Cons by simp
    have len: "length key = length a + 1 + length rest" and d: "drop (length a + 1) key = rest" unfolding key by simp_all
    have e: "scan_byte 125 key (length a + 1) = length a + 1 + length t"
      using scan_byte_takeWhile [of "length a + 1" key 125] len d by (simp add: t_def)
    have tk: "take (length t) rest = t" unfolding t_def by (rule takeWhile_eq_take [symmetric])
    then have full: "length t = length rest \<longleftrightarrow> t = rest" by (metis order_refl take_all)
    have "hashtag key = (if t = [] \<or> t = rest then key else t)" by (simp only: hashtag_def Cons list.case Let_def t_def)
    then show ?thesis using s e d len full tk
      by (simp add: keyHashSlot_def and_3FFF crc16_xmodem Let_def)
  qed
qed

end
