(* ===== verification/Dict.thy ===== *)
theory Dict
  imports Prelude
begin

text \<open>
  \<^verbatim>\<open>redis-stable/src/dict.c\<close>: hash tables of chained entries that grow and shrink by incremental rehashing. While a
  rehash is in progress the entries are spread over two tables, and every operation moves a few of them. A table is
  \<open>None\<close> when it is not allocated; a bucket is the list of the entries of its chain; a \<^verbatim>\<open>dictEntryLink\<close> is the place of an
  entry: table, bucket and position in the chain. The tag bits of entry pointers are the constructors of \<open>dictEntry\<close>.
  The callbacks of the type that only observe the dictionary are recorded in \<open>events\<close>; memory is not modelled further.
  \<open>None\<close> as a result stands for an access outside a table or a failed \<^verbatim>\<open>assert\<close>.
\<close>

section \<open>Types\<close>

datatype ('k, 'v) dictEntry = Normal 'k "'v option" | NoValue 'k | IsKey 'k

datatype dictResizeEnable = DICT_RESIZE_ENABLE | DICT_RESIZE_AVOID | DICT_RESIZE_FORBID

datatype dictEvent = RehashingStarted | RehashingCompleted | BucketChanged int

type_synonym w64 = "64 word"

record ('k, 'v) dictType =
  hashFunction :: "'k \<Rightarrow> w64"
  keyDup :: "('k \<Rightarrow> 'k) option"
  valDup :: "('v \<Rightarrow> 'v) option"
  keyCompare :: "('k \<Rightarrow> 'k \<Rightarrow> bool) option"
  resizeAllowed :: "(nat \<Rightarrow> nat \<times> nat \<Rightarrow> bool) option"
  no_value :: bool
  force_full_rehash :: bool
  storedHashFunction :: "('k \<Rightarrow> w64) option"
  storedKeyCompare :: "('k \<Rightarrow> 'k \<Rightarrow> bool) option"

record ('k, 'v) htab =
  tbl :: "('k, 'v) dictEntry list list option"
  ht_size_exp :: int
  ht_used :: nat

record ('k, 'v) dict =
  ht0 :: "('k, 'v) htab"
  ht1 :: "('k, 'v) htab"
  rehashidx :: int
  pauserehash :: nat
  useStoredKeyApi :: bool
  pauseAutoResize :: int
  events :: "dictEvent list"

type_synonym dictEntryLink = "nat \<times> nat \<times> nat"

section \<open>Entries\<close>

fun entryIsKey :: "('k, 'v) dictEntry \<Rightarrow> bool" where
  "entryIsKey (IsKey _) = True"
| "entryIsKey _ = False"

fun entryIsNoValue :: "('k, 'v) dictEntry \<Rightarrow> bool" where
  "entryIsNoValue (NoValue _) = True"
| "entryIsNoValue _ = False"

fun entryHasValue :: "('k, 'v) dictEntry \<Rightarrow> bool" where
  "entryHasValue (Normal _ _) = True"
| "entryHasValue _ = False"

fun dictGetKey :: "('k, 'v) dictEntry \<Rightarrow> 'k" where
  "dictGetKey (IsKey k) = k"
| "dictGetKey (NoValue k) = k"
| "dictGetKey (Normal k _) = k"

text \<open>The outer option is the assertion, the inner one tells whether the value has been set since the entry was allocated.\<close>

fun dictGetVal :: "('k, 'v) dictEntry \<Rightarrow> 'v option option" where
  "dictGetVal (Normal _ v) = Some v"
| "dictGetVal _ = None"

fun dictSetVal :: "('k, 'v) dictType \<Rightarrow> ('k, 'v) dictEntry \<Rightarrow> 'v \<Rightarrow> ('k, 'v) dictEntry option" where
  "dictSetVal ty (Normal k _) v = Some (Normal k (Some (case valDup ty of Some dup \<Rightarrow> dup v | None \<Rightarrow> v)))"
| "dictSetVal ty _ v = None"

definition dictGetCmpFunc :: "('k, 'v) dictType \<Rightarrow> ('k, 'v) dict \<Rightarrow> 'k \<Rightarrow> 'k \<Rightarrow> bool" where
  "dictGetCmpFunc ty d =
    (case (if useStoredKeyApi d then storedKeyCompare ty else None) of
       Some cmp \<Rightarrow> cmp
     | None \<Rightarrow> (case keyCompare ty of Some cmp \<Rightarrow> cmp | None \<Rightarrow> (=)))"

definition dictHashKey :: "('k, 'v) dictType \<Rightarrow> 'k \<Rightarrow> bool \<Rightarrow> w64" where
  "dictHashKey ty key isStoredKey =
    (case (if isStoredKey then storedHashFunction ty else None) of Some h \<Rightarrow> h key | None \<Rightarrow> hashFunction ty key)"

section \<open>Tables\<close>

definition DICTHT_SIZE :: "int \<Rightarrow> nat" where
  "DICTHT_SIZE exp = (if exp = -1 then 0 else 2 ^ nat exp)"

definition DICTHT_SIZE_MASK :: "int \<Rightarrow> w64" where
  "DICTHT_SIZE_MASK exp = (if exp = -1 then 0 else of_nat (DICTHT_SIZE exp) - 1)"

definition ht_index :: "w64 \<Rightarrow> int \<Rightarrow> nat" where
  "ht_index hash exp = unat (hash AND DICTHT_SIZE_MASK exp)"

definition bucket_at :: "('k, 'v) htab \<Rightarrow> nat \<Rightarrow> ('k, 'v) dictEntry list option" where
  "bucket_at t i = (case tbl t of None \<Rightarrow> None | Some b \<Rightarrow> if i < length b then Some (b ! i) else None)"

definition set_bucket :: "('k, 'v) htab \<Rightarrow> nat \<Rightarrow> ('k, 'v) dictEntry list \<Rightarrow> ('k, 'v) htab" where
  "set_bucket t i c = t\<lparr>tbl := map_option (\<lambda>b. b[i := c]) (tbl t)\<rparr>"

definition ht :: "('k, 'v) dict \<Rightarrow> nat \<Rightarrow> ('k, 'v) htab" where
  "ht d htidx = (if htidx = 0 then ht0 d else ht1 d)"

definition set_ht :: "('k, 'v) dict \<Rightarrow> nat \<Rightarrow> ('k, 'v) htab \<Rightarrow> ('k, 'v) dict" where
  "set_ht d htidx t = (if htidx = 0 then d\<lparr>ht0 := t\<rparr> else d\<lparr>ht1 := t\<rparr>)"

definition dictSize :: "('k, 'v) dict \<Rightarrow> nat" where
  "dictSize d = ht_used (ht0 d) + ht_used (ht1 d)"

definition dictBuckets :: "('k, 'v) dict \<Rightarrow> nat" where
  "dictBuckets d = DICTHT_SIZE (ht_size_exp (ht0 d)) + DICTHT_SIZE (ht_size_exp (ht1 d))"

definition dictIsRehashing :: "('k, 'v) dict \<Rightarrow> bool" where
  "dictIsRehashing d \<longleftrightarrow> rehashidx d \<noteq> -1"

definition dictPauseRehashing :: "('k, 'v) dict \<Rightarrow> ('k, 'v) dict" where
  "dictPauseRehashing d = d\<lparr>pauserehash := (pauserehash d + 1) mod 2 ^ 15\<rparr>"

definition dictResumeRehashing :: "('k, 'v) dict \<Rightarrow> ('k, 'v) dict" where
  "dictResumeRehashing d = d\<lparr>pauserehash := (pauserehash d + (2 ^ 15 - 1)) mod 2 ^ 15\<rparr>"

definition emit :: "dictEvent \<Rightarrow> ('k, 'v) dict \<Rightarrow> ('k, 'v) dict" where
  "emit ev d = d\<lparr>events := events d @ [ev]\<rparr>"

definition reset_htab :: "('k, 'v) htab" where
  "reset_htab = \<lparr>tbl = None, ht_size_exp = -1, ht_used = 0\<rparr>"

definition priv_dictReset :: "('k, 'v) dict \<Rightarrow> nat \<Rightarrow> ('k, 'v) dict" where
  "priv_dictReset d htidx = set_ht d htidx reset_htab"

definition dictCreate :: "('k, 'v) dict" where
  "dictCreate = \<lparr>ht0 = reset_htab, ht1 = reset_htab, rehashidx = -1, pauserehash = 0, useStoredKeyApi = False, pauseAutoResize = 0, events = []\<rparr>"

section \<open>Rehashing\<close>

text \<open>The loop of \<^verbatim>\<open>rehashEntriesInBucketAtIndex\<close>: the rest of the chain, the number of entries of table 0, and table 1.\<close>

fun rehash_chain :: "('k, 'v) dictType \<Rightarrow> int \<Rightarrow> nat \<Rightarrow> ('k, 'v) dictEntry list \<Rightarrow> nat \<Rightarrow> ('k, 'v) htab \<Rightarrow> (nat \<times> ('k, 'v) htab) option" where
  "rehash_chain ty exp0 idx [] used0 t1 = Some (used0, t1)"
| "rehash_chain ty exp0 idx (de # nextde) used0 t1 =
    (let key = dictGetKey de;
         h = (if ht_size_exp t1 > exp0 then ht_index (dictHashKey ty key True) (ht_size_exp t1) else ht_index (of_nat idx) (ht_size_exp t1))
     in do {
       dst \<leftarrow> bucket_at t1 h;
       de' \<leftarrow>
         (if no_value ty then
            (if dst = [] then Some (IsKey key)
             else if entryIsKey de then Some (NoValue key)
             else if entryIsNoValue de then Some de else None)
          else if entryIsKey de then None else Some de);
       rehash_chain ty exp0 idx nextde (used0 - 1) ((set_bucket t1 h (de' # dst))\<lparr>ht_used := ht_used t1 + 1\<rparr>)
     })"

definition rehashEntriesInBucketAtIndex :: "('k, 'v) dictType \<Rightarrow> ('k, 'v) dict \<Rightarrow> nat \<Rightarrow> ('k, 'v) dict option" where
  "rehashEntriesInBucketAtIndex ty d idx =
    do {
      de \<leftarrow> bucket_at (ht0 d) idx;
      (used0, t1) \<leftarrow> rehash_chain ty (ht_size_exp (ht0 d)) idx de (ht_used (ht0 d)) (ht1 d);
      Some (d\<lparr>ht0 := (set_bucket (ht0 d) idx [])\<lparr>ht_used := used0\<rparr>, ht1 := t1\<rparr>)
    }"

definition dictCheckRehashingCompleted :: "('k, 'v) dict \<Rightarrow> ('k, 'v) dict \<times> bool" where
  "dictCheckRehashingCompleted d =
    (if ht_used (ht0 d) \<noteq> 0 then (d, False)
     else
       (let d = emit RehashingCompleted d;
            d = emit (BucketChanged (- int (DICTHT_SIZE (ht_size_exp (ht0 d))))) d;
            d = d\<lparr>ht0 := ht1 d\<rparr>;
            d = priv_dictReset d 1
        in (d\<lparr>rehashidx := -1\<rparr>, True)))"

definition dict_force_resize_ratio :: nat where
  "dict_force_resize_ratio = 4"

definition HASHTABLE_MIN_FILL :: nat where
  "HASHTABLE_MIN_FILL = 8"

text \<open>The two guards with which \<^verbatim>\<open>dictRehash\<close> and \<^verbatim>\<open>_dictBucketRehash\<close> start.\<close>

definition rehash_disabled :: "dictResizeEnable \<Rightarrow> ('k, 'v) dict \<Rightarrow> bool" where
  "rehash_disabled can_resize d =
    (let s0 = DICTHT_SIZE (ht_size_exp (ht0 d));
         s1 = DICTHT_SIZE (ht_size_exp (ht1 d))
     in (can_resize = DICT_RESIZE_FORBID \<or> \<not> dictIsRehashing d) \<or>
        (can_resize = DICT_RESIZE_AVOID \<and>
          ((s1 > s0 \<and> s1 < dict_force_resize_ratio * s0) \<or>
           (s1 < s0 \<and> s0 < HASHTABLE_MIN_FILL * dict_force_resize_ratio * s1))))"

text \<open>The inner loop of \<^verbatim>\<open>dictRehash\<close>: the next index, what is left of \<^verbatim>\<open>empty_visits\<close>, and whether that is exhausted.\<close>

function skip_empty :: "('k, 'v) dictEntry list list \<Rightarrow> int \<Rightarrow> nat \<Rightarrow> (nat \<times> int \<times> bool) option" where
  "skip_empty b empty_visits i =
    (if i < length b then
       (if b ! i = [] then
          (if empty_visits - 1 = 0 then Some (i + 1, 0, True) else skip_empty b (empty_visits - 1) (i + 1))
        else Some (i, empty_visits, False))
     else None)"
  by pat_completeness auto

termination
  by (relation "measure (\<lambda>(b, ev, i). length b - i)") auto

declare skip_empty.simps [simp del]

fun rehash_loop :: "('k, 'v) dictType \<Rightarrow> nat \<Rightarrow> int \<Rightarrow> ('k, 'v) dict \<Rightarrow> (('k, 'v) dict \<times> bool) option" where
  "rehash_loop ty 0 empty_visits d = Some (d, False)"
| "rehash_loop ty (Suc n) empty_visits d =
    (if ht_used (ht0 d) = 0 then Some (d, False)
     else if \<not> (0 \<le> rehashidx d \<and> DICTHT_SIZE (ht_size_exp (ht0 d)) > nat (rehashidx d)) then None
     else do {
       b \<leftarrow> tbl (ht0 d);
       (i, empty_visits, exhausted) \<leftarrow> skip_empty b empty_visits (nat (rehashidx d));
       if exhausted then Some (d\<lparr>rehashidx := int i\<rparr>, True)
       else do {
         d \<leftarrow> rehashEntriesInBucketAtIndex ty (d\<lparr>rehashidx := int i\<rparr>) i;
         rehash_loop ty n empty_visits (d\<lparr>rehashidx := rehashidx d + 1\<rparr>)
       }
     })"

definition dictRehash :: "('k, 'v) dictType \<Rightarrow> dictResizeEnable \<Rightarrow> ('k, 'v) dict \<Rightarrow> nat \<Rightarrow> (('k, 'v) dict \<times> bool) option" where
  "dictRehash ty can_resize d n =
    (if rehash_disabled can_resize d then Some (d, False)
     else do {
       (d, stopped) \<leftarrow> rehash_loop ty n (int n * 10) d;
       if stopped then Some (d, True)
       else (let (d, completed) = dictCheckRehashingCompleted d in Some (d, \<not> completed))
     })"

definition priv_dictRehashStep :: "('k, 'v) dictType \<Rightarrow> dictResizeEnable \<Rightarrow> ('k, 'v) dict \<Rightarrow> ('k, 'v) dict option" where
  "priv_dictRehashStep ty can_resize d = (if pauserehash d = 0 then map_option fst (dictRehash ty can_resize d 1) else Some d)"

definition priv_dictBucketRehash :: "('k, 'v) dictType \<Rightarrow> dictResizeEnable \<Rightarrow> ('k, 'v) dict \<Rightarrow> nat \<Rightarrow> (('k, 'v) dict \<times> bool) option" where
  "priv_dictBucketRehash ty can_resize d idx =
    (if pauserehash d \<noteq> 0 then Some (d, False)
     else if rehash_disabled can_resize d then Some (d, False)
     else do {
       d \<leftarrow> rehashEntriesInBucketAtIndex ty d idx;
       Some (fst (dictCheckRehashingCompleted d), True)
     })"

definition priv_dictRehashStepIfNeeded :: "('k, 'v) dictType \<Rightarrow> dictResizeEnable \<Rightarrow> ('k, 'v) dict \<Rightarrow> nat \<Rightarrow> ('k, 'v) dict option" where
  "priv_dictRehashStepIfNeeded ty can_resize d visitedIdx =
    (if \<not> dictIsRehashing d \<or> pauserehash d \<noteq> 0 then Some d
     else if int visitedIdx \<ge> rehashidx d then do {
       c \<leftarrow> bucket_at (ht0 d) visitedIdx;
       if c \<noteq> [] then map_option fst (priv_dictBucketRehash ty can_resize d visitedIdx)
       else map_option fst (dictRehash ty can_resize d 1)
     }
     else map_option fst (dictRehash ty can_resize d 1))"

text \<open>The loop of \<^verbatim>\<open>_dictResize\<close> that forces a full rehash, with fuel.\<close>

fun rehash_all :: "nat \<Rightarrow> ('k, 'v) dictType \<Rightarrow> dictResizeEnable \<Rightarrow> ('k, 'v) dict \<Rightarrow> ('k, 'v) dict option" where
  "rehash_all 0 ty can_resize d = None"
| "rehash_all (Suc fuel) ty can_resize d =
    do {
      (d, more) \<leftarrow> dictRehash ty can_resize d 1000;
      if more then rehash_all fuel ty can_resize d else Some d
    }"

section \<open>Resizing\<close>

fun bit_length :: "nat \<Rightarrow> nat" where
  "bit_length n = (if n = 0 then 0 else Suc (bit_length (n div 2)))"

declare bit_length.simps [simp del]

definition clzl :: "nat \<Rightarrow> nat" where
  "clzl x = 64 - bit_length x"

definition priv_dictNextExp :: "nat \<Rightarrow> int" where
  "priv_dictNextExp size' =
    (if size' \<le> 4 then 2
     else if size' \<ge> 2 ^ 63 - 1 then 63
     else 64 - int (clzl (size' - 1)))"

text \<open>
  The result is the dictionary, \<open>DICT_OK\<close> as \<open>True\<close>, and the flag \<^verbatim>\<open>malloc_failed\<close>, which is only used with \<open>try\<close>;
  \<open>alloc\<close> tells whether \<^verbatim>\<open>ztrycalloc\<close> finds that many bytes.
\<close>

definition priv_dictResize ::
    "('k, 'v) dictType \<Rightarrow> dictResizeEnable \<Rightarrow> (nat \<Rightarrow> bool) \<Rightarrow> ('k, 'v) dict \<Rightarrow> nat \<Rightarrow> bool \<Rightarrow> (('k, 'v) dict \<times> bool \<times> bool) option" where
  "priv_dictResize ty can_resize alloc d size' try' =
    (if dictIsRehashing d then None
     else
       (let new_exp = priv_dictNextExp size';
            newsize = DICTHT_SIZE new_exp
        in if newsize < size' \<or> newsize * 8 mod 2 ^ 64 < newsize then Some (d, False, False)
           else if new_exp = ht_size_exp (ht0 d) then Some (d, False, False)
           else if try' \<and> \<not> alloc (newsize * 8) then Some (d, False, True)
           else
             (let new_ht = \<lparr>tbl = Some (replicate newsize []), ht_size_exp = new_exp, ht_used = 0\<rparr>;
                  d = d\<lparr>ht1 := new_ht, rehashidx := 0\<rparr>;
                  d = emit RehashingStarted d;
                  d = emit (BucketChanged (int newsize)) d
              in if tbl (ht0 d) = None \<or> ht_used (ht0 d) = 0 then
                   (let d = emit RehashingCompleted d;
                        d = emit (BucketChanged (- int (DICTHT_SIZE (ht_size_exp (ht0 d))))) d;
                        d = d\<lparr>ht0 := new_ht\<rparr>;
                        d = priv_dictReset d 1
                    in Some (d\<lparr>rehashidx := -1\<rparr>, True, False))
                 else if force_full_rehash ty then
                   do { d \<leftarrow> rehash_all (DICTHT_SIZE (ht_size_exp (ht0 d)) + 1) ty can_resize d; Some (d, True, False) }
                 else Some (d, True, False))))"

definition priv_dictExpand ::
    "('k, 'v) dictType \<Rightarrow> dictResizeEnable \<Rightarrow> (nat \<Rightarrow> bool) \<Rightarrow> ('k, 'v) dict \<Rightarrow> nat \<Rightarrow> bool \<Rightarrow> (('k, 'v) dict \<times> bool \<times> bool) option" where
  "priv_dictExpand ty can_resize alloc d size' try' =
    (if dictIsRehashing d \<or> ht_used (ht0 d) > size' \<or> DICTHT_SIZE (ht_size_exp (ht0 d)) \<ge> size' then Some (d, False, False)
     else priv_dictResize ty can_resize alloc d size' try')"

definition dictExpand :: "('k, 'v) dictType \<Rightarrow> dictResizeEnable \<Rightarrow> ('k, 'v) dict \<Rightarrow> nat \<Rightarrow> (('k, 'v) dict \<times> bool) option" where
  "dictExpand ty can_resize d size' =
    do { (d, ok, _) \<leftarrow> priv_dictExpand ty can_resize (\<lambda>_. True) d size' False; Some (d, ok) }"

definition dictTryExpand ::
    "('k, 'v) dictType \<Rightarrow> dictResizeEnable \<Rightarrow> (nat \<Rightarrow> bool) \<Rightarrow> ('k, 'v) dict \<Rightarrow> nat \<Rightarrow> (('k, 'v) dict \<times> bool) option" where
  "dictTryExpand ty can_resize alloc d size' =
    do { (d, _, malloc_failed) \<leftarrow> priv_dictExpand ty can_resize alloc d size' True; Some (d, \<not> malloc_failed) }"

definition dictShrink :: "('k, 'v) dictType \<Rightarrow> dictResizeEnable \<Rightarrow> ('k, 'v) dict \<Rightarrow> nat \<Rightarrow> (('k, 'v) dict \<times> bool) option" where
  "dictShrink ty can_resize d size' =
    (if dictIsRehashing d \<or> ht_used (ht0 d) > size' \<or> DICTHT_SIZE (ht_size_exp (ht0 d)) \<le> size' then Some (d, False)
     else do { (d, ok, _) \<leftarrow> priv_dictResize ty can_resize (\<lambda>_. True) d size' False; Some (d, ok) })"

definition dictTypeResizeAllowed :: "('k, 'v) dictType \<Rightarrow> ('k, 'v) dict \<Rightarrow> nat \<Rightarrow> bool" where
  "dictTypeResizeAllowed ty d size' =
    (case resizeAllowed ty of
       None \<Rightarrow> True
     | Some f \<Rightarrow> f (DICTHT_SIZE (priv_dictNextExp size') * 8) (ht_used (ht0 d), DICTHT_SIZE (ht_size_exp (ht0 d))))"

definition dictExpandIfNeeded :: "('k, 'v) dictType \<Rightarrow> dictResizeEnable \<Rightarrow> ('k, 'v) dict \<Rightarrow> (('k, 'v) dict \<times> bool) option" where
  "dictExpandIfNeeded ty can_resize d =
    (let used = ht_used (ht0 d); size0 = DICTHT_SIZE (ht_size_exp (ht0 d))
     in if dictIsRehashing d then Some (d, True)
        else if size0 = 0 then do { (d, _) \<leftarrow> dictExpand ty can_resize d 4; Some (d, True) }
        else if (can_resize = DICT_RESIZE_ENABLE \<and> used \<ge> size0) \<or>
                (can_resize \<noteq> DICT_RESIZE_FORBID \<and> used \<ge> dict_force_resize_ratio * size0) then
          (if dictTypeResizeAllowed ty d (used + 1)
           then do { (d, _) \<leftarrow> dictExpand ty can_resize d (used + 1); Some (d, True) }
           else Some (d, True))
        else Some (d, False))"

definition priv_dictExpandIfNeeded :: "('k, 'v) dictType \<Rightarrow> dictResizeEnable \<Rightarrow> ('k, 'v) dict \<Rightarrow> (('k, 'v) dict \<times> bool) option" where
  "priv_dictExpandIfNeeded ty can_resize d =
    (if pauseAutoResize d > 0 then Some (d, False) else dictExpandIfNeeded ty can_resize d)"

definition dictShrinkIfNeeded :: "('k, 'v) dictType \<Rightarrow> dictResizeEnable \<Rightarrow> ('k, 'v) dict \<Rightarrow> (('k, 'v) dict \<times> bool) option" where
  "dictShrinkIfNeeded ty can_resize d =
    (let used = ht_used (ht0 d); size0 = DICTHT_SIZE (ht_size_exp (ht0 d))
     in if dictIsRehashing d then Some (d, True)
        else if size0 \<le> 4 then Some (d, True)
        else if (can_resize = DICT_RESIZE_ENABLE \<and> used * HASHTABLE_MIN_FILL \<le> size0) \<or>
                (can_resize \<noteq> DICT_RESIZE_FORBID \<and> used * HASHTABLE_MIN_FILL * dict_force_resize_ratio \<le> size0) then
          (if dictTypeResizeAllowed ty d used
           then do { (d, _) \<leftarrow> dictShrink ty can_resize d used; Some (d, True) }
           else Some (d, True))
        else Some (d, False))"

definition priv_dictShrinkIfNeeded :: "('k, 'v) dictType \<Rightarrow> dictResizeEnable \<Rightarrow> ('k, 'v) dict \<Rightarrow> ('k, 'v) dict option" where
  "priv_dictShrinkIfNeeded ty can_resize d =
    (if pauseAutoResize d > 0 then Some d else map_option fst (dictShrinkIfNeeded ty can_resize d))"

section \<open>Lookup\<close>

fun find_pos :: "('k \<Rightarrow> 'k \<Rightarrow> bool) \<Rightarrow> 'k \<Rightarrow> ('k, 'v) dictEntry list \<Rightarrow> nat option" where
  "find_pos cmp key [] = None"
| "find_pos cmp key (he # c) =
    (if key = dictGetKey he \<or> cmp key (dictGetKey he) then Some 0 else map_option Suc (find_pos cmp key c))"

text \<open>
  The loop over the tables that lookup, insertion and deletion share: where the key is, or the last bucket searched. Table 0
  is skipped when the bucket there has been rehashed already; table 1 is searched only while rehashing.
\<close>

definition search_table :: "('k, 'v) dictType \<Rightarrow> ('k, 'v) dict \<Rightarrow> w64 \<Rightarrow> 'k \<Rightarrow> nat \<Rightarrow> (nat \<times> nat option) option" where
  "search_table ty d hash key table =
    (let idx = ht_index hash (ht_size_exp (ht d table))
     in do { c \<leftarrow> bucket_at (ht d table) idx; Some (idx, find_pos (dictGetCmpFunc ty d) key c) })"

definition search_tables :: "('k, 'v) dictType \<Rightarrow> ('k, 'v) dict \<Rightarrow> w64 \<Rightarrow> 'k \<Rightarrow> nat \<Rightarrow> (dictEntryLink + (nat \<times> nat)) option" where
  "search_tables ty d hash key idx =
    do {
      (idx, found) \<leftarrow> (if int idx < rehashidx d then Some (idx, None) else search_table ty d hash key 0);
      case found of
        Some p \<Rightarrow> Some (Inl (0, idx, p))
      | None \<Rightarrow>
          if \<not> dictIsRehashing d then Some (Inr (0, idx))
          else do {
            (idx, found) \<leftarrow> search_table ty d hash key 1;
            Some (case found of Some p \<Rightarrow> Inl (1, idx, p) | None \<Rightarrow> Inr (1, idx))
          }
    }"

text \<open>The link of a key, and the bucket that the key is mapped to, which is only wanted by \<^verbatim>\<open>dictSetKeyAtLink\<close>.\<close>

definition dictFindLinkInternal ::
    "('k, 'v) dictType \<Rightarrow> dictResizeEnable \<Rightarrow> ('k, 'v) dict \<Rightarrow> 'k \<Rightarrow> bool \<Rightarrow> (('k, 'v) dict \<times> dictEntryLink option \<times> (nat \<times> nat) option) option" where
  "dictFindLinkInternal ty can_resize d key bucket =
    (if \<not> bucket \<and> dictSize d = 0 then Some (d, None, None)
     else
       (let hash = dictHashKey ty key (useStoredKeyApi d);
            idx = ht_index hash (ht_size_exp (ht0 d))
        in do {
          d \<leftarrow> priv_dictRehashStepIfNeeded ty can_resize d idx;
          if tbl (ht0 d) = None \<and> \<not> dictIsRehashing d then Some (d, None, None)
          else do {
            r \<leftarrow> search_tables ty d hash key idx;
            Some (case r of
                Inl (table, idx, p) \<Rightarrow> (d, Some (table, idx, p), if bucket then Some (table, idx) else None)
              | Inr b \<Rightarrow> (d, None, if bucket then Some b else None))
          }
        }))"

definition dictFindLink ::
    "('k, 'v) dictType \<Rightarrow> dictResizeEnable \<Rightarrow> ('k, 'v) dict \<Rightarrow> 'k \<Rightarrow> bool \<Rightarrow> (('k, 'v) dict \<times> dictEntryLink option \<times> (nat \<times> nat) option) option" where
  "dictFindLink ty can_resize d key bucket =
    (if dictSize d = 0 then Some (d, None, None) else dictFindLinkInternal ty can_resize d key bucket)"

definition deref :: "('k, 'v) dict \<Rightarrow> dictEntryLink \<Rightarrow> ('k, 'v) dictEntry option" where
  "deref d link =
    (case link of (table, idx, p) \<Rightarrow> do { c \<leftarrow> bucket_at (ht d table) idx; if p < length c then Some (c ! p) else None })"

definition dictFind :: "('k, 'v) dictType \<Rightarrow> dictResizeEnable \<Rightarrow> ('k, 'v) dict \<Rightarrow> 'k \<Rightarrow> (('k, 'v) dict \<times> ('k, 'v) dictEntry option) option" where
  "dictFind ty can_resize d key =
    do {
      (d, link, _) \<leftarrow> dictFindLink ty can_resize d key False;
      case link of None \<Rightarrow> Some (d, None) | Some l \<Rightarrow> do { de \<leftarrow> deref d l; Some (d, Some de) }
    }"

definition dictFetchValue :: "('k, 'v) dictType \<Rightarrow> dictResizeEnable \<Rightarrow> ('k, 'v) dict \<Rightarrow> 'k \<Rightarrow> (('k, 'v) dict \<times> 'v option option) option" where
  "dictFetchValue ty can_resize d key =
    do {
      (d, he) \<leftarrow> dictFind ty can_resize d key;
      case he of None \<Rightarrow> Some (d, None) | Some he \<Rightarrow> do { v \<leftarrow> dictGetVal he; Some (d, Some v) }
    }"

section \<open>Insertion\<close>

text \<open>The place for a new key, or the entry that has the key already.\<close>

definition dictFindLinkForInsert ::
    "('k, 'v) dictType \<Rightarrow> dictResizeEnable \<Rightarrow> ('k, 'v) dict \<Rightarrow> 'k \<Rightarrow> (('k, 'v) dict \<times> (dictEntryLink + (nat \<times> nat))) option" where
  "dictFindLinkForInsert ty can_resize d key =
    (let hash = dictHashKey ty key (useStoredKeyApi d);
         idx = ht_index hash (ht_size_exp (ht0 d))
     in do {
       d \<leftarrow> priv_dictRehashStepIfNeeded ty can_resize d idx;
       (d, _) \<leftarrow> priv_dictExpandIfNeeded ty can_resize d;
       r \<leftarrow> search_tables ty d hash key idx;
       Some (d, r)
     })"

definition dictInsertKeyAtLink :: "('k, 'v) dictType \<Rightarrow> ('k, 'v) dict \<Rightarrow> 'k \<Rightarrow> nat \<times> nat \<Rightarrow> (('k, 'v) dict \<times> dictEntryLink) option" where
  "dictInsertKeyAtLink ty d key link =
    (case link of (table, idx) \<Rightarrow>
      (let htidx = (if dictIsRehashing d then 1 else 0)
       in if table \<noteq> htidx then None
          else do {
            c \<leftarrow> bucket_at (ht d htidx) idx;
            let entry = (if no_value ty then (if c = [] then IsKey key else NoValue key) else Normal key None);
            Some (set_ht d htidx ((set_bucket (ht d htidx) idx (entry # c))\<lparr>ht_used := ht_used (ht d htidx) + 1\<rparr>), (htidx, idx, 0))
          }))"

definition dictAddRaw :: "('k, 'v) dictType \<Rightarrow> dictResizeEnable \<Rightarrow> ('k, 'v) dict \<Rightarrow> 'k \<Rightarrow> (('k, 'v) dict \<times> (dictEntryLink + dictEntryLink)) option" where
  "dictAddRaw ty can_resize d key =
    do {
      (d, position) \<leftarrow> dictFindLinkForInsert ty can_resize d key;
      case position of
        Inl existing \<Rightarrow> Some (d, Inl existing)
      | Inr bucket \<Rightarrow> do {
          (d, entry) \<leftarrow> dictInsertKeyAtLink ty d (case keyDup ty of Some dup \<Rightarrow> dup key | None \<Rightarrow> key) bucket;
          Some (d, Inr entry)
        }
    }"

text \<open>
  \<^verbatim>\<open>dictSetKeyAtLink\<close>: with \<open>newItem\<close> the link is the bucket of the key, a link with position 0; it is looked up again when the tables
  were reallocated or it is NULL. Otherwise the link is the one of the key, and only the key of the entry is replaced.
\<close>

fun set_entry_key :: "('k, 'v) dictEntry \<Rightarrow> 'k \<Rightarrow> ('k, 'v) dictEntry" where
  "set_entry_key (NoValue _) key = NoValue key"
| "set_entry_key (IsKey _) key = IsKey key"
| "set_entry_key (Normal _ v) key = Normal key v"

definition find_bucket_again ::
    "('k, 'v) dictType \<Rightarrow> dictResizeEnable \<Rightarrow> ('k, 'v) dict \<Rightarrow> 'k \<Rightarrow> (('k, 'v) dict \<times> dictEntryLink) option" where
  "find_bucket_again ty can_resize d key =
    do {
      (d, link, bucket) \<leftarrow> dictFindLinkInternal ty can_resize (d\<lparr>useStoredKeyApi := True\<rparr>) key True;
      let d = d\<lparr>useStoredKeyApi := False\<rparr>;
      (table, idx) \<leftarrow> bucket;
      if link \<noteq> None then None else Some (d, (table, idx, 0))
    }"

definition dictSetKeyAtLink ::
    "('k, 'v) dictType \<Rightarrow> dictResizeEnable \<Rightarrow> ('k, 'v) dict \<Rightarrow> 'k \<Rightarrow> dictEntryLink option \<Rightarrow> bool \<Rightarrow> (('k, 'v) dict \<times> dictEntryLink) option" where
  "dictSetKeyAtLink ty can_resize d key link newItem =
    (let addedKey = (case keyDup ty of Some dup \<Rightarrow> dup key | None \<Rightarrow> key)
     in if newItem then do {
          let snap = (ht_size_exp (ht0 d), ht_size_exp (ht1 d));
          (d, _) \<leftarrow> dictExpandIfNeeded ty can_resize d;
          (d, table, idx, p) \<leftarrow>
            (case link of
               Some (table, idx, p) \<Rightarrow>
                 if snap = (ht_size_exp (ht0 d), ht_size_exp (ht1 d)) then Some (d, table, idx, p)
                 else find_bucket_again ty can_resize d key
             | None \<Rightarrow> find_bucket_again ty can_resize d key);
          if p \<noteq> 0 then None
          else do {
            (d, _) \<leftarrow> dictInsertKeyAtLink ty d addedKey (table, idx);
            Some (d, (table, idx, p))
          }
        }
        else do {
          (d, link) \<leftarrow>
            (case link of
               Some link \<Rightarrow> Some (d, link)
             | None \<Rightarrow> do { (d, link, _) \<leftarrow> dictFindLink ty can_resize d key False; link \<leftarrow> link; Some (d, link) });
          de \<leftarrow> deref d link;
          case link of (table, idx, p) \<Rightarrow> do {
            c \<leftarrow> bucket_at (ht d table) idx;
            Some (set_ht d table (set_bucket (ht d table) idx (c[p := set_entry_key de addedKey])), link)
          }
        })"

definition set_val_at :: "('k, 'v) dictType \<Rightarrow> ('k, 'v) dict \<Rightarrow> dictEntryLink \<Rightarrow> 'v \<Rightarrow> ('k, 'v) dict option" where
  "set_val_at ty d link val =
    (case link of (table, idx, p) \<Rightarrow>
      do {
        c \<leftarrow> bucket_at (ht d table) idx;
        de \<leftarrow> deref d link;
        de' \<leftarrow> dictSetVal ty de val;
        Some (set_ht d table (set_bucket (ht d table) idx (c[p := de'])))
      })"

definition dictAdd :: "('k, 'v) dictType \<Rightarrow> dictResizeEnable \<Rightarrow> ('k, 'v) dict \<Rightarrow> 'k \<Rightarrow> 'v \<Rightarrow> (('k, 'v) dict \<times> bool) option" where
  "dictAdd ty can_resize d key val =
    do {
      (d, entry) \<leftarrow> dictAddRaw ty can_resize d key;
      case entry of
        Inl _ \<Rightarrow> Some (d, False)
      | Inr link \<Rightarrow> if \<not> no_value ty then do { d \<leftarrow> set_val_at ty d link val; Some (d, True) } else Some (d, True)
    }"

definition dictReplace :: "('k, 'v) dictType \<Rightarrow> dictResizeEnable \<Rightarrow> ('k, 'v) dict \<Rightarrow> 'k \<Rightarrow> 'v \<Rightarrow> (('k, 'v) dict \<times> bool) option" where
  "dictReplace ty can_resize d key val =
    do {
      (d, entry) \<leftarrow> dictAddRaw ty can_resize d key;
      case entry of
        Inr link \<Rightarrow> do { d \<leftarrow> set_val_at ty d link val; Some (d, True) }
      | Inl existing \<Rightarrow> do { de \<leftarrow> deref d existing; oldval \<leftarrow> dictGetVal de; d \<leftarrow> set_val_at ty d existing val; Some (d, False) }
    }"

definition dictAddOrFind :: "('k, 'v) dictType \<Rightarrow> dictResizeEnable \<Rightarrow> ('k, 'v) dict \<Rightarrow> 'k \<Rightarrow> (('k, 'v) dict \<times> dictEntryLink) option" where
  "dictAddOrFind ty can_resize d key =
    do { (d, entry) \<leftarrow> dictAddRaw ty can_resize d key; Some (d, case entry of Inr e \<Rightarrow> e | Inl existing \<Rightarrow> existing) }"

section \<open>Deletion\<close>

definition unlink_at :: "('k, 'v) dict \<Rightarrow> dictEntryLink \<Rightarrow> (('k, 'v) dict \<times> ('k, 'v) dictEntry) option" where
  "unlink_at d link =
    (case link of (table, idx, p) \<Rightarrow>
      do {
        c \<leftarrow> bucket_at (ht d table) idx;
        he \<leftarrow> deref d link;
        if p > 0 \<and> entryIsKey (c ! (p - 1)) then None
        else Some (set_ht d table ((set_bucket (ht d table) idx (take p c @ drop (Suc p) c))\<lparr>ht_used := ht_used (ht d table) - 1\<rparr>), he)
      })"

definition dictGenericDelete :: "('k, 'v) dictType \<Rightarrow> dictResizeEnable \<Rightarrow> ('k, 'v) dict \<Rightarrow> 'k \<Rightarrow> (('k, 'v) dict \<times> ('k, 'v) dictEntry option) option" where
  "dictGenericDelete ty can_resize d key =
    (if dictSize d = 0 then Some (d, None)
     else
       (let h = dictHashKey ty key (useStoredKeyApi d);
            idx = ht_index h (ht_size_exp (ht0 d))
        in do {
          d \<leftarrow> priv_dictRehashStepIfNeeded ty can_resize d idx;
          r \<leftarrow> search_tables ty d h key idx;
          case r of
            Inr _ \<Rightarrow> Some (d, None)
          | Inl link \<Rightarrow> do {
              (d, he) \<leftarrow> unlink_at d link;
              d \<leftarrow> priv_dictShrinkIfNeeded ty can_resize d;
              Some (d, Some he)
            }
        }))"

definition dictDelete :: "('k, 'v) dictType \<Rightarrow> dictResizeEnable \<Rightarrow> ('k, 'v) dict \<Rightarrow> 'k \<Rightarrow> (('k, 'v) dict \<times> bool) option" where
  "dictDelete ty can_resize d key = do { (d, he) \<leftarrow> dictGenericDelete ty can_resize d key; Some (d, he \<noteq> None) }"

definition dictUnlink :: "('k, 'v) dictType \<Rightarrow> dictResizeEnable \<Rightarrow> ('k, 'v) dict \<Rightarrow> 'k \<Rightarrow> (('k, 'v) dict \<times> ('k, 'v) dictEntry option) option" where
  "dictUnlink ty can_resize d key = dictGenericDelete ty can_resize d key"

definition dictTwoPhaseUnlinkFind :: "('k, 'v) dictType \<Rightarrow> dictResizeEnable \<Rightarrow> ('k, 'v) dict \<Rightarrow> 'k \<Rightarrow> (('k, 'v) dict \<times> dictEntryLink option) option" where
  "dictTwoPhaseUnlinkFind ty can_resize d key =
    (if dictSize d = 0 then Some (d, None)
     else do {
       d \<leftarrow> (if dictIsRehashing d then priv_dictRehashStep ty can_resize d else Some d);
       let h = dictHashKey ty key (useStoredKeyApi d);
       r \<leftarrow> search_tables ty d h key (ht_index h (ht_size_exp (ht0 d)));
       Some (case r of Inl link \<Rightarrow> (dictPauseRehashing d, Some link) | Inr _ \<Rightarrow> (d, None))
     })"

definition dictTwoPhaseUnlinkFree :: "('k, 'v) dictType \<Rightarrow> dictResizeEnable \<Rightarrow> ('k, 'v) dict \<Rightarrow> dictEntryLink option \<Rightarrow> ('k, 'v) dict option" where
  "dictTwoPhaseUnlinkFree ty can_resize d plink =
    (case plink of
       None \<Rightarrow> Some d
     | Some link \<Rightarrow> do {
         (d, _) \<leftarrow> unlink_at d link;
         d \<leftarrow> priv_dictShrinkIfNeeded ty can_resize d;
         Some (dictResumeRehashing d)
       })"

definition dictEmpty :: "('k, 'v) dict \<Rightarrow> ('k, 'v) dict" where
  "dictEmpty d =
    (let d = (if dictIsRehashing d then emit RehashingCompleted d else d);
         d = emit (BucketChanged (- int (dictBuckets d))) d;
         d = priv_dictReset (priv_dictReset d 0) 1
     in d\<lparr>rehashidx := -1, pauserehash := 0, pauseAutoResize := 0\<rparr>)"

end
