(* ===== verification/Dict_Inv.thy ===== *)
theory Dict_Inv
  imports Dict "HOL-Library.Multiset"
begin

text \<open>
  The invariant of the hash tables of \<^verbatim>\<open>dict.c\<close> and what its operations do to the finite map that a dictionary stands
  for. Everything that only moves entries or replaces tables keeps the multiset of keys and values.
\<close>

section \<open>The invariant\<close>

text \<open>What \<^verbatim>\<open>dict.h\<close> asks of the callbacks: copies are equal, comparisons decide equality, both hash functions agree.\<close>

definition type_ok :: "('k, 'v) dictType \<Rightarrow> bool" where
  "type_ok ty \<longleftrightarrow>
    (\<forall>f. keyDup ty = Some f \<longrightarrow> (\<forall>k. f k = k)) \<and> (\<forall>f. valDup ty = Some f \<longrightarrow> (\<forall>v. f v = v)) \<and>
    (\<forall>c. keyCompare ty = Some c \<longrightarrow> (\<forall>k k'. c k k' = (k = k'))) \<and>
    (\<forall>c. storedKeyCompare ty = Some c \<longrightarrow> (\<forall>k k'. c k k' = (k = k'))) \<and>
    (\<forall>h. storedHashFunction ty = Some h \<longrightarrow> (\<forall>k. h k = hashFunction ty k))"

fun chain_ok :: "bool \<Rightarrow> ('k, 'v) dictEntry list \<Rightarrow> bool" where
  "chain_ok nv [] = True"
| "chain_ok nv (e # c) = ((if nv then \<not> entryHasValue e \<and> (entryIsKey e \<longrightarrow> c = []) else entryHasValue e) \<and> chain_ok nv c)"

definition in_bucket :: "('k, 'v) dictType \<Rightarrow> int \<Rightarrow> nat \<Rightarrow> ('k, 'v) dictEntry list \<Rightarrow> bool" where
  "in_bucket ty exp i c \<longleftrightarrow> (\<forall>e \<in> set c. ht_index (hashFunction ty (dictGetKey e)) exp = i)"

definition htab_ok :: "('k, 'v) dictType \<Rightarrow> ('k, 'v) htab \<Rightarrow> bool" where
  "htab_ok ty t \<longleftrightarrow>
    (case tbl t of
       None \<Rightarrow> ht_size_exp t = -1 \<and> ht_used t = 0
     | Some b \<Rightarrow> 0 \<le> ht_size_exp t \<and> ht_size_exp t \<le> 60 \<and> length b = 2 ^ nat (ht_size_exp t) \<and> ht_used t = length (concat b) \<and>
         (\<forall>i < length b. chain_ok (no_value ty) (b ! i) \<and> in_bucket ty (ht_size_exp t) i (b ! i)))"

definition entries :: "('k, 'v) htab \<Rightarrow> ('k, 'v) dictEntry list" where
  "entries t = (case tbl t of None \<Rightarrow> [] | Some b \<Rightarrow> concat b)"

fun kv :: "('k, 'v) dictEntry \<Rightarrow> 'k \<times> 'v option" where
  "kv (Normal k v) = (k, v)"
| "kv (NoValue k) = (k, None)"
| "kv (IsKey k) = (k, None)"

definition all_kv :: "('k, 'v) dict \<Rightarrow> ('k \<times> 'v option) list" where
  "all_kv d = map kv (entries (ht0 d) @ entries (ht1 d))"

definition dict_map :: "('k, 'v) dict \<Rightarrow> 'k \<rightharpoonup> 'v option" where
  "dict_map d = map_of (all_kv d)"

definition rehashed_part :: "('k, 'v) dict \<Rightarrow> bool" where
  "rehashed_part d \<longleftrightarrow>
    (\<exists>b. tbl (ht0 d) = Some b \<and> tbl (ht1 d) \<noteq> None \<and> 0 \<le> rehashidx d \<and> rehashidx d \<le> int (length b) \<and> (\<forall>i < nat (rehashidx d). b ! i = []))"

fun bucket_delta :: "dictEvent \<Rightarrow> int" where
  "bucket_delta (BucketChanged n) = n"
| "bucket_delta _ = 0"

definition dict_wf :: "('k, 'v) dictType \<Rightarrow> ('k, 'v) dict \<Rightarrow> bool" where
  "dict_wf ty d \<longleftrightarrow>
    htab_ok ty (ht0 d) \<and> htab_ok ty (ht1 d) \<and> (if dictIsRehashing d then rehashed_part d else ht1 d = reset_htab) \<and>
    distinct (map fst (all_kv d)) \<and> sum_list (map bucket_delta (events d)) = int (dictBuckets d)"

section \<open>Tables\<close>

lemma fst_kv [simp]: "fst (kv e) = dictGetKey e"
  by (cases e) simp_all

lemma cmp_eq: "type_ok ty \<Longrightarrow> dictGetCmpFunc ty d = (=)"
  by (intro ext) (auto simp: type_ok_def dictGetCmpFunc_def split: option.splits if_splits)

lemma hash_eq: "type_ok ty \<Longrightarrow> dictHashKey ty k b = hashFunction ty k"
  by (auto simp: type_ok_def dictHashKey_def split: option.splits if_splits)

lemma ht_index_mod: "0 \<le> e \<Longrightarrow> e < 64 \<Longrightarrow> ht_index h e = unat h mod 2 ^ nat e"
proof -
  assume e: "0 \<le> e" "e < 64"
  have "(of_nat (2 ^ nat e) - 1 :: w64) = mask (nat e)" by (simp add: mask_eq_exp_minus_1)
  then have "h AND DICTHT_SIZE_MASK e = take_bit (nat e) h"
    using e by (simp add: DICTHT_SIZE_MASK_def DICTHT_SIZE_def take_bit_eq_mask)
  then show ?thesis by (simp only: ht_index_def unsigned_take_bit_eq) (simp add: take_bit_eq_mod)
qed

lemma mset_concat_upd: "i < length b \<Longrightarrow> mset (concat (b[i := c])) + mset (b ! i) = mset (concat b) + mset c"
proof -
  assume i: "i < length b"
  then have "b = take i b @ b ! i # drop (Suc i) b" by (rule id_take_nth_drop)
  then have "mset (concat b) = mset (concat (take i b)) + mset (b ! i) + mset (concat (drop (Suc i) b))"
    by (metis concat.simps(2) concat_append mset_append union_assoc)
  then show ?thesis using i by (simp add: upd_conv_take_nth_drop)
qed

definition contents :: "('k, 'v) htab \<Rightarrow> ('k \<times> 'v option) multiset" where
  "contents t = image_mset kv (mset (entries t))"

definition dict_contents :: "('k, 'v) dict \<Rightarrow> ('k \<times> 'v option) multiset" where
  "dict_contents d = contents (ht0 d) + contents (ht1 d)"

lemma dict_contents_all: "dict_contents d = mset (all_kv d)"
  by (simp add: dict_contents_def contents_def all_kv_def)

lemma bucket_at_ok:
  assumes "htab_ok ty t" "bucket_at t i = Some c"
  shows "chain_ok (no_value ty) c" "in_bucket ty (ht_size_exp t) i c" "i < 2 ^ nat (ht_size_exp t)"
    "0 \<le> ht_size_exp t" "ht_size_exp t \<le> 60" "length c \<le> ht_used t"
proof -
  obtain b where b: "tbl t = Some b" "i < length b" "c = b ! i"
    using assms(2) by (auto simp: bucket_at_def split: option.splits if_splits)
  then show "chain_ok (no_value ty) c" "in_bucket ty (ht_size_exp t) i c" "i < 2 ^ nat (ht_size_exp t)"
    "0 \<le> ht_size_exp t" "ht_size_exp t \<le> 60" using assms(1) by (auto simp: htab_ok_def)
  have "mset (concat (b[i := []])) + mset c = mset (concat b)" using mset_concat_upd [OF b(2), of "[]"] b(3) by simp
  then have "length (concat b) = length (concat (b[i := []])) + length c" by (metis size_mset size_union)
  then show "length c \<le> ht_used t" using assms(1) b(1) by (simp add: htab_ok_def)
qed

lemma bucket_at_index: "htab_ok ty t \<Longrightarrow> tbl t \<noteq> None \<Longrightarrow> \<exists>c. bucket_at t (ht_index h (ht_size_exp t)) = Some c"
  by (auto simp: htab_ok_def bucket_at_def ht_index_mod split: option.splits)

lemma set_bucket_ok:
  assumes t: "htab_ok ty t" and i: "bucket_at t i = Some c"
    and c': "chain_ok (no_value ty) c'" "in_bucket ty (ht_size_exp t) i c'"
    and u: "u + length c = ht_used t + length c'"
  shows "htab_ok ty ((set_bucket t i c')\<lparr>ht_used := u\<rparr>)"
    and "contents ((set_bucket t i c')\<lparr>ht_used := u\<rparr>) + image_mset kv (mset c) = contents t + image_mset kv (mset c')"
proof -
  obtain b where b: "tbl t = Some b" "i < length b" "c = b ! i"
    using i by (auto simp: bucket_at_def split: option.splits if_splits)
  have m: "mset (concat (b[i := c'])) + mset c = mset (concat b) + mset c'" using mset_concat_upd [OF b(2)] b(3) by simp
  then have "length (concat (b[i := c'])) + length c = length (concat b) + length c'" by (metis size_mset size_union)
  then have "length (concat (b[i := c'])) = u" using u t b(1) by (simp add: htab_ok_def)
  then show "htab_ok ty ((set_bucket t i c')\<lparr>ht_used := u\<rparr>)"
    using t b c' by (auto simp: htab_ok_def set_bucket_def nth_list_update)
  show "contents ((set_bucket t i c')\<lparr>ht_used := u\<rparr>) + image_mset kv (mset c) = contents t + image_mset kv (mset c')"
    using arg_cong [OF m, of "image_mset kv"] b(1) by (simp add: contents_def entries_def set_bucket_def)
qed

lemma bucket_at_set: "bucket_at (set_bucket t i c) j = (if j = i \<and> bucket_at t i \<noteq> None then Some c else bucket_at t j)"
  by (auto simp: bucket_at_def set_bucket_def split: option.splits)

lemma set_bucket_simps [simp]:
  "ht_size_exp (set_bucket t i c) = ht_size_exp t" "ht_used (set_bucket t i c) = ht_used t" "tbl (set_bucket t i c) = None \<longleftrightarrow> tbl t = None"
  by (auto simp: set_bucket_def)

section \<open>Moving a chain\<close>

lemma moved_index:
  assumes "in_bucket ty e0 idx [de]" "0 \<le> e0" "e0 \<le> 60" "0 \<le> e1" "e1 \<le> 60" "type_ok ty"
  shows "(if e1 > e0 then ht_index (dictHashKey ty (dictGetKey de) True) e1 else ht_index (of_nat idx) e1) = ht_index (hashFunction ty (dictGetKey de)) e1"
proof (cases "e1 > e0")
  case False
  let ?h = "unat (hashFunction ty (dictGetKey de))"
  have idx: "idx = ?h mod 2 ^ nat e0" using assms(1-3) by (simp add: in_bucket_def ht_index_mod)
  moreover have "(2::nat) ^ nat e0 \<le> 2 ^ 60" using assms(3) by (intro power_increasing) auto
  ultimately have "idx < 2 ^ 60" by (metis mod_less_divisor less_le_trans zero_less_numeral zero_less_power)
  then have "unat (of_nat idx :: w64) = idx" by (simp add: unsigned_of_nat take_bit_nat_eq_self)
  moreover have "(2::nat) ^ nat e1 dvd 2 ^ nat e0" using False by (intro le_imp_power_dvd) simp
  ultimately show ?thesis using False assms idx by (simp add: ht_index_mod mod_mod_cancel)
qed (use assms in \<open>simp add: hash_eq\<close>)

lemma rehash_chain_ok:
  assumes "type_ok ty" "0 \<le> e0" "e0 \<le> 60"
  shows "htab_ok ty t1 \<Longrightarrow> tbl t1 \<noteq> None \<Longrightarrow> chain_ok (no_value ty) c \<Longrightarrow> in_bucket ty e0 idx c \<Longrightarrow>
    \<exists>t1'. rehash_chain ty e0 idx c u t1 = Some (u - length c, t1') \<and> htab_ok ty t1' \<and> tbl t1' \<noteq> None \<and>
      ht_size_exp t1' = ht_size_exp t1 \<and> contents t1' = contents t1 + image_mset kv (mset c)"
proof (induction c arbitrary: u t1)
  case (Cons de c)
  define h where "h = ht_index (hashFunction ty (dictGetKey de)) (ht_size_exp t1)"
  obtain dst where dst: "bucket_at t1 h = Some dst" unfolding h_def using bucket_at_index [OF Cons.prems(1,2)] by blast
  note ok = bucket_at_ok [OF Cons.prems(1) dst]
  have h: "(if ht_size_exp t1 > e0 then ht_index (dictHashKey ty (dictGetKey de) True) (ht_size_exp t1) else ht_index (of_nat idx) (ht_size_exp t1)) = h"
    unfolding h_def using assms ok(4,5) Cons.prems(4) by (intro moved_index) (simp_all add: in_bucket_def)
  define de' where "de' = (if no_value ty then (if dst = [] then IsKey (dictGetKey de) else NoValue (dictGetKey de)) else de)"
  have nv: "no_value ty \<Longrightarrow> \<not> entryHasValue de" "\<not> no_value ty \<Longrightarrow> entryHasValue de" using Cons.prems(3) by (simp_all split: if_splits)
  have de': "kv de' = kv de" "dictGetKey de' = dictGetKey de" "chain_ok (no_value ty) (de' # dst)"
    using nv ok(1) by (cases de; force simp: de'_def)+
  have choose: "(if no_value ty then (if dst = [] then Some (IsKey (dictGetKey de)) else if entryIsKey de then Some (NoValue (dictGetKey de))
      else if entryIsNoValue de then Some de else None) else if entryIsKey de then None else Some de) = Some de'"
    using nv by (cases de) (auto simp: de'_def)
  define t1' where "t1' = (set_bucket t1 h (de' # dst))\<lparr>ht_used := ht_used t1 + 1\<rparr>"
  have inb: "in_bucket ty (ht_size_exp t1) h (de' # dst)" using ok(2) de'(2) by (simp add: in_bucket_def h_def)
  have t1': "htab_ok ty t1'" "contents t1' = contents t1 + {#kv de#}"
    using set_bucket_ok [OF Cons.prems(1) dst de'(3) inb, of "ht_used t1 + 1"] de'(1) by (simp_all add: t1'_def)
  have "\<exists>t2. rehash_chain ty e0 idx c (u - 1) t1' = Some (u - 1 - length c, t2) \<and> htab_ok ty t2 \<and> tbl t2 \<noteq> None \<and>
      ht_size_exp t2 = ht_size_exp t1' \<and> contents t2 = contents t1' + image_mset kv (mset c)"
    using Cons.prems t1'(1) by (intro Cons.IH) (simp_all add: t1'_def in_bucket_def)
  then show ?case
    unfolding rehash_chain.simps Let_def h dst bind.bind_lunit choose t1'_def [symmetric] using t1'(2) by (auto simp: t1'_def)
qed simp

end
