(* ===== verification/Dict_Rehash.thy ===== *)
theory Dict_Rehash
  imports Dict_Inv
begin

text \<open>
  Incremental rehashing and resizing of \<^verbatim>\<open>dict.c\<close> keep the invariant and the contents of the dictionary, never access a
  bucket outside the tables, and make progress.
\<close>

section \<open>What is kept\<close>

definition keeps :: "('k, 'v) dictType \<Rightarrow> ('k, 'v) dict \<Rightarrow> ('k, 'v) dict \<Rightarrow> bool" where
  "keeps ty d d' \<longleftrightarrow>
    dict_wf ty d' \<and> dict_contents d' = dict_contents d \<and> useStoredKeyApi d' = useStoredKeyApi d \<and> pauserehash d' = pauserehash d \<and>
    pauseAutoResize d' = pauseAutoResize d \<and> (tbl (ht0 d) \<noteq> None \<longrightarrow> tbl (ht0 d') \<noteq> None)"

lemma keeps_refl: "dict_wf ty d \<Longrightarrow> keeps ty d d"
  by (simp add: keeps_def)

lemma keeps_trans: "keeps ty d d' \<Longrightarrow> keeps ty d' d'' \<Longrightarrow> keeps ty d d''"
  by (simp add: keeps_def)

lemma keeps_wf: "keeps ty d d' \<Longrightarrow> dict_wf ty d'"
  by (simp add: keeps_def)

lemma distinct_contents: "dict_contents d = dict_contents d' \<Longrightarrow> distinct (map fst (all_kv d)) = distinct (map fst (all_kv d'))"
  unfolding dict_contents_all by (intro mset_eq_imp_distinct_iff) simp

lemma dict_map_contents: "dict_contents d = dict_contents d' \<Longrightarrow> distinct (map fst (all_kv d)) \<Longrightarrow> dict_map d = dict_map d'"
proof -
  assume a: "dict_contents d = dict_contents d'" "distinct (map fst (all_kv d))"
  then have "set (all_kv d) = set (all_kv d')" using mset_eq_setD [of "all_kv d" "all_kv d'"] by (simp add: dict_contents_all)
  then show ?thesis using a distinct_contents [OF a(1)] by (simp add: dict_map_def map_of_inject_set)
qed

lemma keeps_map: "dict_wf ty d \<Longrightarrow> keeps ty d d' \<Longrightarrow> dict_map d' = dict_map d"
  using dict_map_contents [of d d'] by (simp add: keeps_def dict_wf_def)

lemma wf_tables: "dict_wf ty d \<Longrightarrow> htab_ok ty (ht0 d)" "dict_wf ty d \<Longrightarrow> htab_ok ty (ht1 d)"
  by (simp_all add: dict_wf_def)

lemma wf_rehashing:
  assumes "dict_wf ty d" "dictIsRehashing d"
  shows "\<exists>b. tbl (ht0 d) = Some b \<and> tbl (ht1 d) \<noteq> None \<and> 0 \<le> rehashidx d \<and> rehashidx d \<le> int (length b) \<and>
    (\<forall>i < nat (rehashidx d). b ! i = []) \<and> DICTHT_SIZE (ht_size_exp (ht0 d)) = length b"
proof -
  obtain b where b: "tbl (ht0 d) = Some b" "tbl (ht1 d) \<noteq> None" "0 \<le> rehashidx d" "rehashidx d \<le> int (length b)"
    "\<forall>i < nat (rehashidx d). b ! i = []"
    using assms unfolding dict_wf_def rehashed_part_def by auto
  moreover have "DICTHT_SIZE (ht_size_exp (ht0 d)) = length b"
    using wf_tables(1) [OF assms(1)] b(1) by (auto simp: htab_ok_def DICTHT_SIZE_def)
  ultimately show ?thesis by blast
qed

section \<open>One bucket\<close>

lemma nth_upd_Nil: "b ! i = [] \<Longrightarrow> b[j := []] ! i = []"
  by (cases "i = j"; cases "j < length b") (simp_all add: list_update_beyond)

lemma rehash_bucket:
  assumes ty: "type_ok ty" and d: "dict_wf ty d" "dictIsRehashing d" and c: "bucket_at (ht0 d) idx = Some c"
  shows "\<exists>t1. rehashEntriesInBucketAtIndex ty d idx =
      Some (d\<lparr>ht0 := (set_bucket (ht0 d) idx [])\<lparr>ht_used := ht_used (ht0 d) - length c\<rparr>, ht1 := t1\<rparr>) \<and>
      keeps ty d (d\<lparr>ht0 := (set_bucket (ht0 d) idx [])\<lparr>ht_used := ht_used (ht0 d) - length c\<rparr>, ht1 := t1\<rparr>) \<and>
      ht_size_exp t1 = ht_size_exp (ht1 d)"
proof -
  note ok = bucket_at_ok [OF wf_tables(1) [OF d(1)] c]
  obtain b where b: "tbl (ht0 d) = Some b" "tbl (ht1 d) \<noteq> None" "0 \<le> rehashidx d" "rehashidx d \<le> int (length b)"
    "\<forall>i < nat (rehashidx d). b ! i = []" using wf_rehashing [OF d] by blast
  obtain t1 where t1: "rehash_chain ty (ht_size_exp (ht0 d)) idx c (ht_used (ht0 d)) (ht1 d) = Some (ht_used (ht0 d) - length c, t1)"
    "htab_ok ty t1" "tbl t1 \<noteq> None" "ht_size_exp t1 = ht_size_exp (ht1 d)" "contents t1 = contents (ht1 d) + image_mset kv (mset c)"
    using rehash_chain_ok [OF ty ok(4,5) wf_tables(2) [OF d(1)] b(2) ok(1,2), of "ht_used (ht0 d)"] by blast
  define t0 where "t0 = (set_bucket (ht0 d) idx [])\<lparr>ht_used := ht_used (ht0 d) - length c\<rparr>"
  have t0: "htab_ok ty t0" "contents t0 + image_mset kv (mset c) = contents (ht0 d)"
    using set_bucket_ok [OF wf_tables(1) [OF d(1)] c, of "[]" "ht_used (ht0 d) - length c"] ok(6) by (simp_all add: t0_def in_bucket_def)
  define d' where "d' = d\<lparr>ht0 := t0, ht1 := t1\<rparr>"
  have con: "dict_contents d' = dict_contents d"
    using t0(2) t1(5) by (simp add: dict_contents_def d'_def)
  have "rehashed_part d'"
    using b t1(3) by (auto simp: rehashed_part_def d'_def t0_def set_bucket_def nth_upd_Nil)
  moreover have "dictBuckets d' = dictBuckets d" using t1(4) by (simp add: dictBuckets_def d'_def t0_def)
  ultimately have "dict_wf ty d'"
    using d t0(1) t1(2) distinct_contents [OF con] by (simp add: dict_wf_def dictIsRehashing_def d'_def)
  then have "keeps ty d d'" using con b(1) by (simp add: keeps_def d'_def t0_def)
  then show ?thesis using c t1(1,4) by (auto simp: rehashEntriesInBucketAtIndex_def d'_def t0_def)
qed

lemma entries_unused: "htab_ok ty t \<Longrightarrow> ht_used t = 0 \<Longrightarrow> entries t = []"
  by (simp add: htab_ok_def entries_def split: option.splits)

lemma completed_keeps:
  assumes d: "dict_wf ty d" "dictIsRehashing d"
  shows "keeps ty d (fst (dictCheckRehashingCompleted d))"
    and "snd (dictCheckRehashingCompleted d) \<Longrightarrow> rehashidx (fst (dictCheckRehashingCompleted d)) = -1"
    and "\<not> snd (dictCheckRehashingCompleted d) \<Longrightarrow> fst (dictCheckRehashingCompleted d) = d \<and> ht_used (ht0 d) \<noteq> 0"
proof -
  show "keeps ty d (fst (dictCheckRehashingCompleted d))"
  proof (cases "ht_used (ht0 d) = 0")
    case True
    define d' where "d' = fst (dictCheckRehashingCompleted d)"
    have d': "ht0 d' = ht1 d" "ht1 d' = reset_htab" "rehashidx d' = -1" "useStoredKeyApi d' = useStoredKeyApi d" "pauserehash d' = pauserehash d"
      "pauseAutoResize d' = pauseAutoResize d"
      "events d' = events d @ [RehashingCompleted, BucketChanged (- int (DICTHT_SIZE (ht_size_exp (ht0 d))))]"
      using True by (simp_all add: d'_def dictCheckRehashingCompleted_def Let_def emit_def priv_dictReset_def set_ht_def)
    have con: "dict_contents d' = dict_contents d"
      using entries_unused [OF wf_tables(1) [OF d(1)] True] by (simp add: dict_contents_def d' contents_def entries_def reset_htab_def)
    have "htab_ok ty (ht1 d')" by (simp add: d' reset_htab_def htab_ok_def)
    moreover have "sum_list (map bucket_delta (events d')) = int (dictBuckets d')"
      using d(1) by (simp add: d' dict_wf_def dictBuckets_def reset_htab_def DICTHT_SIZE_def)
    ultimately have "dict_wf ty d'"
      using wf_tables [OF d(1)] d(1) distinct_contents [OF con] by (simp add: dict_wf_def dictIsRehashing_def d')
    moreover have "tbl (ht1 d) \<noteq> None" using wf_rehashing [OF d] by blast
    ultimately show ?thesis using con d' by (simp add: keeps_def d'_def [symmetric])
  qed (simp add: dictCheckRehashingCompleted_def keeps_refl d)
qed (auto simp: dictCheckRehashingCompleted_def Let_def split: if_splits)

section \<open>Many buckets\<close>

lemma set_rehashidx:
  assumes d: "dict_wf ty d" "dictIsRehashing d" and b: "tbl (ht0 d) = Some b" and i: "i \<le> length b" "\<forall>k < i. b ! k = []"
  shows "keeps ty d (d\<lparr>rehashidx := int i\<rparr>)"
proof -
  have "rehashed_part (d\<lparr>rehashidx := int i\<rparr>)" using wf_rehashing [OF d] b i by (auto simp: rehashed_part_def)
  then show ?thesis using d
    by (simp add: keeps_def dict_wf_def dictIsRehashing_def dict_contents_def all_kv_def dictBuckets_def)
qed

lemma rest_non_empty:
  assumes d: "dict_wf ty d" "dictIsRehashing d" and u: "ht_used (ht0 d) \<noteq> 0" and b: "tbl (ht0 d) = Some b"
  shows "\<exists>j \<ge> nat (rehashidx d). j < length b \<and> b ! j \<noteq> []"
proof (rule ccontr)
  assume "\<not> ?thesis"
  then have "\<forall>j < length b. b ! j = []" using wf_rehashing [OF d] b by (metis linorder_not_le option.inject)
  then have "concat b = []" by (simp add: all_set_conv_all_nth)
  then show False using u b wf_tables(1) [OF d(1)] by (simp add: htab_ok_def)
qed

lemma skip_empty_ok:
  "\<exists>j \<ge> i. j < length b \<and> b ! j \<noteq> [] \<Longrightarrow>
    \<exists>i' ev' ex. skip_empty b ev i = Some (i', ev', ex) \<and> i \<le> i' \<and> i' < length b \<and> (\<forall>k. i \<le> k \<and> k < i' \<longrightarrow> b ! k = []) \<and>
      (ex \<longrightarrow> i < i') \<and> (\<not> ex \<longrightarrow> b ! i' \<noteq> [])"
proof (induction b ev i rule: skip_empty.induct)
  case (1 b ev i)
  then obtain j where j: "i \<le> j" "j < length b" "b ! j \<noteq> []" by blast
  then have il: "i < length b" by simp
  show ?case
  proof (cases "b ! i = []")
    case True
    then have j': "i + 1 \<le> j" using j by (metis Suc_eq_plus1 Suc_leI le_neq_implies_less)
    show ?thesis
    proof (cases "ev - 1 = 0")
      case False
      obtain i' ev' ex where r: "skip_empty b (ev - 1) (i + 1) = Some (i', ev', ex)" "i + 1 \<le> i'" "i' < length b"
        "\<forall>k. i + 1 \<le> k \<and> k < i' \<longrightarrow> b ! k = []" "\<not> ex \<longrightarrow> b ! i' \<noteq> []"
        using 1(1) [OF il True False] j j' by blast
      have "\<forall>k. i \<le> k \<and> k < i' \<longrightarrow> b ! k = []" using r(4) True by (metis Suc_eq_plus1 Suc_leI le_neq_implies_less)
      moreover have "skip_empty b ev i = Some (i', ev', ex)" using r(1) True False il by (subst skip_empty.simps) simp
      ultimately show ?thesis using r(2,3,5) by (intro exI [of _ i'] exI [of _ ev'] exI [of _ ex]) simp
    next
      case ev: True
      then have "skip_empty b ev i = Some (i + 1, 0, True)" using True il by (subst skip_empty.simps) simp
      then show ?thesis using True j(2) j' by (intro exI [of _ "i + 1"] exI [of _ "0 :: int"] exI [of _ True]) (auto simp: less_Suc_eq)
    qed
  next
    case False
    then have "skip_empty b ev i = Some (i, ev, False)" using il by (subst skip_empty.simps) simp
    then show ?thesis using False il by (intro exI [of _ i] exI [of _ ev] exI [of _ False]) auto
  qed
qed

lemma rehash_loop_ok:
  assumes ty: "type_ok ty"
  shows "dict_wf ty d \<Longrightarrow> dictIsRehashing d \<Longrightarrow>
    \<exists>d' st. rehash_loop ty n ev d = Some (d', st) \<and> keeps ty d d' \<and> dictIsRehashing d' \<and> ht_size_exp (ht0 d') = ht_size_exp (ht0 d) \<and>
      ht_size_exp (ht1 d') = ht_size_exp (ht1 d) \<and> rehashidx d \<le> rehashidx d' \<and> (0 < n \<and> ht_used (ht0 d) \<noteq> 0 \<or> st \<longrightarrow> rehashidx d < rehashidx d')"
proof (induction n arbitrary: ev d)
  case (Suc n)
  obtain b where b: "tbl (ht0 d) = Some b" "0 \<le> rehashidx d" "rehashidx d \<le> int (length b)" "\<forall>i < nat (rehashidx d). b ! i = []"
    "DICTHT_SIZE (ht_size_exp (ht0 d)) = length b" using wf_rehashing [OF Suc.prems] by blast
  show ?case
  proof (cases "ht_used (ht0 d) = 0")
    case False
    obtain i ev' ex where s: "skip_empty b ev (nat (rehashidx d)) = Some (i, ev', ex)" "nat (rehashidx d) \<le> i" "i < length b"
      "\<forall>k. nat (rehashidx d) \<le> k \<and> k < i \<longrightarrow> b ! k = []" "ex \<longrightarrow> nat (rehashidx d) < i" "\<not> ex \<longrightarrow> b ! i \<noteq> []"
      using skip_empty_ok [OF rest_non_empty [OF Suc.prems False b(1)], of ev] by blast
    have lt: "DICTHT_SIZE (ht_size_exp (ht0 d)) > nat (rehashidx d)" using b s by simp
    have em: "\<forall>k < i. b ! k = []" using b(4) s(4) by (metis linorder_not_le)
    define di where "di = d\<lparr>rehashidx := int i\<rparr>"
    have di: "keeps ty d di" "dictIsRehashing di" using set_rehashidx [OF Suc.prems b(1) _ em] s(3) by (simp_all add: di_def dictIsRehashing_def)
    show ?thesis
    proof (cases ex)
      case True
      then show ?thesis using False lt b s di by (auto simp: di_def)
    next
      case ne: False
      have bi: "bucket_at (ht0 di) i = Some (b ! i)" using b(1) s(3) by (simp add: di_def bucket_at_def)
      obtain t1 where t1: "rehashEntriesInBucketAtIndex ty di i = Some (di\<lparr>ht0 := (set_bucket (ht0 di) i [])\<lparr>ht_used := ht_used (ht0 di) - length (b ! i)\<rparr>, ht1 := t1\<rparr>)"
        "keeps ty di (di\<lparr>ht0 := (set_bucket (ht0 di) i [])\<lparr>ht_used := ht_used (ht0 di) - length (b ! i)\<rparr>, ht1 := t1\<rparr>)"
        "ht_size_exp t1 = ht_size_exp (ht1 di)" using rehash_bucket [OF ty keeps_wf [OF di(1)] di(2) bi] by blast
      define d2 where "d2 = di\<lparr>ht0 := (set_bucket (ht0 di) i [])\<lparr>ht_used := ht_used (ht0 di) - length (b ! i)\<rparr>, ht1 := t1\<rparr>"
      have d2: "rehashidx d2 = int i" "dictIsRehashing d2" "tbl (ht0 d2) = Some (b[i := []])" "ht_size_exp (ht0 d2) = ht_size_exp (ht0 d)"
        "ht_size_exp (ht1 d2) = ht_size_exp (ht1 d)" using b(1) t1(3) by (simp_all add: d2_def di_def dictIsRehashing_def set_bucket_def)
      have k2: "keeps ty di d2" using t1(2) by (simp add: d2_def)
      have k3: "keeps ty d2 (d2\<lparr>rehashidx := int (Suc i)\<rparr>)"
        using em s(3) by (intro set_rehashidx [OF keeps_wf [OF k2] d2(2,3)]) (auto simp: nth_upd_Nil less_Suc_eq)
      have k: "keeps ty d (d2\<lparr>rehashidx := int (Suc i)\<rparr>)" using di(1) k2 k3 keeps_trans by blast
      obtain d' st where r: "rehash_loop ty n ev' (d2\<lparr>rehashidx := int (Suc i)\<rparr>) = Some (d', st)" "keeps ty (d2\<lparr>rehashidx := int (Suc i)\<rparr>) d'"
        "dictIsRehashing d'" "ht_size_exp (ht0 d') = ht_size_exp (ht0 d2)" "int (Suc i) \<le> rehashidx d'" "ht_size_exp (ht1 d') = ht_size_exp (ht1 d2)"
        using Suc.IH [OF keeps_wf [OF k], of ev'] by (auto simp: dictIsRehashing_def)
      have "rehashidx d2 + 1 = int (Suc i)" using d2(1) by simp
      then have "rehash_loop ty (Suc n) ev d = Some (d', st)"
        using False lt b s ne t1(1) r(1) by (simp add: di_def [symmetric] d2_def [symmetric] add.commute)
      moreover have "rehashidx d < rehashidx d'" using r(5) s(2) by linarith
      ultimately show ?thesis using keeps_trans [OF k r(2)] r(3,4,6) d2(4,5) by auto
    qed
  qed (use Suc.prems in \<open>intro exI [of _ d] exI [of _ False], simp add: keeps_refl\<close>)
qed (intro exI exI [of _ False], auto simp: keeps_refl)

lemma dictRehash_ok:
  assumes ty: "type_ok ty" and d: "dict_wf ty d"
  shows "\<exists>d' more. dictRehash ty can_resize d n = Some (d', more) \<and> keeps ty d d' \<and>
    (dictIsRehashing d' \<longrightarrow> dictIsRehashing d \<and> ht_size_exp (ht0 d') = ht_size_exp (ht0 d)) \<and>
    (more \<longrightarrow> dictIsRehashing d' \<and> (0 < n \<longrightarrow> rehashidx d < rehashidx d')) \<and> (more \<longrightarrow> rehash_disabled can_resize d' = rehash_disabled can_resize d \<and> \<not> rehash_disabled can_resize d) \<and>
    (\<not> more \<longrightarrow> \<not> dictIsRehashing d' \<or> d' = d \<and> rehash_disabled can_resize d)"
proof (cases "rehash_disabled can_resize d")
  case False
  then have rh: "dictIsRehashing d" by (auto simp: rehash_disabled_def Let_def)
  obtain d1 st where r: "rehash_loop ty n (int n * 10) d = Some (d1, st)" "keeps ty d d1" "dictIsRehashing d1"
    "ht_size_exp (ht0 d1) = ht_size_exp (ht0 d)" "rehashidx d \<le> rehashidx d1"
    "0 < n \<and> ht_used (ht0 d) \<noteq> 0 \<or> st \<longrightarrow> rehashidx d < rehashidx d1" "ht_size_exp (ht1 d1) = ht_size_exp (ht1 d)"
    using rehash_loop_ok [OF ty d rh] by blast
  have dis: "rehash_disabled can_resize d1 = rehash_disabled can_resize d" using r(3,4,7) rh by (simp add: rehash_disabled_def)
  show ?thesis
  proof (cases st)
    case True
    then show ?thesis using False r rh dis by (intro exI [of _ d1] exI [of _ True]) (simp add: dictRehash_def)
  next
    case nst: False
    note c = completed_keeps [OF keeps_wf [OF r(2)] r(3)]
    obtain d2 done' where c2: "dictCheckRehashingCompleted d1 = (d2, done')" by (cases "dictCheckRehashingCompleted d1")
    have res: "dictRehash ty can_resize d n = Some (d2, \<not> done')" using False r(1) nst c2 by (simp add: dictRehash_def)
    have k: "keeps ty d d2" using keeps_trans [OF r(2)] c(1) c2 by simp
    show ?thesis
    proof (cases done')
      case True
      then show ?thesis using res k c(2) c2 by (intro exI [of _ d2] exI [of _ False]) (simp add: dictIsRehashing_def)
    next
      case nd: False
      then have d2: "d2 = d1" "ht_used (ht0 d1) \<noteq> 0" using c(3) c2 by simp_all
      have "ht_used (ht0 d) \<noteq> 0"
      proof
        assume "ht_used (ht0 d) = 0"
        then have "d1 = d" using r(1) by (cases n) simp_all
        then show False using d2(2) \<open>ht_used (ht0 d) = 0\<close> by simp
      qed
      then show ?thesis using res k d2 r rh nd dis False by (intro exI [of _ d2] exI [of _ True]) simp
    qed
  qed
qed (intro exI [of _ d] exI [of _ False], simp add: dictRehash_def keeps_refl d)

lemma rehash_all_ok:
  assumes ty: "type_ok ty"
  shows "dict_wf ty d \<Longrightarrow> dictIsRehashing d \<Longrightarrow> int (DICTHT_SIZE (ht_size_exp (ht0 d))) < int fuel + rehashidx d \<Longrightarrow>
    \<exists>d'. rehash_all fuel ty can_resize d = Some d' \<and> keeps ty d d' \<and> (rehashidx d' = -1 \<or> d' = d \<and> rehash_disabled can_resize d)"
proof (induction fuel arbitrary: d)
  case 0
  then show ?case using wf_rehashing [OF 0(1,2)] by auto
next
  case (Suc fuel)
  obtain d1 more where r: "dictRehash ty can_resize d 1000 = Some (d1, more)" "keeps ty d d1"
    "dictIsRehashing d1 \<longrightarrow> ht_size_exp (ht0 d1) = ht_size_exp (ht0 d)"
    "more \<longrightarrow> dictIsRehashing d1 \<and> rehashidx d < rehashidx d1" "more \<longrightarrow> \<not> rehash_disabled can_resize d1"
    "\<not> more \<longrightarrow> \<not> dictIsRehashing d1 \<or> d1 = d \<and> rehash_disabled can_resize d"
    using dictRehash_ok [OF ty Suc.prems(1), of can_resize 1000] by auto
  show ?case
  proof (cases more)
    case True
    then obtain d' where "rehash_all fuel ty can_resize d1 = Some d'" "keeps ty d1 d'" "rehashidx d' = -1 \<or> d' = d1 \<and> rehash_disabled can_resize d1"
      using Suc.IH [OF keeps_wf [OF r(2)]] r Suc.prems(3) by force
    then show ?thesis using r True keeps_trans [OF r(2)] by simp
  next
    case False
    then show ?thesis using r by (auto simp: dictIsRehashing_def)
  qed
qed

end
