(* ===== verification/Dict_Search.thy ===== *)
theory Dict_Search
  imports Dict_Rehash
begin

text \<open>
  The rehashing steps and resizes that the operations of \<^verbatim>\<open>dict.c\<close> trigger keep the contents, and the search through the
  two tables finds a key exactly when the dictionary has it.
\<close>

section \<open>Steps of rehashing\<close>

lemma bucket_rehash_ok:
  assumes ty: "type_ok ty" and d: "dict_wf ty d" and c: "bucket_at (ht0 d) idx = Some c"
  shows "\<exists>d' r. priv_dictBucketRehash ty can_resize d idx = Some (d', r) \<and> keeps ty d d' \<and>
    (dictIsRehashing d' \<longrightarrow> dictIsRehashing d \<and> ht_size_exp (ht0 d') = ht_size_exp (ht0 d))"
proof (cases "pauserehash d \<noteq> 0 \<or> rehash_disabled can_resize d")
  case False
  then have rh: "dictIsRehashing d" by (auto simp: rehash_disabled_def Let_def)
  obtain t1 where t1: "rehashEntriesInBucketAtIndex ty d idx = Some (d\<lparr>ht0 := (set_bucket (ht0 d) idx [])\<lparr>ht_used := ht_used (ht0 d) - length c\<rparr>, ht1 := t1\<rparr>)"
    "keeps ty d (d\<lparr>ht0 := (set_bucket (ht0 d) idx [])\<lparr>ht_used := ht_used (ht0 d) - length c\<rparr>, ht1 := t1\<rparr>)"
    using rehash_bucket [OF ty d rh c] by blast
  define d1 where "d1 = d\<lparr>ht0 := (set_bucket (ht0 d) idx [])\<lparr>ht_used := ht_used (ht0 d) - length c\<rparr>, ht1 := t1\<rparr>"
  have d1: "keeps ty d d1" "dictIsRehashing d1" "ht_size_exp (ht0 d1) = ht_size_exp (ht0 d)"
    using t1(2) rh by (simp_all add: d1_def dictIsRehashing_def)
  note c = completed_keeps [OF keeps_wf [OF d1(1)] d1(2)]
  have res: "priv_dictBucketRehash ty can_resize d idx = Some (fst (dictCheckRehashingCompleted d1), True)"
    using False t1(1) by (simp add: priv_dictBucketRehash_def d1_def)
  have "dictIsRehashing (fst (dictCheckRehashingCompleted d1)) \<longrightarrow> fst (dictCheckRehashingCompleted d1) = d1"
    using c(2,3) by (auto simp: dictIsRehashing_def)
  then show ?thesis using res keeps_trans [OF d1(1) c(1)] d1(3) rh by (metis)
qed (use d in \<open>auto simp: priv_dictBucketRehash_def keeps_refl\<close>)

lemma step_if_needed_ok:
  assumes ty: "type_ok ty" and d: "dict_wf ty d" and idx: "idx = ht_index h (ht_size_exp (ht0 d))"
  shows "\<exists>d'. priv_dictRehashStepIfNeeded ty can_resize d idx = Some d' \<and> keeps ty d d' \<and>
    (dictIsRehashing d' \<longrightarrow> dictIsRehashing d \<and> ht_size_exp (ht0 d') = ht_size_exp (ht0 d))"
proof (cases "\<not> dictIsRehashing d \<or> pauserehash d \<noteq> 0")
  case False
  then have "tbl (ht0 d) \<noteq> None" using wf_rehashing [OF d] by auto
  then obtain c where c: "bucket_at (ht0 d) idx = Some c" using bucket_at_index [OF wf_tables(1) [OF d]] idx by blast
  obtain d1 m where r1: "dictRehash ty can_resize d 1 = Some (d1, m)" "keeps ty d d1"
    "dictIsRehashing d1 \<longrightarrow> dictIsRehashing d \<and> ht_size_exp (ht0 d1) = ht_size_exp (ht0 d)"
    using dictRehash_ok [OF ty d, of can_resize 1] by blast
  obtain d2 r where r2: "priv_dictBucketRehash ty can_resize d idx = Some (d2, r)" "keeps ty d d2"
    "dictIsRehashing d2 \<longrightarrow> dictIsRehashing d \<and> ht_size_exp (ht0 d2) = ht_size_exp (ht0 d)"
    using bucket_rehash_ok [OF ty d c] by blast
  have "priv_dictRehashStepIfNeeded ty can_resize d idx = Some d1 \<or> priv_dictRehashStepIfNeeded ty can_resize d idx = Some d2"
    using False r1(1) r2(1) c by (simp add: priv_dictRehashStepIfNeeded_def)
  then show ?thesis using r1 r2 by blast
qed (use d in \<open>auto simp: priv_dictRehashStepIfNeeded_def keeps_refl\<close>)

section \<open>Resizing\<close>

lemma next_exp_range: "0 \<le> priv_dictNextExp n"
  by (simp add: priv_dictNextExp_def clzl_def)

lemma next_exp_small: "\<not> DICTHT_SIZE (priv_dictNextExp n) * 8 mod 2 ^ 64 < DICTHT_SIZE (priv_dictNextExp n) \<Longrightarrow> priv_dictNextExp n \<le> 60"
proof (rule ccontr)
  assume a: "\<not> DICTHT_SIZE (priv_dictNextExp n) * 8 mod 2 ^ 64 < DICTHT_SIZE (priv_dictNextExp n)" "\<not> priv_dictNextExp n \<le> 60"
  define e where "e = nat (priv_dictNextExp n)"
  have e: "61 \<le> e" "DICTHT_SIZE (priv_dictNextExp n) = 2 ^ e" using a(2) by (simp_all add: e_def DICTHT_SIZE_def)
  have "(2::nat) ^ e * 8 = 2 ^ (e + 3)" by (simp add: power_add)
  moreover have "(2::nat) ^ 64 dvd 2 ^ (e + 3)" using e(1) by (intro le_imp_power_dvd) simp
  ultimately have "(2::nat) ^ e * 8 mod 2 ^ 64 = 0" by (metis dvd_imp_mod_0)
  then show False using a(1) e(2) by simp
qed

lemma resize_ok:
  assumes ty: "type_ok ty" and d: "dict_wf ty d" "\<not> dictIsRehashing d"
  shows "\<exists>d' ok mf. priv_dictResize ty can_resize alloc d n try' = Some (d', ok, mf) \<and> keeps ty d d' \<and> rehashidx d' \<le> 0 \<and>
    (ok \<longrightarrow> tbl (ht0 d') \<noteq> None)"
proof -
  define e where "e = priv_dictNextExp n"
  show ?thesis
  proof (cases "DICTHT_SIZE e < n \<or> DICTHT_SIZE e * 8 mod 2 ^ 64 < DICTHT_SIZE e \<or> e = ht_size_exp (ht0 d) \<or> try' \<and> \<not> alloc (DICTHT_SIZE e * 8)")
    case True
    then have "\<exists>mf. priv_dictResize ty can_resize alloc d n try' = Some (d, False, mf)"
      using d(2) unfolding priv_dictResize_def Let_def e_def [symmetric] by auto
    then show ?thesis using d by (auto simp: keeps_refl dictIsRehashing_def)
  next
    case False
    then have e: "0 \<le> e" "e \<le> 60" using next_exp_range next_exp_small by (simp_all add: e_def)
    define nt :: "('a, 'b) htab" where "nt = \<lparr>tbl = Some (replicate (DICTHT_SIZE e) []), ht_size_exp = e, ht_used = 0\<rparr>"
    have nt: "htab_ok ty nt" "entries nt = []" "tbl nt \<noteq> None" "ht_size_exp nt = e"
      using e by (auto simp: nt_def htab_ok_def entries_def DICTHT_SIZE_def in_bucket_def)
    define d1 where "d1 = emit (BucketChanged (int (DICTHT_SIZE e))) (emit RehashingStarted (d\<lparr>ht1 := nt, rehashidx := 0\<rparr>))"
    have d1: "ht0 d1 = ht0 d" "ht1 d1 = nt" "rehashidx d1 = 0" "useStoredKeyApi d1 = useStoredKeyApi d" "pauserehash d1 = pauserehash d"
      "pauseAutoResize d1 = pauseAutoResize d" "events d1 = events d @ [RehashingStarted, BucketChanged (int (DICTHT_SIZE e))]"
      by (simp_all add: d1_def emit_def)
    have h1: "ht1 d = reset_htab" using d by (simp add: dict_wf_def)
    have con1: "dict_contents d1 = dict_contents d"
      using nt(2) h1 by (simp add: dict_contents_def contents_def d1) (simp add: entries_def reset_htab_def)
    have sum1: "sum_list (map bucket_delta (events d1)) = int (dictBuckets d1)"
      using d(1) h1 by (simp add: d1 dict_wf_def dictBuckets_def nt(4) reset_htab_def DICTHT_SIZE_def)
    show ?thesis
    proof (cases "tbl (ht0 d) = None \<or> ht_used (ht0 d) = 0")
      case True
      define d2 where "d2 = (priv_dictReset ((emit (BucketChanged (- int (DICTHT_SIZE (ht_size_exp (ht0 d))))) (emit RehashingCompleted d1))\<lparr>ht0 := nt\<rparr>) 1)\<lparr>rehashidx := -1\<rparr>"
      have d2: "ht0 d2 = nt" "ht1 d2 = reset_htab" "rehashidx d2 = -1" "useStoredKeyApi d2 = useStoredKeyApi d" "pauserehash d2 = pauserehash d"
        "pauseAutoResize d2 = pauseAutoResize d"
        "events d2 = events d1 @ [RehashingCompleted, BucketChanged (- int (DICTHT_SIZE (ht_size_exp (ht0 d))))]"
        by (simp_all add: d2_def emit_def priv_dictReset_def set_ht_def d1)
      have res: "priv_dictResize ty can_resize alloc d n try' = Some (d2, True, False)"
        using d(2) False True unfolding priv_dictResize_def Let_def e_def [symmetric] nt_def [symmetric]
        by (simp add: d1_def d2_def emit_def)
      have "entries (ht0 d) = []" using True entries_unused [OF wf_tables(1) [OF d(1)]] by (auto simp: entries_def)
      then have con: "dict_contents d2 = dict_contents d"
        using nt(2) h1 by (simp add: dict_contents_def contents_def d2)
      have "sum_list (map bucket_delta (events d2)) = int (dictBuckets d2)"
        using sum1 by (simp add: d2 d1 dictBuckets_def nt(4) reset_htab_def DICTHT_SIZE_def)
      then have "dict_wf ty d2"
        using nt(1) wf_tables(2) [OF d(1)] d(1) h1 distinct_contents [OF con] by (simp add: dict_wf_def dictIsRehashing_def d2)
      then have "keeps ty d d2" using con nt(3) by (simp add: keeps_def d2)
      then show ?thesis using res d2(1,3) nt(3) by (intro exI [of _ d2] exI [of _ True] exI [of _ False]) simp
    next
      case ne: False
      obtain y where y: "tbl (ht0 d) = Some y" "ht_used (ht0 d) \<noteq> 0" using ne by auto
      have "rehashed_part d1" using ne nt(3) by (auto simp: rehashed_part_def d1)
      then have wf1: "dict_wf ty d1"
        using nt(1) wf_tables(1) [OF d(1)] d(1) sum1 distinct_contents [OF con1] by (simp add: dict_wf_def dictIsRehashing_def d1)
      then have k1: "keeps ty d d1" using con1 by (simp add: keeps_def d1)
      have rh1: "dictIsRehashing d1" by (simp add: dictIsRehashing_def d1)
      obtain d2 where d2: "rehash_all (DICTHT_SIZE (ht_size_exp (ht0 d1)) + 1) ty can_resize d1 = Some d2" "keeps ty d1 d2"
        "rehashidx d2 = -1 \<or> d2 = d1"
        using rehash_all_ok [OF ty wf1 rh1, of "DICTHT_SIZE (ht_size_exp (ht0 d1)) + 1" can_resize] d1(3) by auto
      have res: "priv_dictResize ty can_resize alloc d n try' = Some (if force_full_rehash ty then d2 else d1, True, False)"
        using d(2) False y d2(1) unfolding priv_dictResize_def Let_def e_def [symmetric] nt_def [symmetric]
        by (simp add: d1_def [symmetric] d1(1) del: rehash_all.simps)
      have "keeps ty d d2" using k1 d2(2) by (rule keeps_trans)
      then show ?thesis using res k1 d2(3) d1(3) ne
        by (intro exI [of _ "if force_full_rehash ty then d2 else d1"] exI [of _ True] exI [of _ False]) (auto simp: keeps_def)
    qed
  qed
qed

lemma size_zero: "htab_ok ty t \<Longrightarrow> DICTHT_SIZE (ht_size_exp t) = 0 \<longleftrightarrow> tbl t = None"
  by (auto simp: htab_ok_def DICTHT_SIZE_def split: option.splits)

lemma ex_bool [simp]: "Ex Not" "\<exists>b. b"
  by (rule exI [of _ False], simp) (rule exI [of _ True], simp)

lemma expand_ok:
  assumes ty: "type_ok ty" and d: "dict_wf ty d"
  shows "\<exists>d' ok mf. priv_dictExpand ty can_resize alloc d n try' = Some (d', ok, mf) \<and> keeps ty d d' \<and> (d' = d \<or> rehashidx d' \<le> 0)"
proof (cases "dictIsRehashing d \<or> ht_used (ht0 d) > n \<or> DICTHT_SIZE (ht_size_exp (ht0 d)) \<ge> n")
  case False
  then show ?thesis using resize_ok [OF ty d, of can_resize alloc n try'] by (simp add: priv_dictExpand_def) blast
qed (use d in \<open>simp add: priv_dictExpand_def keeps_refl\<close>)

lemma first_expand:
  assumes ty: "type_ok ty" and d: "dict_wf ty d" "tbl (ht0 d) = None"
  shows "\<exists>d' ok. dictExpand ty can_resize d 4 = Some (d', ok) \<and> keeps ty d d' \<and> rehashidx d' \<le> 0 \<and> tbl (ht0 d') \<noteq> None"
proof -
  have e: "ht_size_exp (ht0 d) = -1" "ht_used (ht0 d) = 0" using wf_tables(1) [OF d(1)] d(2) by (simp_all add: htab_ok_def)
  have n: "\<not> dictIsRehashing d" using wf_rehashing [OF d(1)] d(2) by auto
  have "priv_dictNextExp 4 = 2" by (simp add: priv_dictNextExp_def)
  moreover obtain d' ok mf where r: "priv_dictResize ty can_resize (\<lambda>_. True) d 4 False = Some (d', ok, mf)" "keeps ty d d'" "rehashidx d' \<le> 0"
    "ok \<longrightarrow> tbl (ht0 d') \<noteq> None" using resize_ok [OF ty d(1) n] by blast
  ultimately have ok using n e d(2) by (auto simp: priv_dictResize_def Let_def DICTHT_SIZE_def emit_def split: if_splits)
  then show ?thesis using r n e by (simp add: dictExpand_def priv_dictExpand_def DICTHT_SIZE_def)
qed

lemma expand_needed_ok:
  assumes ty: "type_ok ty" and d: "dict_wf ty d"
  shows "\<exists>d' r. dictExpandIfNeeded ty can_resize d = Some (d', r) \<and> keeps ty d d' \<and> (d' = d \<or> rehashidx d' \<le> 0) \<and>
    (dictIsRehashing d \<longrightarrow> d' = d) \<and> tbl (ht0 d') \<noteq> None"
proof (cases "dictIsRehashing d")
  case True
  then show ?thesis using d wf_rehashing [OF d] by (auto simp: dictExpandIfNeeded_def Let_def keeps_refl)
next
  case False
  note z = size_zero [OF wf_tables(1) [OF d]]
  show ?thesis
  proof (cases "tbl (ht0 d) = None")
    case True
    then show ?thesis using False z first_expand [OF ty d True, of can_resize] by (auto simp: dictExpandIfNeeded_def Let_def)
  next
    case t: False
    obtain d' ok mf where r: "priv_dictExpand ty can_resize (\<lambda>_. True) d (ht_used (ht0 d) + 1) False = Some (d', ok, mf)" "keeps ty d d'"
      "d' = d \<or> rehashidx d' \<le> 0" using expand_ok [OF ty d] by blast
    have "\<exists>r. dictExpandIfNeeded ty can_resize d = Some (d, r) \<or> dictExpandIfNeeded ty can_resize d = Some (d', r)"
      using False z t r(1) by (auto simp: dictExpandIfNeeded_def Let_def dictExpand_def)
    then show ?thesis using r(2,3) t d keeps_refl False by (fastforce simp: keeps_def)
  qed
qed

lemma expand_if_needed_ok:
  assumes ty: "type_ok ty" and d: "dict_wf ty d"
  shows "\<exists>d' r. priv_dictExpandIfNeeded ty can_resize d = Some (d', r) \<and> keeps ty d d' \<and> (d' = d \<or> rehashidx d' \<le> 0) \<and>
    (tbl (ht0 d) \<noteq> None \<or> pauseAutoResize d \<le> 0 \<longrightarrow> tbl (ht0 d') \<noteq> None)"
  using expand_needed_ok [OF assms, of can_resize] keeps_refl [OF d]
  by (cases "pauseAutoResize d > 0") (auto simp: priv_dictExpandIfNeeded_def)

lemma shrink_if_needed_ok:
  assumes ty: "type_ok ty" and d: "dict_wf ty d"
  shows "\<exists>d'. priv_dictShrinkIfNeeded ty can_resize d = Some d' \<and> keeps ty d d'"
proof (cases "dictIsRehashing d")
  case False
  obtain d' ok mf where r: "priv_dictResize ty can_resize (\<lambda>_. True) d (ht_used (ht0 d)) False = Some (d', ok, mf)" "keeps ty d d'"
    using resize_ok [OF ty d False] by blast
  have "priv_dictShrinkIfNeeded ty can_resize d = Some d \<or> priv_dictShrinkIfNeeded ty can_resize d = Some d'"
    using False r(1) by (auto simp: priv_dictShrinkIfNeeded_def dictShrinkIfNeeded_def Let_def dictShrink_def)
  then show ?thesis using r(2) d keeps_refl by blast
qed (use d in \<open>auto simp: priv_dictShrinkIfNeeded_def dictShrinkIfNeeded_def Let_def keeps_refl\<close>)

section \<open>Searching\<close>

lemma find_pos_Some: "find_pos (=) k c = Some p \<Longrightarrow> p < length c \<and> dictGetKey (c ! p) = k"
  by (induction c arbitrary: p) (auto split: if_splits)

lemma find_pos_None: "find_pos (=) k c = None \<Longrightarrow> e \<in> set c \<Longrightarrow> dictGetKey e \<noteq> k"
  by (induction c) (auto split: if_splits)

lemma bucket_entries: "bucket_at t i = Some c \<Longrightarrow> e \<in> set c \<Longrightarrow> e \<in> set (entries t)"
  by (auto simp: bucket_at_def entries_def split: option.splits if_splits intro: nth_mem)

lemma entries_bucket:
  assumes "htab_ok ty t" "e \<in> set (entries t)"
  shows "\<exists>c. bucket_at t (ht_index (hashFunction ty (dictGetKey e)) (ht_size_exp t)) = Some c \<and> e \<in> set c"
proof -
  obtain b where b: "tbl t = Some b" "e \<in> set (concat b)" using assms(2) by (cases "tbl t") (simp_all add: entries_def)
  then obtain i where i: "i < length b" "e \<in> set (b ! i)" by (metis in_set_conv_nth UN_E set_concat)
  then have "ht_index (hashFunction ty (dictGetKey e)) (ht_size_exp t) = i" using assms(1) b(1) by (auto simp: htab_ok_def in_bucket_def)
  then show ?thesis using b(1) i by (simp add: bucket_at_def)
qed

lemma dom_dict_map: "dict_map d k = None \<longleftrightarrow> (\<forall>e \<in> set (entries (ht0 d)) \<union> set (entries (ht1 d)). dictGetKey e \<noteq> k)"
  by (force simp: dict_map_def map_of_eq_None_iff all_kv_def image_iff)

lemma absentI:
  assumes "htab_ok ty t" "bucket_at t (ht_index (hashFunction ty k) (ht_size_exp t)) = Some c" "\<And>e. e \<in> set c \<Longrightarrow> dictGetKey e \<noteq> k"
    "e \<in> set (entries t)"
  shows "dictGetKey e \<noteq> k"
  using entries_bucket [OF assms(1,4)] assms(2,3) by (metis option.inject)

definition found_at :: "('k, 'v) dict \<Rightarrow> 'k \<Rightarrow> nat \<times> nat \<times> nat \<Rightarrow> bool" where
  "found_at d k link = (case link of (t, i, p) \<Rightarrow> t \<le> 1 \<and> (\<exists>c. bucket_at (ht d t) i = Some c \<and> p < length c \<and> dictGetKey (c ! p) = k))"

definition free_at :: "('k, 'v) dictType \<Rightarrow> ('k, 'v) dict \<Rightarrow> 'k \<Rightarrow> nat \<times> nat \<Rightarrow> bool" where
  "free_at ty d k bucket =
    (case bucket of (t, i) \<Rightarrow> dict_map d k = None \<and> t = (if dictIsRehashing d then 1 else 0) \<and>
      i = ht_index (hashFunction ty k) (ht_size_exp (ht d t)) \<and> bucket_at (ht d t) i \<noteq> None)"

lemma search_table_ok:
  assumes ty: "type_ok ty" and t: "htab_ok ty (ht d t)" "tbl (ht d t) \<noteq> None"
  shows "\<exists>c r. bucket_at (ht d t) (ht_index (hashFunction ty k) (ht_size_exp (ht d t))) = Some c \<and>
    search_table ty d (hashFunction ty k) k t = Some (ht_index (hashFunction ty k) (ht_size_exp (ht d t)), r) \<and>
    (case r of Some p \<Rightarrow> p < length c \<and> dictGetKey (c ! p) = k | None \<Rightarrow> \<forall>e \<in> set (entries (ht d t)). dictGetKey e \<noteq> k)"
proof -
  obtain c where c: "bucket_at (ht d t) (ht_index (hashFunction ty k) (ht_size_exp (ht d t))) = Some c" using bucket_at_index [OF t] by blast
  have "case find_pos (=) k c of Some p \<Rightarrow> p < length c \<and> dictGetKey (c ! p) = k | None \<Rightarrow> \<forall>e \<in> set (entries (ht d t)). dictGetKey e \<noteq> k"
    using absentI [OF t(1) c] find_pos_None [of k c] find_pos_Some [of k c] by (auto split: option.splits)
  then show ?thesis using c by (simp add: search_table_def cmp_eq [OF ty])
qed

lemma search_tables_ok:
  assumes ty: "type_ok ty" and d: "dict_wf ty d" and t0: "tbl (ht0 d) \<noteq> None"
    and idx: "int idx < rehashidx d \<longrightarrow> idx = ht_index (hashFunction ty k) (ht_size_exp (ht0 d))"
  shows "\<exists>r. search_tables ty d (hashFunction ty k) k idx = Some r \<and> (case r of Inl link \<Rightarrow> found_at d k link | Inr b \<Rightarrow> free_at ty d k b)"
proof -
  note w = wf_tables [OF d]
  have h: "ht d 0 = ht0 d" "ht d 1 = ht1 d" "ht d (Suc 0) = ht1 d" by (simp_all add: ht_def)
  obtain c0 r0 where s0: "bucket_at (ht0 d) (ht_index (hashFunction ty k) (ht_size_exp (ht0 d))) = Some c0"
    "search_table ty d (hashFunction ty k) k 0 = Some (ht_index (hashFunction ty k) (ht_size_exp (ht0 d)), r0)"
    "case r0 of Some p \<Rightarrow> p < length c0 \<and> dictGetKey (c0 ! p) = k | None \<Rightarrow> \<forall>e \<in> set (entries (ht0 d)). dictGetKey e \<noteq> k"
    using search_table_ok [OF ty, of d 0 k, unfolded h, OF w(1) t0] by blast
  show ?thesis
  proof (cases "dictIsRehashing d")
    case False
    then have n: "\<not> int idx < rehashidx d" "entries (ht1 d) = []" using d by (auto simp: dict_wf_def dictIsRehashing_def entries_def reset_htab_def)
    then show ?thesis using False s0
      by (cases r0) (auto simp: search_tables_def found_at_def free_at_def h dom_dict_map)
  next
    case True
    obtain b where b: "tbl (ht0 d) = Some b" "tbl (ht1 d) \<noteq> None" "\<forall>i < nat (rehashidx d). b ! i = []" using wf_rehashing [OF d True] by blast
    obtain c1 r1 where s1: "bucket_at (ht1 d) (ht_index (hashFunction ty k) (ht_size_exp (ht1 d))) = Some c1"
      "search_table ty d (hashFunction ty k) k 1 = Some (ht_index (hashFunction ty k) (ht_size_exp (ht1 d)), r1)"
      "case r1 of Some p \<Rightarrow> p < length c1 \<and> dictGetKey (c1 ! p) = k | None \<Rightarrow> \<forall>e \<in> set (entries (ht1 d)). dictGetKey e \<noteq> k"
      using search_table_ok [OF ty, of d 1 k, unfolded h, OF w(2) b(2)] by blast
    show ?thesis
    proof (cases "int idx < rehashidx d")
      case lt: True
      then have "c0 = []" using idx b s0(1) by (auto simp: bucket_at_def split: if_splits)
      then have "\<forall>e \<in> set (entries (ht0 d)). dictGetKey e \<noteq> k" using absentI [OF w(1) s0(1)] by auto
      then show ?thesis using True lt s1
        by (cases r1) (auto simp: search_tables_def found_at_def free_at_def h dom_dict_map)
    next
      case ge: False
      then show ?thesis using True s0 s1
        by (cases r0; cases r1) (auto simp: search_tables_def found_at_def free_at_def h dom_dict_map)
    qed
  qed
qed

end
