(* ===== verification/Dict_Map.thy ===== *)
theory Dict_Map
  imports Dict_Search
begin

text \<open>
  A dictionary of \<^verbatim>\<open>dict.c\<close> behaves as a finite map: lookup, insertion, replacement and deletion return what the map says and
  change it as expected, whatever rehashing and resizing they trigger on the way.
\<close>

section \<open>Changing a chain\<close>

lemma kv_add:
  assumes "mset xs = add_mset (k, v) (mset ys)"
  shows "distinct (map fst xs) \<longleftrightarrow> distinct (map fst ys) \<and> k \<notin> fst ` set ys"
    and "distinct (map fst xs) \<Longrightarrow> map_of xs = (map_of ys)(k \<mapsto> v)"
proof -
  have m: "mset xs = mset ((k, v) # ys)" using assms by simp
  then have "mset (map fst xs) = mset (map fst ((k, v) # ys))" by (metis mset_map)
  then have "distinct (map fst xs) \<longleftrightarrow> distinct (map fst ((k, v) # ys))" by (rule mset_eq_imp_distinct_iff)
  then show d: "distinct (map fst xs) \<longleftrightarrow> distinct (map fst ys) \<and> k \<notin> fst ` set ys" by auto
  assume "distinct (map fst xs)"
  then have "map_of xs = map_of ((k, v) # ys)" using d mset_eq_setD [OF m] by (intro map_of_inject_set [THEN iffD2]) auto
  then show "map_of xs = (map_of ys)(k \<mapsto> v)" by simp
qed

lemma update_bucket:
  assumes d: "dict_wf ty d" and t: "t \<le> 1" and c: "bucket_at (ht d t) i = Some c"
    and c': "chain_ok (no_value ty) c'" "in_bucket ty (ht_size_exp (ht d t)) i c'" "u + length c = ht_used (ht d t) + length c'"
    and e: "t = 0 \<and> dictIsRehashing d \<and> c = [] \<longrightarrow> c' = []"
  defines "d' \<equiv> set_ht d t ((set_bucket (ht d t) i c')\<lparr>ht_used := u\<rparr>)"
  shows "dict_contents d' + image_mset kv (mset c) = dict_contents d + image_mset kv (mset c')"
    and "distinct (map fst (all_kv d')) \<Longrightarrow> dict_wf ty d'"
    and "bucket_at (ht d' t) i = Some c'" "dictIsRehashing d' = dictIsRehashing d" "ht_size_exp (ht d' t) = ht_size_exp (ht d t)"
    "ht_used (ht d' t) = u" "tbl (ht0 d) \<noteq> None \<Longrightarrow> tbl (ht0 d') \<noteq> None"
proof -
  have w: "htab_ok ty (ht d t)" using wf_tables [OF d] by (simp add: ht_def)
  note ok = set_bucket_ok [OF w c c']
  have t01: "t = 0 \<or> t = 1" using t by auto
  then show "dict_contents d' + image_mset kv (mset c) = dict_contents d + image_mset kv (mset c')"
    using ok(2) by (auto simp: dict_contents_def d'_def set_ht_def ht_def)
  have buckets: "dictBuckets d' = dictBuckets d" by (auto simp: dictBuckets_def d'_def set_ht_def ht_def)
  have ev: "events d' = events d" "rehashidx d' = rehashidx d" by (simp_all add: d'_def set_ht_def)
  have part: "dictIsRehashing d \<Longrightarrow> rehashed_part d'"
  proof -
    assume rh: "dictIsRehashing d"
    obtain b where b: "tbl (ht0 d) = Some b" "tbl (ht1 d) \<noteq> None" "0 \<le> rehashidx d" "rehashidx d \<le> int (length b)"
      "\<forall>j < nat (rehashidx d). b ! j = []" using wf_rehashing [OF d rh] by blast
    show "rehashed_part d'"
    proof (cases "t = 0")
      case True
      then have "c = b ! i" "i < length b" using c b(1) by (auto simp: bucket_at_def ht_def split: if_splits)
      then have "\<forall>j < nat (rehashidx d). b[i := c'] ! j = []" using b(5) e True rh by (auto simp: nth_list_update)
      then show ?thesis using b True by (simp add: rehashed_part_def d'_def set_ht_def ht_def set_bucket_def)
    qed (use b in \<open>simp add: rehashed_part_def d'_def set_ht_def ht_def set_bucket_def\<close>)
  qed
  have "\<not> dictIsRehashing d \<Longrightarrow> ht1 d' = reset_htab"
    using c d t01 by (auto simp: dict_wf_def d'_def set_ht_def ht_def bucket_at_def reset_htab_def)
  then show "distinct (map fst (all_kv d')) \<Longrightarrow> dict_wf ty d'"
    using d part ok(1) buckets ev by (auto simp: dict_wf_def dictIsRehashing_def d'_def set_ht_def ht_def)
  show "bucket_at (ht d' t) i = Some c'" using c by (auto simp: d'_def set_ht_def ht_def bucket_at_def set_bucket_def split: option.splits if_splits)
qed (auto simp: d'_def set_ht_def ht_def dictIsRehashing_def set_bucket_def)

lemma wf_distinct: "dict_wf ty d \<Longrightarrow> distinct (map fst (all_kv d))"
  by (simp add: dict_wf_def)

lemma found_map:
  assumes "dict_wf ty d" "bucket_at (ht d t) i = Some c" "p < length c"
  shows "dict_map d (dictGetKey (c ! p)) = Some (snd (kv (c ! p)))"
proof -
  have "c ! p \<in> set (entries (ht d t))" using bucket_entries [OF assms(2)] assms(3) by simp
  then have "kv (c ! p) \<in> set (all_kv d)" by (auto simp: all_kv_def ht_def split: if_splits)
  then show ?thesis using wf_distinct [OF assms(1)] unfolding dict_map_def
    by (intro map_of_is_SomeI) (auto simp: fst_kv [symmetric] simp del: fst_kv)
qed

lemma insert_ok:
  assumes d: "dict_wf ty d" and f: "free_at ty d k b"
  shows "\<exists>d' link. dictInsertKeyAtLink ty d k b = Some (d', link) \<and> dict_wf ty d' \<and> dict_map d' = (dict_map d)(k \<mapsto> None) \<and>
    found_at d' k link \<and> (\<forall>e. deref d' link = Some e \<longrightarrow> entryHasValue e = (\<not> no_value ty))"
proof -
  obtain t i where b: "b = (t, i)" by (cases b)
  have t: "t = (if dictIsRehashing d then 1 else 0)" "i = ht_index (hashFunction ty k) (ht_size_exp (ht d t))" "dict_map d k = None"
    using f by (simp_all add: free_at_def b)
  obtain c where c: "bucket_at (ht d t) i = Some c" using f by (auto simp: free_at_def b)
  define en :: "('a, 'b) dictEntry" where "en = (if no_value ty then (if c = [] then IsKey k else NoValue k) else Normal k None)"
  have w: "htab_ok ty (ht d t)" using wf_tables [OF d] by (simp add: ht_def)
  note ok = bucket_at_ok [OF w c]
  have en: "dictGetKey en = k" "kv en = (k, None)" "chain_ok (no_value ty) (en # c)" "entryHasValue en = (\<not> no_value ty)"
    using ok(1) by (auto simp: en_def)
  have inb: "in_bucket ty (ht_size_exp (ht d t)) i (en # c)" using ok(2) en(1) t(2) by (simp add: in_bucket_def)
  define d' where "d' = set_ht d t ((set_bucket (ht d t) i (en # c))\<lparr>ht_used := ht_used (ht d t) + 1\<rparr>)"
  have t1: "t \<le> 1" "t = 0 \<and> dictIsRehashing d \<and> c = [] \<longrightarrow> en # c = []" using t(1) by auto
  note u = update_bucket [OF d t1(1) c en(3) inb, of "ht_used (ht d t) + 1", OF _ t1(2), folded d'_def, simplified]
  have m: "mset (all_kv d') = add_mset (k, None) (mset (all_kv d))" using u(1) en(2) by (simp add: dict_contents_all)
  have "k \<notin> fst ` set (all_kv d)" using t(3) by (simp add: dict_map_def map_of_eq_None_iff)
  then have di: "distinct (map fst (all_kv d'))" using kv_add(1) [OF m] wf_distinct [OF d] by simp
  have res: "dictInsertKeyAtLink ty d k b = Some (d', (t, i, 0))"
    using c t(1) by (simp add: dictInsertKeyAtLink_def b en_def d'_def)
  have "found_at d' k (t, i, 0)" "deref d' (t, i, 0) = Some en" using u(3) en(1) t1(1) by (simp_all add: found_at_def deref_def)
  then show ?thesis using res u(2) [OF di] kv_add(2) [OF m di] en(4) by (simp add: dict_map_def)
qed

lemma set_val_ok:
  assumes ty: "type_ok ty" "\<not> no_value ty" and d: "dict_wf ty d" and f: "found_at d k link"
  shows "\<exists>d'. set_val_at ty d link v = Some d' \<and> dict_wf ty d' \<and> dict_map d' = (dict_map d)(k \<mapsto> Some v)"
proof -
  obtain t i p where l: "link = (t, i, p)" by (cases link)
  obtain c where c: "bucket_at (ht d t) i = Some c" "p < length c" "dictGetKey (c ! p) = k" "t \<le> 1" using f by (auto simp: found_at_def l)
  have w: "htab_ok ty (ht d t)" using wf_tables [OF d] by (simp add: ht_def)
  note ok = bucket_at_ok [OF w c(1)]
  have all: "chain_ok False xs \<longleftrightarrow> (\<forall>e \<in> set xs. entryHasValue e)" for xs :: "('a, 'b) dictEntry list" by (induction xs) auto
  have "entryHasValue (c ! p)" using ok(1) ty(2) c(2) all by auto
  then obtain old where old: "c ! p = Normal k old" using c(3) by (cases "c ! p") auto
  define c' where "c' = c[p := Normal k (Some v)]"
  have dup: "(case valDup ty of Some dup \<Rightarrow> dup v | None \<Rightarrow> v) = v" using ty(1) by (auto simp: type_ok_def split: option.splits)
  have c': "chain_ok (no_value ty) c'" "in_bucket ty (ht_size_exp (ht d t)) i c'"
    using ok(1,2) ty(2) all c(2) old by (auto simp: c'_def in_bucket_def dest!: set_update_subset_insert [THEN subsetD])
      (metis dictGetKey.simps(3) nth_mem)
  define d' where "d' = set_ht d t ((set_bucket (ht d t) i c')\<lparr>ht_used := ht_used (ht d t)\<rparr>)"
  have e: "t = 0 \<and> dictIsRehashing d \<and> c = [] \<longrightarrow> c' = []" using c(2) by auto
  note u = update_bucket [OF d c(4) c(1) c', of "ht_used (ht d t)", OF _ e, folded d'_def]
  have eq: "d' = set_ht d t (set_bucket (ht d t) i c')" by (cases "ht d t") (simp add: d'_def set_bucket_def)
  have res: "set_val_at ty d link v = Some d'" using c old dup by (simp add: set_val_at_def l deref_def eq c'_def)
  have mem: "(k, old) \<in> set (all_kv d)" using bucket_entries [OF c(1)] nth_mem [OF c(2)] old by (force simp: all_kv_def ht_def split: if_splits)
  then obtain ys where m1: "mset (all_kv d) = add_mset (k, old) (mset ys)" by (metis ex_mset multi_member_split set_mset_mset)
  obtain C where C: "mset c = add_mset (Normal k old) C" using nth_mem [OF c(2)] old by (metis multi_member_split set_mset_mset)
  then have "mset c' = add_mset (Normal k (Some v)) C" using c(2) old by (simp add: c'_def mset_update)
  then have m2: "mset (all_kv d') = add_mset (k, Some v) (mset ys)" using u(1) C m1 by (simp add: dict_contents_all c'_def)
  note m = m1 m2
  have di: "distinct (map fst (all_kv d'))" using kv_add(1) [OF m(1)] kv_add(1) [OF m(2)] wf_distinct [OF d] by simp
  have "dict_map d' = (dict_map d)(k \<mapsto> Some v)"
    using kv_add(2) [OF m(1) wf_distinct [OF d]] kv_add(2) [OF m(2) di] by (simp add: dict_map_def)
  then show ?thesis using res u(2) di by (simp add: c'_def)
qed

lemma chain_ok_remove: "chain_ok nv c \<Longrightarrow> chain_ok nv (take p c @ drop (Suc p) c)"
proof (induction c arbitrary: p)
  case (Cons e c)
  show ?case
  proof (cases p)
    case (Suc q)
    have "chain_ok nv (take q c @ drop (Suc q) c)" using Cons by simp
    then show ?thesis using Cons.prems Suc by (cases nv; cases "c = []") simp_all
  qed (use Cons.prems in simp)
qed simp

lemma chain_ok_prev: "chain_ok nv c \<Longrightarrow> Suc p < length c \<Longrightarrow> \<not> entryIsKey (c ! p)"
proof (induction c arbitrary: p)
  case (Cons e c)
  show ?case
  proof (cases p)
    case 0
    then have "c \<noteq> []" using Cons.prems(2) by auto
    then show ?thesis using Cons.prems(1) 0 by (cases e; cases nv) simp_all
  qed (use Cons in simp)
qed simp

lemma unlink_ok:
  assumes d: "dict_wf ty d" and f: "found_at d k link"
  shows "\<exists>d' e. unlink_at d link = Some (d', e) \<and> dict_wf ty d' \<and> dict_map d' = (dict_map d)(k := None) \<and> kv e = (k, the (dict_map d k)) \<and> dict_map d k \<noteq> None \<and>
    (tbl (ht0 d) \<noteq> None \<longrightarrow> tbl (ht0 d') \<noteq> None) \<and> pauseAutoResize d' = pauseAutoResize d \<and> pauserehash d' = pauserehash d"
proof -
  obtain t i p where l: "link = (t, i, p)" by (cases link)
  obtain c where c: "bucket_at (ht d t) i = Some c" "p < length c" "dictGetKey (c ! p) = k" "t \<le> 1" using f by (auto simp: found_at_def l)
  have w: "htab_ok ty (ht d t)" using wf_tables [OF d] by (simp add: ht_def)
  note ok = bucket_at_ok [OF w c(1)]
  define c' where "c' = take p c @ drop (Suc p) c"
  have mc: "mset c = add_mset (c ! p) (mset c')" using id_take_nth_drop [OF c(2)] by (metis c'_def mset.simps(2) mset_append union_mset_add_mset_right)
  then have sub: "set c' \<subseteq> set c" by (metis set_mset_mset set_mset_add_mset_insert subset_insertI)
  have inb: "in_bucket ty (ht_size_exp (ht d t)) i c'" using ok(2) sub by (auto simp: in_bucket_def)
  have len: "length c = Suc (length c')" using arg_cong [OF mc, of size] by simp
  define d' where "d' = set_ht d t ((set_bucket (ht d t) i c')\<lparr>ht_used := ht_used (ht d t) - 1\<rparr>)"
  have u0: "ht_used (ht d t) - 1 + length c = ht_used (ht d t) + length c'" using len ok(6) by simp
  have e: "t = 0 \<and> dictIsRehashing d \<and> c = [] \<longrightarrow> c' = []" using c(2) by auto
  note u = update_bucket [OF d c(4) c(1) chain_ok_remove [OF ok(1), of p, folded c'_def] inb u0 e, folded d'_def]
  have fm: "dict_map d k = Some (snd (kv (c ! p)))" using found_map [OF d c(1,2)] c(3) by simp
  have m: "mset (all_kv d) = add_mset (k, snd (kv (c ! p))) (mset (all_kv d'))"
    using u(1) mc c(3) by (cases "c ! p") (simp_all add: dict_contents_all)
  have di: "distinct (map fst (all_kv d'))" "k \<notin> fst ` set (all_kv d')" using kv_add(1) [OF m] wf_distinct [OF d] by simp_all
  then have "dict_map d' k = None" by (simp add: dict_map_def map_of_eq_None_iff)
  then have "dict_map d' = (dict_map d)(k := None)" using kv_add(2) [OF m wf_distinct [OF d]] by (auto simp: dict_map_def)
  moreover have "unlink_at d link = Some (d', c ! p)"
    using c chain_ok_prev [OF ok(1), of "p - 1"] by (cases "p = 0") (simp_all add: unlink_at_def l deref_def d'_def c'_def)
  moreover have "kv (c ! p) = (k, snd (kv (c ! p)))" using c(3) by (cases "c ! p") simp_all
  moreover have "pauseAutoResize d' = pauseAutoResize d" "pauserehash d' = pauserehash d" by (simp_all add: d'_def set_ht_def)
  ultimately show ?thesis using u(2) [OF di(1)] u(7) fm by auto
qed

lemma map_empty: "dict_wf ty d \<Longrightarrow> dictSize d = 0 \<Longrightarrow> dict_map d = Map.empty"
  using entries_unused [OF wf_tables(1), of ty d] entries_unused [OF wf_tables(2), of ty d]
  by (simp add: dict_map_def all_kv_def dictSize_def)

lemma size_table: "dict_wf ty d \<Longrightarrow> dictSize d \<noteq> 0 \<Longrightarrow> tbl (ht0 d) \<noteq> None"
  using wf_tables(1) [of ty d] wf_rehashing [of ty d]
  by (auto simp: dictSize_def htab_ok_def dict_wf_def reset_htab_def split: if_splits option.splits)

text \<open>What every operation does first: a step of rehashing, after which the search still finds every key.\<close>

lemma step_search:
  assumes ty: "type_ok ty" and d: "dict_wf ty d" "tbl (ht0 d) \<noteq> None" and idx: "idx = ht_index (hashFunction ty k) (ht_size_exp (ht0 d))"
  shows "\<exists>d' r. priv_dictRehashStepIfNeeded ty can_resize d idx = Some d' \<and> keeps ty d d' \<and>
    search_tables ty d' (hashFunction ty k) k idx = Some r \<and> (case r of Inl link \<Rightarrow> found_at d' k link | Inr b \<Rightarrow> free_at ty d' k b)"
proof -
  obtain d' where s: "priv_dictRehashStepIfNeeded ty can_resize d idx = Some d'" "keeps ty d d'"
    "dictIsRehashing d' \<longrightarrow> dictIsRehashing d \<and> ht_size_exp (ht0 d') = ht_size_exp (ht0 d)"
    using step_if_needed_ok [OF ty d(1) idx] by blast
  have i: "int idx < rehashidx d' \<longrightarrow> idx = ht_index (hashFunction ty k) (ht_size_exp (ht0 d'))"
    using s(3) by (auto simp: idx dictIsRehashing_def)
  have "tbl (ht0 d') \<noteq> None" using s(2) d(2) by (simp add: keeps_def)
  then show ?thesis using search_tables_ok [OF ty keeps_wf [OF s(2)] _ i] s by blast
qed

lemma found_dom: "dict_wf ty d \<Longrightarrow> found_at d k link \<Longrightarrow> dict_map d k \<noteq> None"
  by (auto simp: found_at_def dest: found_map)

lemma find_for_insert_ok:
  assumes ty: "type_ok ty" and d: "dict_wf ty d" "tbl (ht0 d) \<noteq> None \<or> pauseAutoResize d \<le> 0"
  shows "\<exists>d' r. dictFindLinkForInsert ty can_resize d k = Some (d', r) \<and> keeps ty d d' \<and>
    (case r of Inl link \<Rightarrow> found_at d' k link | Inr b \<Rightarrow> free_at ty d' k b)"
proof -
  define idx where "idx = ht_index (hashFunction ty k) (ht_size_exp (ht0 d))"
  obtain d1 where s: "priv_dictRehashStepIfNeeded ty can_resize d idx = Some d1" "keeps ty d d1"
    "dictIsRehashing d1 \<longrightarrow> dictIsRehashing d \<and> ht_size_exp (ht0 d1) = ht_size_exp (ht0 d)"
    using step_if_needed_ok [OF ty d(1) idx_def] by blast
  obtain d2 r where e: "priv_dictExpandIfNeeded ty can_resize d1 = Some (d2, r)" "keeps ty d1 d2" "d2 = d1 \<or> rehashidx d2 \<le> 0"
    "tbl (ht0 d1) \<noteq> None \<or> pauseAutoResize d1 \<le> 0 \<longrightarrow> tbl (ht0 d2) \<noteq> None"
    using expand_if_needed_ok [OF ty keeps_wf [OF s(2)], of can_resize] by blast
  have t: "tbl (ht0 d2) \<noteq> None" using d(2) s(2) e(4) by (auto simp: keeps_def)
  have "int idx < rehashidx d2 \<longrightarrow> idx = ht_index (hashFunction ty k) (ht_size_exp (ht0 d2))"
    using s(3) e(3) by (auto simp: idx_def dictIsRehashing_def)
  then obtain q where "search_tables ty d2 (hashFunction ty k) k idx = Some q" "case q of Inl link \<Rightarrow> found_at d2 k link | Inr b \<Rightarrow> free_at ty d2 k b"
    using search_tables_ok [OF ty keeps_wf [OF e(2)] t] by blast
  then show ?thesis using s(1) e(1) keeps_trans [OF s(2) e(2)]
    by (simp add: dictFindLinkForInsert_def Let_def hash_eq [OF ty] idx_def [symmetric])
qed

lemma add_raw_ok:
  assumes ty: "type_ok ty" and d: "dict_wf ty d" "tbl (ht0 d) \<noteq> None \<or> pauseAutoResize d \<le> 0"
  shows "\<exists>d' r. dictAddRaw ty can_resize d k = Some (d', r) \<and> dict_wf ty d' \<and>
    (case r of
       Inl link \<Rightarrow> dict_map d k \<noteq> None \<and> dict_map d' = dict_map d \<and> found_at d' k link
     | Inr link \<Rightarrow> dict_map d k = None \<and> dict_map d' = (dict_map d)(k \<mapsto> None) \<and> found_at d' k link)"
proof -
  obtain d1 r where s: "dictFindLinkForInsert ty can_resize d k = Some (d1, r)" "keeps ty d d1"
    "case r of Inl link \<Rightarrow> found_at d1 k link | Inr b \<Rightarrow> free_at ty d1 k b" using find_for_insert_ok [OF ty d] by blast
  have m: "dict_map d1 = dict_map d" by (rule keeps_map [OF d(1) s(2)])
  note w = keeps_wf [OF s(2)]
  show ?thesis
  proof (cases r)
    case (Inl link)
    then show ?thesis using s(1,3) w m found_dom [OF w, of k link] by (simp add: dictAddRaw_def)
  next
    case (Inr b)
    then have f: "free_at ty d1 k b" using s(3) by simp
    obtain d' link where i: "dictInsertKeyAtLink ty d1 k b = Some (d', link)" "dict_wf ty d'" "dict_map d' = (dict_map d1)(k \<mapsto> None)" "found_at d' k link"
      using insert_ok [OF w f] by blast
    have "(case keyDup ty of Some dup \<Rightarrow> dup k | None \<Rightarrow> k) = k" using ty by (auto simp: type_ok_def split: option.splits)
    moreover have "dict_map d1 k = None" using f by (auto simp: free_at_def)
    ultimately show ?thesis using s(1) Inr i m by (simp add: dictAddRaw_def)
  qed
qed

text \<open>\<^verbatim>\<open>dictFindLink\<close> with a bucket, followed by \<^verbatim>\<open>dictSetKeyAtLink\<close>: the other way to insert.\<close>

lemma find_internal_ok:
  assumes ty: "type_ok ty" and d: "dict_wf ty d" "tbl (ht0 d) \<noteq> None"
  shows "\<exists>d' link b. dictFindLinkInternal ty can_resize d k True = Some (d', link, Some b) \<and> keeps ty d d' \<and>
    (case link of Some link \<Rightarrow> found_at d' k link | None \<Rightarrow> free_at ty d' k b)"
proof -
  define idx where "idx = ht_index (hashFunction ty k) (ht_size_exp (ht0 d))"
  obtain d' r where s: "priv_dictRehashStepIfNeeded ty can_resize d idx = Some d'" "keeps ty d d'"
    "search_tables ty d' (hashFunction ty k) k idx = Some r" "case r of Inl link \<Rightarrow> found_at d' k link | Inr b \<Rightarrow> free_at ty d' k b"
    using step_search [OF ty d idx_def] by blast
  have "tbl (ht0 d') \<noteq> None" using s(2) d(2) by (simp add: keeps_def)
  then show ?thesis using s
    by (cases r) (auto simp: dictFindLinkInternal_def Let_def hash_eq [OF ty] idx_def [symmetric] split: prod.splits)
qed

lemma find_link_ok:
  assumes ty: "type_ok ty" and d: "dict_wf ty d"
  shows "\<exists>d' link b. dictFindLink ty can_resize d k True = Some (d', link, b) \<and> keeps ty d d' \<and>
    (case link of
       Some link \<Rightarrow> dict_map d k \<noteq> None \<and> found_at d' k link
     | None \<Rightarrow> dict_map d k = None \<and> (\<forall>b'. b = Some b' \<longrightarrow> free_at ty d' k b'))"
proof (cases "dictSize d = 0")
  case True
  then show ?thesis using map_empty [OF d] keeps_refl [OF d] by (simp add: dictFindLink_def)
next
  case False
  obtain d' link b where f: "dictFindLinkInternal ty can_resize d k True = Some (d', link, Some b)" "keeps ty d d'"
    "case link of Some link \<Rightarrow> found_at d' k link | None \<Rightarrow> free_at ty d' k b" using find_internal_ok [OF ty d size_table [OF d False]] by blast
  have m: "dict_map d' = dict_map d" by (rule keeps_map [OF d f(2)])
  show ?thesis
  proof (cases link)
    case None
    then have "dict_map d k = None" using f(3) m by (auto simp: free_at_def)
    then show ?thesis using f False None by (simp add: dictFindLink_def)
  next
    case (Some l)
    then have "dict_map d k \<noteq> None" using f(3) found_dom [OF keeps_wf [OF f(2)], of k l] m by simp
    then show ?thesis using f False Some by (simp add: dictFindLink_def)
  qed
qed

lemma stored_api [simp]: "dict_wf ty (d\<lparr>useStoredKeyApi := b\<rparr>) = dict_wf ty d" "dict_map (d\<lparr>useStoredKeyApi := b\<rparr>) = dict_map d"
  "dictSize (d\<lparr>useStoredKeyApi := b\<rparr>) = dictSize d" "found_at (d\<lparr>useStoredKeyApi := b\<rparr>) = found_at d"
  "free_at ty (d\<lparr>useStoredKeyApi := b\<rparr>) = free_at ty d" "dict_contents (d\<lparr>useStoredKeyApi := b\<rparr>) = dict_contents d"
  by (simp_all add: dict_wf_def dict_map_def all_kv_def dictIsRehashing_def rehashed_part_def dictBuckets_def dictSize_def
      found_at_def free_at_def ht_def dict_contents_def fun_eq_iff)

text \<open>A bucket stays the right one when the sizes of the tables are those of before.\<close>

lemma free_at_same:
  assumes "dict_wf ty d" "keeps ty d d'" "dictIsRehashing d \<longrightarrow> d' = d" "free_at ty d k b"
    "ht_size_exp (ht0 d') = ht_size_exp (ht0 d)" "ht_size_exp (ht1 d') = ht_size_exp (ht1 d)" "tbl (ht0 d') \<noteq> None"
  shows "free_at ty d' k b"
proof (cases "dictIsRehashing d")
  case False
  then have "ht_size_exp (ht1 d) = -1" using assms(1) by (simp add: dict_wf_def reset_htab_def)
  then have "tbl (ht1 d') = None" using wf_tables(2) [OF keeps_wf [OF assms(2)]] assms(6) by (auto simp: htab_ok_def split: option.splits)
  then have n: "\<not> dictIsRehashing d'" using wf_rehashing [OF keeps_wf [OF assms(2)]] by auto
  have "bucket_at (ht0 d') (ht_index (hashFunction ty k) (ht_size_exp (ht0 d'))) \<noteq> None"
    using bucket_at_index [OF wf_tables(1) [OF keeps_wf [OF assms(2)]] assms(7)] by auto
  then show ?thesis using assms(4,5) False n keeps_map [OF assms(1,2)] by (auto simp: free_at_def ht_def)
qed (use assms in simp)

lemma find_again_ok:
  assumes ty: "type_ok ty" and d: "dict_wf ty d" "tbl (ht0 d) \<noteq> None" "dict_map d k = None"
  shows "\<exists>d' t i. find_bucket_again ty can_resize d k = Some (d', t, i, 0) \<and> dict_wf ty d' \<and> dict_map d' = dict_map d \<and> free_at ty d' k (t, i)"
proof -
  let ?d = "d\<lparr>useStoredKeyApi := True\<rparr>"
  have w: "dict_wf ty ?d" "tbl (ht0 ?d) \<noteq> None" using d by simp_all
  obtain d' link b where f: "dictFindLinkInternal ty can_resize ?d k True = Some (d', link, Some b)" "keeps ty ?d d'"
    "case link of Some link \<Rightarrow> found_at d' k link | None \<Rightarrow> free_at ty d' k b" using find_internal_ok [OF ty w] by blast
  have m: "dict_map d' = dict_map d" using keeps_map [OF w(1) f(2)] by simp
  obtain t i where b: "b = (t, i)" by (cases b)
  have "\<not> found_at d' k l" for l using found_dom [OF keeps_wf [OF f(2)], of k l] m d(3) by auto
  then have "link = None" using f(3) by (cases link) auto
  then show ?thesis using f b m keeps_wf [OF f(2)] by (simp add: find_bucket_again_def)
qed

lemma set_key_new_ok:
  assumes ty: "type_ok ty" and d: "dict_wf ty d" "dict_map d k = None"
    and l: "\<And>t i p. link = Some (t, i, p) \<Longrightarrow> p = 0 \<and> free_at ty d k (t, i)"
  shows "\<exists>d' link'. dictSetKeyAtLink ty can_resize d k link True = Some (d', link') \<and> dict_wf ty d' \<and>
    dict_map d' = (dict_map d)(k \<mapsto> None) \<and> found_at d' k link'"
proof -
  obtain d1 r where e: "dictExpandIfNeeded ty can_resize d = Some (d1, r)" "keeps ty d d1" "dictIsRehashing d \<longrightarrow> d1 = d" "tbl (ht0 d1) \<noteq> None"
    using expand_needed_ok [OF ty d(1)] by blast
  note w = keeps_wf [OF e(2)] and m = keeps_map [OF d(1) e(2)]
  let ?same = "(ht_size_exp (ht0 d), ht_size_exp (ht1 d)) = (ht_size_exp (ht0 d1), ht_size_exp (ht1 d1))"
  have "\<exists>d2 t i. (case link of
      Some (table, idx, p) \<Rightarrow> if ?same then Some (d1, table, idx, p) else find_bucket_again ty can_resize d1 k
    | None \<Rightarrow> find_bucket_again ty can_resize d1 k) = Some (d2, t, i, 0) \<and> dict_wf ty d2 \<and> dict_map d2 = dict_map d \<and> free_at ty d2 k (t, i)"
  proof (cases "link \<noteq> None \<and> ?same")
    case True
    then obtain t i p where s: "link = Some (t, i, p)" ?same by auto
    then have "free_at ty d1 k (t, i)" using free_at_same [OF d(1) e(2,3) _ _ _ e(4), of k "(t, i)"] l by auto
    then show ?thesis using s l [OF s(1)] w m by simp
  next
    case False
    then show ?thesis using find_again_ok [OF ty w e(4), of k can_resize] m d(2) by (cases link) auto
  qed
  then obtain d2 t i where b: "(case link of
      Some (table, idx, p) \<Rightarrow> if ?same then Some (d1, table, idx, p) else find_bucket_again ty can_resize d1 k
    | None \<Rightarrow> find_bucket_again ty can_resize d1 k) = Some (d2, t, i, 0)" "dict_wf ty d2" "dict_map d2 = dict_map d" "free_at ty d2 k (t, i)" by blast
  obtain d3 where i: "dictInsertKeyAtLink ty d2 k (t, i) = Some (d3, (t, i, 0))" "dict_wf ty d3" "dict_map d3 = (dict_map d2)(k \<mapsto> None)"
    "found_at d3 k (t, i, 0)"
    using insert_ok [OF b(2,4)] by (auto simp: dictInsertKeyAtLink_def Let_def split: if_splits Option.bind_splits)
  have "(case keyDup ty of Some dup \<Rightarrow> dup k | None \<Rightarrow> k) = k" using ty by (auto simp: type_ok_def split: option.splits)
  then show ?thesis using e(1) b(1,3) i by (auto simp: dictSetKeyAtLink_def Let_def)
qed

lemma dictSize_card: "dict_wf ty d \<Longrightarrow> dictSize d = card (dom (dict_map d))"
proof -
  assume d: "dict_wf ty d"
  have u: "htab_ok ty t \<Longrightarrow> ht_used t = length (entries t)" for t :: "('a, 'b) htab" by (auto simp: htab_ok_def entries_def split: option.splits)
  have "dictSize d = length (map fst (all_kv d))" using u wf_tables [OF d] by (simp add: dictSize_def all_kv_def)
  also have "\<dots> = card (set (map fst (all_kv d)))" using wf_distinct [OF d] by (rule distinct_card [symmetric])
  finally show ?thesis by (simp add: dict_map_def dom_map_of_conv_image_fst)
qed

lemma finite_dict_map [simp]: "finite (dom (dict_map d))"
  by (simp add: dict_map_def finite_dom_map_of)

lemma create_dict: "dict_wf ty dictCreate" "dict_map dictCreate = Map.empty" "dictSize dictCreate = 0" "pauseAutoResize dictCreate = 0"
  by (simp_all add: dict_wf_def dictCreate_def htab_ok_def reset_htab_def dictIsRehashing_def all_kv_def entries_def dictBuckets_def
      DICTHT_SIZE_def dict_map_def dictSize_def)

section \<open>Properties\<close>

definition demo_type :: "(w64, nat) dictType" where
  "demo_type = \<lparr>hashFunction = (\<lambda>k. k), keyDup = None, valDup = None, keyCompare = Some (=), resizeAllowed = None, no_value = False,
    force_full_rehash = False, storedHashFunction = None, storedKeyCompare = None\<rparr>"

text \<open>A dictionary in the middle of growing from four to eight buckets.\<close>

definition demo_dict :: "(w64, nat) dict" where
  "demo_dict = \<lparr>
    ht0 = \<lparr>tbl = Some [[], [Normal 5 (Some 50), Normal 1 (Some 10)], [], []], ht_size_exp = 2, ht_used = 2\<rparr>,
    ht1 = \<lparr>tbl = Some [[], [], [], [], [Normal 12 (Some 120)], [], [], []], ht_size_exp = 3, ht_used = 1\<rparr>,
    rehashidx = 1, pauserehash = 0, useStoredKeyApi = False, pauseAutoResize = 0, events = [BucketChanged 4, RehashingStarted, BucketChanged 8]\<rparr>"

lemma demo_type_ok: "type_ok demo_type"
  by (simp add: type_ok_def demo_type_def)

lemma demo_dict_wf: "dict_wf demo_type demo_dict"
proof -
  have "htab_ok demo_type (ht0 demo_dict)" "htab_ok demo_type (ht1 demo_dict)"
    by (simp_all add: htab_ok_def demo_dict_def demo_type_def in_bucket_def ht_index_mod All_less_Suc)
  moreover have "rehashed_part demo_dict" by (simp add: rehashed_part_def demo_dict_def)
  moreover have "distinct (map fst (all_kv demo_dict))" by (simp add: all_kv_def entries_def demo_dict_def)
  moreover have "sum_list (map bucket_delta (events demo_dict)) = int (dictBuckets demo_dict)"
    by (simp add: dictBuckets_def DICTHT_SIZE_def demo_dict_def)
  moreover have "dictIsRehashing demo_dict" by (simp add: dictIsRehashing_def demo_dict_def)
  ultimately show ?thesis by (simp add: dict_wf_def)
qed

lemma demo_dict_map: "dict_map demo_dict = [5 \<mapsto> Some 50, 1 \<mapsto> Some 10, 12 \<mapsto> Some 120]" "tbl (ht0 demo_dict) \<noteq> None"
  by (auto simp: dict_map_def all_kv_def entries_def demo_dict_def fun_eq_iff)

lemma add_ok:
  assumes "type_ok ty" "dict_wf ty d" "tbl (ht0 d) \<noteq> None \<or> pauseAutoResize d \<le> 0"
  shows "\<exists>d'. dictAdd ty can_resize d k v = Some (d', dict_map d k = None) \<and> dict_wf ty d' \<and>
    dict_map d' = (if dict_map d k = None then (dict_map d)(k \<mapsto> (if no_value ty then None else Some v)) else dict_map d)"
proof -
  obtain d1 r where a: "dictAddRaw ty can_resize d k = Some (d1, r)" "dict_wf ty d1"
    "case r of Inl link \<Rightarrow> dict_map d k \<noteq> None \<and> dict_map d1 = dict_map d \<and> found_at d1 k link
     | Inr link \<Rightarrow> dict_map d k = None \<and> dict_map d1 = (dict_map d)(k \<mapsto> None) \<and> found_at d1 k link" using add_raw_ok [OF assms] by blast
  show ?thesis
  proof (cases r)
    case (Inr link)
    show ?thesis
    proof (cases "no_value ty")
      case False
      then obtain d2 where "set_val_at ty d1 link v = Some d2" "dict_wf ty d2" "dict_map d2 = (dict_map d1)(k \<mapsto> Some v)"
        using set_val_ok [OF assms(1) False a(2), of k link v] a(3) unfolding Inr by auto
      then show ?thesis using a Inr False by (simp add: dictAdd_def)
    qed (use a Inr in \<open>simp add: dictAdd_def\<close>)
  qed (use a in \<open>auto simp: dictAdd_def\<close>)
qed

text \<open>
  C1. \<^verbatim>\<open>dictAdd\<close> inserts into the finite map that the dictionary stands for: it succeeds exactly when the key is not
  there, in which case the key gets the value (none in a set), and changes nothing otherwise. It never accesses a bucket outside a table
  whatever rehashing or resizing it triggers, and it keeps the invariant of the tables. The one requirement is that a table
  exists or that automatic resizing is not paused, since the first table is created by the automatic resize.
\<close>

theorem dictAdd_map:
  assumes "type_ok ty" "dict_wf ty d" "tbl (ht0 d) \<noteq> None \<or> pauseAutoResize d \<le> 0"
  shows "\<exists>d'. dictAdd ty can_resize d k v = Some (d', dict_map d k = None) \<and> dict_wf ty d' \<and>
    dict_map d' = (if dict_map d k = None then (dict_map d)(k \<mapsto> (if no_value ty then None else Some v)) else dict_map d)"
  using assms by (rule add_ok)

theorem dictAdd_map_witness:
  "\<exists>d'. dictAdd demo_type DICT_RESIZE_ENABLE demo_dict 7 70 = Some (d', True) \<and> dict_map d' = (dict_map demo_dict)(7 \<mapsto> Some 70)"
  using dictAdd_map [OF demo_type_ok demo_dict_wf disjI1 [OF demo_dict_map(2)], of DICT_RESIZE_ENABLE 7 70]
  by (simp add: demo_dict_map(1)) (auto simp: demo_type_def)

lemma find_delete_ok:
  assumes "type_ok ty" "dict_wf ty d"
  shows "\<exists>d1 d2 r. dictFind ty can_resize d k = Some (d1, r) \<and> dict_wf ty d1 \<and> dict_map d1 = dict_map d \<and>
    map_option kv r = map_option (Pair k) (dict_map d k) \<and>
    dictDelete ty can_resize d k = Some (d2, dict_map d k \<noteq> None) \<and> dict_wf ty d2 \<and> dict_map d2 = (dict_map d)(k := None) \<and>
    (tbl (ht0 d) \<noteq> None \<longrightarrow> tbl (ht0 d2) \<noteq> None) \<and> pauseAutoResize d2 = pauseAutoResize d \<and> pauserehash d2 = pauserehash d"
proof (cases "dictSize d = 0")
  case True
  then show ?thesis using map_empty [OF assms(2) True] assms(2)
    by (simp add: dictFind_def dictFindLink_def dictDelete_def dictGenericDelete_def fun_eq_iff)
next
  case False
  define idx where "idx = ht_index (hashFunction ty k) (ht_size_exp (ht0 d))"
  note t = size_table [OF assms(2) False]
  obtain d' r where s: "priv_dictRehashStepIfNeeded ty can_resize d idx = Some d'" "keeps ty d d'"
    "search_tables ty d' (hashFunction ty k) k idx = Some r" "case r of Inl link \<Rightarrow> found_at d' k link | Inr b \<Rightarrow> free_at ty d' k b"
    using step_search [OF assms t idx_def] by blast
  note w = keeps_wf [OF s(2)] and m = keeps_map [OF assms(2) s(2)]
  have t': "tbl (ht0 d') \<noteq> None" using s(2) t by (simp add: keeps_def)
  show ?thesis
  proof (cases r)
    case (Inl link)
    then obtain tb i p c where l: "link = (tb, i, p)" "bucket_at (ht d' tb) i = Some c" "p < length c" "dictGetKey (c ! p) = k"
      using s(4) by (auto simp: found_at_def)
    have f: "dictFind ty can_resize d k = Some (d', Some (c ! p))"
      using False s(1,3) Inl l t'
      by (simp add: dictFind_def dictFindLink_def dictFindLinkInternal_def Let_def hash_eq [OF assms(1)] idx_def [symmetric] deref_def)
    have kvp: "kv (c ! p) = (k, the (dict_map d k))" "dict_map d k \<noteq> None"
      using found_map [OF w l(2,3)] l(4) m by (cases "c ! p"; simp)+
    obtain d2 e where u: "unlink_at d' link = Some (d2, e)" "dict_wf ty d2" "dict_map d2 = (dict_map d')(k := None)"
      "tbl (ht0 d') \<noteq> None \<longrightarrow> tbl (ht0 d2) \<noteq> None" "pauseAutoResize d2 = pauseAutoResize d'"
      "pauserehash d2 = pauserehash d'" using unlink_ok [OF w, of k link] s(4) unfolding Inl by auto
    obtain d3 where sh: "priv_dictShrinkIfNeeded ty can_resize d2 = Some d3" "keeps ty d2 d3" using shrink_if_needed_ok [OF assms(1) u(2)] by blast
    have "dictDelete ty can_resize d k = Some (d3, True)"
      using False s(1,3) Inl u(1) sh(1) by (simp add: dictDelete_def dictGenericDelete_def Let_def hash_eq [OF assms(1)] idx_def [symmetric])
    moreover have "tbl (ht0 d3) \<noteq> None" "pauseAutoResize d3 = pauseAutoResize d" "pauserehash d3 = pauserehash d" using sh(2) u(4-6) t' s(2) by (simp_all add: keeps_def)
    ultimately show ?thesis using f kvp w m keeps_wf [OF sh(2)] keeps_map [OF u(2) sh(2)] u(3) by auto
  next
    case (Inr b)
    then have n: "dict_map d k = None" using s(4) m by (auto simp: free_at_def)
    have "dictFind ty can_resize d k = Some (d', None)"
      using False s(1,3) Inr t' by (simp add: dictFind_def dictFindLink_def dictFindLinkInternal_def Let_def hash_eq [OF assms(1)] idx_def [symmetric])
    moreover have "dictDelete ty can_resize d k = Some (d', False)"
      using False s(1,3) Inr by (simp add: dictDelete_def dictGenericDelete_def Let_def hash_eq [OF assms(1)] idx_def [symmetric])
    moreover have "pauseAutoResize d' = pauseAutoResize d" "pauserehash d' = pauserehash d" using s(2) by (simp_all add: keeps_def)
    ultimately show ?thesis using n w m t' by (auto simp: fun_eq_iff)
  qed
qed

text \<open>
  C2. \<^verbatim>\<open>dictFind\<close> and \<^verbatim>\<open>dictDelete\<close> agree with the finite map, also in the middle of a rehash: the entry returned has
  the key and the value the map gives it, and deletion removes exactly that key and reports whether it was there.
\<close>

theorem dictFind_dictDelete_map:
  assumes "type_ok ty" "dict_wf ty d"
  shows "\<exists>d1 d2 r. dictFind ty can_resize d k = Some (d1, r) \<and> dict_wf ty d1 \<and> dict_map d1 = dict_map d \<and>
    map_option kv r = map_option (Pair k) (dict_map d k) \<and>
    dictDelete ty can_resize d k = Some (d2, dict_map d k \<noteq> None) \<and> dict_wf ty d2 \<and> dict_map d2 = (dict_map d)(k := None)"
  using find_delete_ok [OF assms, of can_resize k] by blast

theorem dictFind_dictDelete_map_witness:
  "\<exists>d1 d2 r. dictFind demo_type DICT_RESIZE_ENABLE demo_dict 12 = Some (d1, r) \<and> map_option kv r = Some (12, Some 120) \<and>
    dictDelete demo_type DICT_RESIZE_ENABLE demo_dict 12 = Some (d2, True) \<and> dict_map d2 = (dict_map demo_dict)(12 := None)"
  using dictFind_dictDelete_map [OF demo_type_ok demo_dict_wf, of DICT_RESIZE_ENABLE 12] by (auto simp: demo_dict_map(1))

text \<open>
  C8. Incremental rehashing is safe and ends: \<^verbatim>\<open>dictRehash\<close> never runs past the end of the old table, keeps every key and value and
  the balance of the reported bucket counts, and while it reports that there is more to do its index has advanced. So
  calling it again and again, as \<^verbatim>\<open>_dictResize\<close> does for types that want a full rehash, ends after at most as many calls as the old table
  has buckets, with a single table.
\<close>

theorem dictRehash_progress:
  assumes "type_ok ty" "dict_wf ty d" "0 < n"
  shows "(\<exists>d' more. dictRehash ty can_resize d n = Some (d', more) \<and> dict_wf ty d' \<and> dict_map d' = dict_map d \<and>
      (more \<longrightarrow> rehashidx d < rehashidx d') \<and> (\<not> more \<longrightarrow> \<not> dictIsRehashing d' \<or> rehash_disabled can_resize d)) \<and>
    (\<not> rehash_disabled can_resize d \<longrightarrow>
      (\<exists>d'. rehash_all (DICTHT_SIZE (ht_size_exp (ht0 d)) + 1) ty can_resize d = Some d' \<and> dict_wf ty d' \<and> dict_map d' = dict_map d \<and>
        \<not> dictIsRehashing d'))"
proof (intro conjI impI)
  show "\<exists>d' more. dictRehash ty can_resize d n = Some (d', more) \<and> dict_wf ty d' \<and> dict_map d' = dict_map d \<and>
      (more \<longrightarrow> rehashidx d < rehashidx d') \<and> (\<not> more \<longrightarrow> \<not> dictIsRehashing d' \<or> rehash_disabled can_resize d)"
    using dictRehash_ok [OF assms(1,2), of can_resize n] assms(3) keeps_wf keeps_map [OF assms(2)] by blast
  assume dis: "\<not> rehash_disabled can_resize d"
  then have rh: "dictIsRehashing d" by (auto simp: rehash_disabled_def Let_def)
  then have "0 \<le> rehashidx d" using wf_rehashing [OF assms(2)] by blast
  then have f: "int (DICTHT_SIZE (ht_size_exp (ht0 d))) < int (DICTHT_SIZE (ht_size_exp (ht0 d)) + 1) + rehashidx d" by simp
  show "\<exists>d'. rehash_all (DICTHT_SIZE (ht_size_exp (ht0 d)) + 1) ty can_resize d = Some d' \<and> dict_wf ty d' \<and> dict_map d' = dict_map d \<and>
      \<not> dictIsRehashing d'"
    using rehash_all_ok [OF assms(1,2) rh f, of can_resize] dis keeps_wf keeps_map [OF assms(2)] unfolding dictIsRehashing_def by blast
qed

theorem dictRehash_progress_witness:
  "\<exists>d'. rehash_all 5 demo_type DICT_RESIZE_ENABLE demo_dict = Some d' \<and> dict_map d' = [5 \<mapsto> Some 50, 1 \<mapsto> Some 10, 12 \<mapsto> Some 120] \<and> \<not> dictIsRehashing d'"
proof -
  have s: "DICTHT_SIZE (ht_size_exp (ht0 demo_dict)) + 1 = 5" by (simp add: DICTHT_SIZE_def demo_dict_def)
  have dis: "\<not> rehash_disabled DICT_RESIZE_ENABLE demo_dict" by (simp add: rehash_disabled_def dictIsRehashing_def demo_dict_def)
  show ?thesis using dictRehash_progress [OF demo_type_ok demo_dict_wf zero_less_one, of DICT_RESIZE_ENABLE] dis
    unfolding s demo_dict_map(1) by blast
qed

text \<open>
  C39. \<^verbatim>\<open>dictReplace\<close> gives the key the new value whether or not the key was there, and reports which of the two it was.
\<close>

theorem dictReplace_map:
  assumes "type_ok ty" "\<not> no_value ty" "dict_wf ty d" "tbl (ht0 d) \<noteq> None \<or> pauseAutoResize d \<le> 0"
  shows "\<exists>d'. dictReplace ty can_resize d k v = Some (d', dict_map d k = None) \<and> dict_wf ty d' \<and> dict_map d' = (dict_map d)(k \<mapsto> Some v)"
proof -
  obtain d1 r where a: "dictAddRaw ty can_resize d k = Some (d1, r)" "dict_wf ty d1"
    "case r of Inl link \<Rightarrow> dict_map d k \<noteq> None \<and> dict_map d1 = dict_map d \<and> found_at d1 k link
     | Inr link \<Rightarrow> dict_map d k = None \<and> dict_map d1 = (dict_map d)(k \<mapsto> None) \<and> found_at d1 k link"
    using add_raw_ok [OF assms(1,3,4)] by blast
  obtain link where l: "r = Inl link \<or> r = Inr link" "found_at d1 k link" "(dict_map d1)(k \<mapsto> Some v) = (dict_map d)(k \<mapsto> Some v)"
    using a(3) by (cases r) auto
  obtain d2 where s: "set_val_at ty d1 link v = Some d2" "dict_wf ty d2" "dict_map d2 = (dict_map d)(k \<mapsto> Some v)"
    using set_val_ok [OF assms(1,2) a(2) l(2), of v] l(3) by auto
  obtain tb i p where lk: "link = (tb, i, p)" by (cases link)
  obtain de de' where de: "deref d1 link = Some de" "dictSetVal ty de v = Some de'"
    using s(1) by (auto simp: set_val_at_def lk split: Option.bind_splits)
  then obtain old where "dictGetVal de = Some old" by (cases de) simp_all
  then show ?thesis using a(1,3) l(1) s de(1) by (cases r) (auto simp: dictReplace_def)
qed

theorem dictReplace_map_witness:
  "\<exists>d'. dictReplace demo_type DICT_RESIZE_AVOID demo_dict 5 51 = Some (d', False) \<and> dict_map d' = (dict_map demo_dict)(5 \<mapsto> Some 51)"
proof -
  have "\<not> no_value demo_type" by (simp add: demo_type_def)
  then show ?thesis
    using dictReplace_map [OF demo_type_ok _ demo_dict_wf disjI1 [OF demo_dict_map(2)], of DICT_RESIZE_AVOID 5 51] by (auto simp: demo_dict_map(1))
qed

end
