(* ===== verification/Dict_Scan.thy ===== *)
theory Dict_Scan
  imports Dict_Map
begin

text \<open>
  \<^verbatim>\<open>dictScan\<close> of \<^verbatim>\<open>dict.c\<close>: a stateless iteration whose cursor is incremented with its bits reversed, so that it survives
  resizes between the calls. The callback of the source is called on the entries that the model returns.
\<close>

section \<open>Definitions\<close>

function rev_loop :: "nat \<Rightarrow> w64 \<Rightarrow> w64 \<Rightarrow> w64" where
  "rev_loop s mask' v =
    (let s = s div 2
     in if s > 0 then
          (let mask' = mask' XOR push_bit s mask';
               v = (drop_bit s v AND mask') OR (push_bit s v AND NOT mask')
           in rev_loop s mask' v)
        else v)"
  by pat_completeness auto

termination
  by (relation "measure (\<lambda>(s, m, v). s)") auto

declare rev_loop.simps [simp del]

definition rev64 :: "w64 \<Rightarrow> w64" where
  "rev64 v = rev_loop 64 (NOT 0) v"

text \<open>Set the bits outside the mask, so that incrementing the reversed cursor operates on the masked bits.\<close>

definition next_cursor :: "w64 \<Rightarrow> w64 \<Rightarrow> w64" where
  "next_cursor m v = rev64 (rev64 (v OR NOT m) + 1)"

text \<open>The loop over the buckets of the larger table that are expansions of the bucket of the smaller one, with fuel.\<close>

fun scan_loop :: "nat \<Rightarrow> ('k, 'v) htab \<Rightarrow> w64 \<Rightarrow> w64 \<Rightarrow> w64 \<Rightarrow> (w64 \<times> ('k, 'v) dictEntry list) option" where
  "scan_loop 0 t1 m0 m1 v = None"
| "scan_loop (Suc fuel) t1 m0 m1 v =
    do {
      c \<leftarrow> bucket_at t1 (unat (v AND m1));
      let v = next_cursor m1 v;
      if v AND (m0 XOR m1) \<noteq> 0 then do { (v, out) \<leftarrow> scan_loop fuel t1 m0 m1 v; Some (v, c @ out) }
      else Some (v, c)
    }"

definition dictScan :: "('k, 'v) dict \<Rightarrow> w64 \<Rightarrow> (('k, 'v) dict \<times> w64 \<times> ('k, 'v) dictEntry list) option" where
  "dictScan d v =
    (if dictSize d = 0 then Some (d, 0, [])
     else
       (let d = dictPauseRehashing d
        in if \<not> dictIsRehashing d then
             (let m0 = DICTHT_SIZE_MASK (ht_size_exp (ht0 d))
              in do { c \<leftarrow> bucket_at (ht0 d) (unat (v AND m0)); Some (dictResumeRehashing d, next_cursor m0 v, c) })
           else
             (let swap = DICTHT_SIZE (ht_size_exp (ht0 d)) > DICTHT_SIZE (ht_size_exp (ht1 d));
                  t0 = (if swap then ht1 d else ht0 d);
                  t1 = (if swap then ht0 d else ht1 d);
                  m0 = DICTHT_SIZE_MASK (ht_size_exp t0);
                  m1 = DICTHT_SIZE_MASK (ht_size_exp t1)
              in do {
                c \<leftarrow> bucket_at t0 (unat (v AND m0));
                (v, out) \<leftarrow> scan_loop (DICTHT_SIZE (ht_size_exp t1)) t1 m0 m1 v;
                Some (dictResumeRehashing d, v, c @ out)
              })))"

text \<open>A whole iteration: the dictionaries that the successive calls see, each changed in any way since the one before.\<close>

fun scan_run :: "('k, 'v) dict list \<Rightarrow> w64 \<Rightarrow> (w64 \<times> ('k, 'v) dictEntry list) option" where
  "scan_run [] v = Some (v, [])"
| "scan_run (d # ds) v =
    do {
      (_, v, out) \<leftarrow> dictScan d v;
      if v = 0 then Some (0, out) else do { (v, out') \<leftarrow> scan_run ds v; Some (v, out @ out') }
    }"

section \<open>Reversing the bits\<close>

definition swap_bit :: "nat \<Rightarrow> nat \<Rightarrow> nat" where
  "swap_bit t n = (if even (n div t) then n + t else n - t)"

text \<open>The lowest \<open>j\<close> bits of a position inverted.\<close>

definition flip_low :: "nat \<Rightarrow> nat \<Rightarrow> nat" where
  "flip_low j n = n div 2 ^ j * 2 ^ j + (2 ^ j - 1 - n mod 2 ^ j)"

lemma flip_low_lt: "j \<le> 6 \<Longrightarrow> n < 64 \<Longrightarrow> flip_low j n < 64"
proof -
  assume a: "j \<le> 6" "n < 64"
  have p: "(64 :: nat) = 2 ^ (6 - j) * 2 ^ j" using a(1) by (simp flip: power_add)
  then have "n div 2 ^ j < 2 ^ (6 - j)" using a(2) by (simp add: less_mult_imp_div_less)
  then have "(n div 2 ^ j + 1) * 2 ^ j \<le> 2 ^ (6 - j) * 2 ^ j" by (intro mult_right_mono) simp_all
  then have "n div 2 ^ j * 2 ^ j + 2 ^ j \<le> 64" using p by simp
  moreover have "(2 :: nat) ^ j - 1 - n mod 2 ^ j < 2 ^ j" by (meson diff_le_self diff_less le_less_trans zero_less_numeral zero_less_power zero_less_one)
  ultimately show ?thesis unfolding flip_low_def by linarith
qed

lemma swap_flip: "swap_bit (2 ^ j) (flip_low j n) = flip_low (Suc j) n"
proof -
  define q r where "q = n div 2 ^ j" and "r = n mod 2 ^ j"
  have r: "r < 2 ^ j" by (simp add: r_def)
  have d: "flip_low j n div 2 ^ j = q" unfolding flip_low_def q_def using r by (simp add: div_mult_self3)
  have q2: "n div 2 ^ Suc j = q div 2" unfolding q_def power_Suc2 by (rule div_mult2_eq)
  have r2: "n mod 2 ^ Suc j = (q mod 2) * 2 ^ j + r" unfolding q_def r_def power_Suc2 mod_mult2_eq by (simp only: mult.commute)
  have f: "flip_low j n = q * 2 ^ j + (2 ^ j - 1 - r)" by (simp add: flip_low_def q_def r_def)
  have s: "flip_low (Suc j) n = (q div 2) * (2 * 2 ^ j) + (2 * 2 ^ j - 1 - ((q mod 2) * 2 ^ j + r))"
    unfolding flip_low_def q2 r2 by simp
  show ?thesis
  proof (cases "even q")
    case True
    then obtain p where "q = 2 * p" by blast
    then show ?thesis using d r unfolding swap_bit_def s by (simp add: f algebra_simps)
  next
    case False
    then obtain p where p: "q = 2 * p + 1" by (metis oddE)
    then have "q mod 2 = 1" "q div 2 = p" by simp_all
    moreover have "q * 2 ^ j = p * (2 * 2 ^ j) + 2 ^ j" using p by (simp add: algebra_simps)
    moreover have "swap_bit (2 ^ j) (flip_low j n) = flip_low j n - 2 ^ j" using False d by (simp add: swap_bit_def)
    ultimately show ?thesis using r unfolding s f by simp
  qed
qed

lemma even_halves: "0 < t \<Longrightarrow> (even (n div (2 * t)) \<noteq> (t \<le> n \<and> even ((n - t) div (2 * t)))) = even (n div t)" for n t :: nat
proof -
  assume t: "0 < t"
  have a: "(even (q div 2) \<noteq> (1 \<le> q \<and> even ((q - 1) div 2))) = even q" for q :: nat by presburger
  have b: "m div (2 * t) = m div t div 2" for m by (metis div_mult2_eq mult.commute)
  show ?thesis
  proof (cases "t \<le> n")
    case True
    then have "n div t = Suc ((n - t) div t)" using t by (rule le_div_geq [rotated])
    then show ?thesis using a [of "n div t"] True by (simp add: b)
  qed (simp add: b)
qed

lemma rev_step:
  assumes "0 < t" "\<forall>n < 64. bit m n = even (n div (2 * t))"
  shows "\<exists>m' v'. rev_loop (2 * t) m v = rev_loop t m' v' \<and> (\<forall>n < 64. bit m' n = even (n div t)) \<and> (\<forall>n < 64. bit v' n = bit v (swap_bit t n))"
proof -
  define m' where "m' = m XOR push_bit t m"
  define v' where "v' = (drop_bit t v AND m') OR (push_bit t v AND NOT m')"
  have m': "\<forall>n < 64. bit m' n = even (n div t)"
  proof (intro allI impI)
    fix n :: nat
    assume n: "n < 64"
    have "bit m' n = (bit m n \<noteq> (t \<le> n \<and> bit m (n - t)))" using n by (auto simp: m'_def bit_xor_iff bit_push_bit_iff)
    then show "bit m' n = even (n div t)" using assms n even_halves [OF assms(1), of n] by simp
  qed
  have "t \<le> n" if "odd (n div t)" for n using that by (metis div_less even_zero linorder_not_less)
  then have "\<forall>n < 64. bit v' n = bit v (swap_bit t n)"
    using m' by (auto simp: v'_def swap_bit_def bit_or_iff bit_and_iff bit_not_iff bit_drop_bit_eq bit_push_bit_iff add.commute)
  moreover have "rev_loop (2 * t) m v = rev_loop t m' v'"
    using assms(1) by (subst rev_loop.simps) (simp add: Let_def m'_def v'_def)
  ultimately show ?thesis using m' by blast
qed

lemma rev_loop_bit:
  "j \<le> 6 \<Longrightarrow> \<forall>n < 64. bit m n = even (n div 2 ^ j) \<Longrightarrow> n < 64 \<Longrightarrow> bit (rev_loop (2 ^ j) m v) n = bit v (flip_low j n)"
proof (induction j arbitrary: m v)
  case 0
  then show ?case by (subst rev_loop.simps) (simp add: flip_low_def)
next
  case (Suc j)
  obtain m' v' where s: "rev_loop (2 * 2 ^ j) m v = rev_loop (2 ^ j) m' v'" "\<forall>n < 64. bit m' n = even (n div 2 ^ j)"
    "\<forall>n < 64. bit v' n = bit v (swap_bit (2 ^ j) n)" using rev_step [of "2 ^ j" m v] Suc.prems(2) by auto
  have "bit (rev_loop (2 ^ j) m' v') n = bit v' (flip_low j n)" using Suc s(2) by simp
  then show ?case using s flip_low_lt [of j n] Suc.prems by (simp add: swap_flip)
qed

lemma bit_rev64: "bit (rev64 v) n \<longleftrightarrow> n < 64 \<and> bit v (63 - n)"
proof (cases "n < 64")
  case True
  have "bit (rev_loop (2 ^ 6) (NOT 0) v) n = bit v (flip_low 6 n)" by (rule rev_loop_bit) (use True in auto)
  then show ?thesis using True by (simp add: rev64_def flip_low_def)
qed (auto dest: bit_imp_le_length)

section \<open>The order of the cursor\<close>

text \<open>Cursors and hashes are compared by their reversed bits. Buckets of a table of \<open>2 ^ b\<close> are intervals of that order.\<close>

definition rpos :: "w64 \<Rightarrow> nat" where
  "rpos x = unat (rev64 x)"

lemma rev64_rev64 [simp]: "rev64 (rev64 v) = v"
  by (rule bit_word_eqI) (auto simp: bit_rev64)

lemma rpos_rev64 [simp]: "rpos (rev64 y) = unat y"
  by (simp add: rpos_def)

lemma rpos_lt: "rpos x < 2 ^ 64"
  using unsigned_less [of "rev64 x"] by (simp add: rpos_def)

lemma rpos_eq_0: "rpos x = 0 \<longleftrightarrow> x = 0"
proof -
  have "rev64 (0 :: w64) = 0" by (rule bit_word_eqI) (simp add: bit_rev64)
  then show ?thesis by (metis rev64_rev64 rpos_def unsigned_0 unsigned_eq_0_iff)
qed

lemma rpos_block:
  assumes "b \<le> 64"
  shows "rpos x div 2 ^ (64 - b) = rpos v div 2 ^ (64 - b) \<longleftrightarrow> take_bit b x = take_bit b v"
proof -
  have "take_bit 64 (unat y) = unat y" for y :: w64
    using rpos_lt [of "rev64 y"] by (intro take_bit_nat_eq_self) (simp only: rpos_rev64)
  then have "rpos y div 2 ^ (64 - b) = unat (drop_bit (64 - b) (rev64 y))" for y
    unfolding rpos_def unsigned_drop_bit_eq by (simp add: drop_bit_eq_div take_bit_drop_bit)
  then have "rpos x div 2 ^ (64 - b) = rpos v div 2 ^ (64 - b) \<longleftrightarrow> drop_bit (64 - b) (rev64 x) = drop_bit (64 - b) (rev64 v)"
    by (metis unsigned_word_eqI)
  also have "\<dots> \<longleftrightarrow> (\<forall>i < b. bit x i = bit v i)"
  proof
    assume a: "drop_bit (64 - b) (rev64 x) = drop_bit (64 - b) (rev64 v)"
    show "\<forall>i < b. bit x i = bit v i"
    proof (intro allI impI)
      fix i assume "i < b"
      then show "bit x i = bit v i" using arg_cong [OF a, of "\<lambda>w. bit w (b - 1 - i)"] assms by (auto simp: bit_drop_bit_eq bit_rev64)
    qed
  next
    assume "\<forall>i < b. bit x i = bit v i"
    then show "drop_bit (64 - b) (rev64 x) = drop_bit (64 - b) (rev64 v)"
      using assms by (intro bit_word_eqI) (auto simp: bit_drop_bit_eq bit_rev64)
  qed
  also have "\<dots> \<longleftrightarrow> take_bit b x = take_bit b v"
    using assms by (auto simp: bit_eq_iff bit_take_bit_iff) (metis less_le_trans)+
  finally show ?thesis .
qed

lemma or_mask_nat: "n OR (2 ^ k - 1) = n div 2 ^ k * 2 ^ k + (2 ^ k - 1)" for n k :: nat
proof -
  have "n OR mask k = mask k OR push_bit k (drop_bit k n)"
    by (rule bit_eqI) (auto simp: bit_or_iff bit_mask_iff bit_push_bit_iff bit_drop_bit_eq)
  then have "n OR (2 ^ k - 1) = (2 ^ k - 1) OR (n div 2 ^ k * 2 ^ k)" by (simp only: mask_eq_exp_minus_1 push_bit_eq_mult drop_bit_eq_div)
  also have "\<dots> = (2 ^ k - 1) + n div 2 ^ k * 2 ^ k" by (rule nat_or_add) simp
  finally show ?thesis by (simp only: add.commute)
qed

lemma next_cursor_pos:
  assumes "b \<le> 64"
  defines "k \<equiv> 64 - b"
  shows "rpos (next_cursor (mask b) v) = ((rpos v div 2 ^ k + 1) * 2 ^ k) mod 2 ^ 64"
proof -
  have "rev64 (v OR NOT (mask b)) = rev64 v OR mask k"
    using assms by (intro bit_word_eqI) (auto simp: bit_rev64 bit_or_iff bit_not_iff bit_mask_iff)
  moreover have "unat (mask k :: w64) = mask k" by (rule bit_eqI) (auto simp: bit_unsigned_iff bit_mask_iff k_def)
  ultimately have "unat (rev64 (v OR NOT (mask b))) = rpos v OR (2 ^ k - 1)"
    by (simp only: rpos_def unsigned_or_eq mask_eq_exp_minus_1)
  then have "unat (rev64 (v OR NOT (mask b))) = rpos v div 2 ^ k * 2 ^ k + (2 ^ k - 1)" by (simp only: or_mask_nat)
  then have "unat (rev64 (v OR NOT (mask b))) + 1 = (rpos v div 2 ^ k + 1) * 2 ^ k" by simp
  moreover have "unat (y + 1) = (unat y + 1) mod 2 ^ 64" for y :: w64 by (simp add: unat_word_ariths)
  ultimately show ?thesis unfolding next_cursor_def rpos_rev64 by (simp only:)
qed

lemma next_block:
  assumes b: "b \<le> 64" and k: "k = 64 - b" and v': "rpos v' = ((rpos v div 2 ^ k + 1) * 2 ^ k) mod 2 ^ 64"
  shows "v' = 0 \<or> rpos v < rpos v'"
    and "rpos v \<le> rpos x \<Longrightarrow> v' = 0 \<or> rpos x < rpos v' \<Longrightarrow> rpos x div 2 ^ k = rpos v div 2 ^ k"
proof -
  define N where "N = (rpos v div 2 ^ k + 1) * 2 ^ k"
  have p: "(2 :: nat) ^ 64 = 2 ^ b * 2 ^ k" using b k by (simp flip: power_add)
  have "rpos v div 2 ^ k < 2 ^ b" using rpos_lt [of v] unfolding p by (rule less_mult_imp_div_less)
  then have N1: "N \<le> 2 ^ 64" unfolding N_def p by (intro mult_right_mono) simp_all
  have N2: "rpos v < N" unfolding N_def by (metis Suc_eq_plus1 dividend_less_div_times mult.commute mult_Suc zero_less_numeral zero_less_power add.commute)
  have rN: "rpos v' = N mod 2 ^ 64" using v' by (simp only: N_def)
  have c: "v' = 0 \<and> N = 2 ^ 64 \<or> v' \<noteq> 0 \<and> rpos v' = N"
  proof (cases "N = 2 ^ 64")
    case True
    then have "rpos v' = 0" using rN by simp
    then show ?thesis using True by (simp add: rpos_eq_0)
  next
    case False
    then have "N mod 2 ^ 64 = N" using N1 by (intro mod_less) (rule le_neq_implies_less)
    then have "rpos v' = N" using rN by (simp only:)
    then show ?thesis using N2 rpos_eq_0 [of v'] by auto
  qed
  then show "v' = 0 \<or> rpos v < rpos v'" using N2 by auto
  assume x: "rpos v \<le> rpos x" "v' = 0 \<or> rpos x < rpos v'"
  have "rpos x < N" using c x(2) rpos_lt [of x] by auto
  then have "rpos x div 2 ^ k < rpos v div 2 ^ k + 1" unfolding N_def by (rule less_mult_imp_div_less)
  moreover have "rpos v div 2 ^ k \<le> rpos x div 2 ^ k" using x(1) by (rule div_le_mono)
  ultimately show "rpos x div 2 ^ k = rpos v div 2 ^ k" by simp
qed

lemma rpos_mod: "b \<le> 64 \<Longrightarrow> rpos v mod 2 ^ (64 - b) = 0 \<longleftrightarrow> (\<forall>j \<ge> b. \<not> bit v j)"
proof -
  assume b: "b \<le> 64"
  have "rpos v mod 2 ^ (64 - b) = unat (take_bit (64 - b) (rev64 v))" unfolding unsigned_take_bit_eq by (simp only: rpos_def take_bit_eq_mod)
  then have "rpos v mod 2 ^ (64 - b) = 0 \<longleftrightarrow> take_bit (64 - b) (rev64 v) = 0" by (simp only: unsigned_eq_0_iff)
  also have "\<dots> \<longleftrightarrow> (\<forall>j \<ge> b. \<not> bit v j)"
  proof
    assume a: "take_bit (64 - b) (rev64 v) = 0"
    show "\<forall>j \<ge> b. \<not> bit v j"
    proof (intro allI impI notI)
      fix j assume j: "b \<le> j" "bit v j"
      then have "j < 64" using bit_imp_le_length [of v j] by simp
      then show False using arg_cong [OF a, of "\<lambda>w. bit w (63 - j)"] j b by (auto simp: bit_take_bit_iff bit_rev64)
    qed
  next
    assume nb: "\<forall>j \<ge> b. \<not> bit v j"
    show "take_bit (64 - b) (rev64 v) = 0"
    proof (rule bit_word_eqI)
      fix n
      have "\<not> bit v (63 - n)" if "n < 64 - b" using nb [rule_format, of "63 - n"] that by simp
      then show "bit (take_bit (64 - b) (rev64 v)) n = bit 0 n" by (cases "n < 64 - b") (simp_all add: bit_take_bit_iff bit_rev64)
    qed
  qed
  finally show ?thesis .
qed

lemma masks_zero:
  assumes "b0 \<le> b1" "b1 \<le> 64" "rpos v mod 2 ^ (64 - b1) = 0"
  shows "v AND (mask b0 XOR mask b1) = 0 \<longleftrightarrow> rpos v mod 2 ^ (64 - b0) = 0"
proof -
  have z: "\<not> bit v j" if "b1 \<le> j" for j using iffD1 [OF rpos_mod [OF assms(2)] assms(3)] that by simp
  have b: "bit (v AND (mask b0 XOR mask b1)) j \<longleftrightarrow> bit v j \<and> b0 \<le> j \<and> j < b1" for j
    using assms(1,2) by (cases "j < b0"; cases "j < b1") (simp_all add: bit_and_iff bit_xor_iff bit_mask_iff)
  have "v AND (mask b0 XOR mask b1) = 0 \<longleftrightarrow> (\<forall>j \<ge> b0. \<not> bit v j)"
  proof
    assume "v AND (mask b0 XOR mask b1) = 0"
    then have "\<not> bit (v AND (mask b0 XOR mask b1)) j" for j by simp
    then show "\<forall>j \<ge> b0. \<not> bit v j" unfolding b using z by (auto simp: linorder_not_le [symmetric])
  qed (intro bit_word_eqI, simp add: b)
  moreover have "b0 \<le> 64" using assms by simp
  ultimately show ?thesis using rpos_mod [of b0 v] by (simp only:)
qed

section \<open>One bucket and its expansions\<close>

definition hash_pos :: "('k, 'v) dictType \<Rightarrow> ('k, 'v) dictEntry \<Rightarrow> nat" where
  "hash_pos ty e = rpos (hashFunction ty (dictGetKey e))"

lemma mask_of_exp: "0 \<le> e \<Longrightarrow> DICTHT_SIZE_MASK e = mask (nat e)"
  by (simp add: DICTHT_SIZE_MASK_def DICTHT_SIZE_def mask_eq_exp_minus_1)

lemma bucket_block:
  assumes t: "htab_ok ty t" "tbl t \<noteq> None" and b: "b = nat (ht_size_exp t)"
  shows "\<exists>c. bucket_at t (unat (v AND mask b)) = Some c \<and>
    (\<forall>e \<in> set (entries t). hash_pos ty e div 2 ^ (64 - b) = rpos v div 2 ^ (64 - b) \<longrightarrow> e \<in> set c)"
proof -
  have r: "0 \<le> ht_size_exp t" "b \<le> 64" using t b by (auto simp: htab_ok_def)
  have i: "ht_index h (ht_size_exp t) = unat (take_bit b h)" for h
    by (simp add: ht_index_def mask_of_exp r(1) b take_bit_eq_mask)
  have m: "unat (v AND mask b) = ht_index v (ht_size_exp t)" by (simp add: i take_bit_eq_mask)
  obtain c where c: "bucket_at t (unat (v AND mask b)) = Some c" unfolding m using bucket_at_index [OF t] by blast
  have "e \<in> set c" if "e \<in> set (entries t)" "hash_pos ty e div 2 ^ (64 - b) = rpos v div 2 ^ (64 - b)" for e
    using entries_bucket [OF t(1) that(1)] that(2) c rpos_block [OF r(2), of "hashFunction ty (dictGetKey e)" v]
    by (auto simp: hash_pos_def m i)
  then show ?thesis using c by blast
qed

lemma last_of_block: "Suc q mod D = 0 \<Longrightarrow> q \<le> y \<Longrightarrow> y div D = q div D \<Longrightarrow> y = q" for q y D :: nat
  by (metis Suc_leI antisym div_Suc div_le_mono le_neq_implies_less n_not_Suc_n not_less_eq_eq)

lemma scan_loop_ok:
  assumes t: "htab_ok ty t" "tbl t \<noteq> None" and b1: "b1 = nat (ht_size_exp t)" and b0: "b0 \<le> b1" and k: "k0 = 64 - b0" "k1 = 64 - b1"
  shows "2 ^ (b1 - b0) \<le> fuel + (rpos v div 2 ^ k1) mod 2 ^ (b1 - b0) \<Longrightarrow>
    \<exists>v' out. scan_loop fuel t (mask b0) (mask b1) v = Some (v', out) \<and> rpos v' = ((rpos v div 2 ^ k0 + 1) * 2 ^ k0) mod 2 ^ 64 \<and>
      (\<forall>e \<in> set (entries t). rpos v \<le> hash_pos ty e \<and> hash_pos ty e div 2 ^ k0 = rpos v div 2 ^ k0 \<longrightarrow> e \<in> set out)"
proof (induction fuel arbitrary: v)
  case 0
  then show ?case by (metis add_0 linorder_not_le mod_less_divisor zero_less_numeral zero_less_power)
next
  case (Suc fuel)
  have b: "b1 \<le> 60" using t b1 by (auto simp: htab_ok_def)
  define D :: nat where "D = 2 ^ (b1 - b0)"
  define q where "q = rpos v div 2 ^ k1"
  have K: "(2 :: nat) ^ k0 = 2 ^ k1 * D" using b0 b k by (simp add: D_def flip: power_add)
  have dv: "x div 2 ^ k0 = x div 2 ^ k1 div D" for x :: nat by (simp only: K div_mult2_eq)
  have D: "0 < D" by (simp add: D_def)
  have pw: "(2 :: nat) ^ 64 = 2 ^ b1 * 2 ^ k1" "(2 :: nat) ^ 64 = 2 ^ b0 * 2 ^ k0" using b b0 k by (simp_all flip: power_add)
  obtain c where c: "bucket_at t (unat (v AND mask b1)) = Some c"
    "\<forall>e \<in> set (entries t). hash_pos ty e div 2 ^ k1 = q \<longrightarrow> e \<in> set c" using bucket_block [OF t b1, of v] by (auto simp: q_def k)
  define v2 where "v2 = next_cursor (mask b1) v"
  have v2: "rpos v2 = ((q + 1) * 2 ^ k1) mod 2 ^ 64" using next_cursor_pos [of b1 v] b by (simp add: v2_def q_def k)
  have "rpos v2 mod 2 ^ k1 = 0" unfolding v2 pw(1) by (simp add: mod_mod_cancel)
  then have stop: "v2 AND (mask b0 XOR mask b1) = 0 \<longleftrightarrow> rpos v2 mod 2 ^ k0 = 0" using masks_zero b0 b k by simp
  have "rpos v2 mod 2 ^ k0 = (q + 1) * 2 ^ k1 mod 2 ^ k0" unfolding v2 pw(2) by (simp add: mod_mod_cancel)
  also have "\<dots> = 2 ^ k1 * ((q + 1) mod D)" unfolding K by (metis mod_mult_mult1 mult.commute)
  finally have stop': "v2 AND (mask b0 XOR mask b1) = 0 \<longleftrightarrow> Suc q mod D = 0" using stop by simp
  have le: "q \<le> hash_pos ty e div 2 ^ k1" if "rpos v \<le> hash_pos ty e" for e unfolding q_def using that by (rule div_le_mono)
  show ?case
  proof (cases "Suc q mod D = 0")
    case True
    then have qq: "q + 1 = (q div D + 1) * D" by (metis Suc_eq_plus1 add.right_neutral div_Suc div_mult_mod_eq)
    have "(q + 1) * 2 ^ k1 = (q div D + 1) * 2 ^ k0" unfolding K by (subst qq) (simp only: mult_ac)
    then have "rpos v2 = ((rpos v div 2 ^ k0 + 1) * 2 ^ k0) mod 2 ^ 64" unfolding v2 dv q_def [symmetric] by (simp only:)
    moreover have "e \<in> set c" if "e \<in> set (entries t)" "rpos v \<le> hash_pos ty e" "hash_pos ty e div 2 ^ k0 = rpos v div 2 ^ k0" for e
      using that c(2) last_of_block [OF True le [OF that(2)]] by (simp add: dv q_def)
    ultimately show ?thesis using c(1) stop' True by (simp add: v2_def [symmetric])
  next
    case False
    have "q < 2 ^ b1" using rpos_lt [of v] unfolding q_def pw(1) by (rule less_mult_imp_div_less)
    moreover have "D dvd 2 ^ b1" unfolding D_def by (intro le_imp_power_dvd) simp
    ultimately have "q + 1 < 2 ^ b1" using False by (metis Suc_eq_plus1 Suc_leI dvd_imp_mod_0 le_neq_implies_less)
    then have "(q + 1) * 2 ^ k1 < 2 ^ 64" unfolding pw(1) by (intro mult_strict_right_mono) simp_all
    then have p2: "rpos v2 = (q + 1) * 2 ^ k1" using v2 by simp
    have q2: "rpos v2 div 2 ^ k1 = Suc q" by (simp add: p2)
    have blk: "Suc q mod D = Suc (q mod D)" "Suc q div D = q div D" using False by (simp_all add: mod_Suc div_Suc split: if_splits)
    have "2 ^ (b1 - b0) \<le> fuel + (rpos v2 div 2 ^ k1) mod 2 ^ (b1 - b0)" using Suc.prems blk(1) unfolding q2 D_def [symmetric] q_def [symmetric] by simp
    then obtain v' out where r: "scan_loop fuel t (mask b0) (mask b1) v2 = Some (v', out)" "rpos v' = ((rpos v2 div 2 ^ k0 + 1) * 2 ^ k0) mod 2 ^ 64"
      "\<forall>e \<in> set (entries t). rpos v2 \<le> hash_pos ty e \<and> hash_pos ty e div 2 ^ k0 = rpos v2 div 2 ^ k0 \<longrightarrow> e \<in> set out"
      using Suc.IH by blast
    have same: "rpos v2 div 2 ^ k0 = rpos v div 2 ^ k0" using blk(2) by (simp add: dv q2 q_def)
    have "e \<in> set (c @ out)" if e: "e \<in> set (entries t)" "rpos v \<le> hash_pos ty e" "hash_pos ty e div 2 ^ k0 = rpos v div 2 ^ k0" for e
    proof (cases "hash_pos ty e div 2 ^ k1 = q")
      case ne: False
      then have "Suc q \<le> hash_pos ty e div 2 ^ k1" using le [OF e(2)] by simp
      then have "rpos v2 \<le> hash_pos ty e" unfolding p2 by (simp add: less_eq_div_iff_mult_less_eq)
      then show ?thesis using r(3) e same by simp
    qed (use c(2) e in simp)
    moreover have "scan_loop (Suc fuel) t (mask b0) (mask b1) v = Some (v', c @ out)" using c(1) stop' False r(1) by (simp add: v2_def [symmetric])
    ultimately show ?thesis using r(2) same by auto
  qed
qed

section \<open>Properties\<close>

lemma size_exp_mono:
  assumes "htab_ok ty t0" "htab_ok ty t1" "tbl t0 \<noteq> None" "tbl t1 \<noteq> None" "DICTHT_SIZE (ht_size_exp t0) \<le> DICTHT_SIZE (ht_size_exp t1)"
  shows "nat (ht_size_exp t0) \<le> nat (ht_size_exp t1)" "2 ^ (nat (ht_size_exp t1) - nat (ht_size_exp t0)) \<le> DICTHT_SIZE (ht_size_exp t1)"
    "0 \<le> ht_size_exp t0" "0 \<le> ht_size_exp t1" "nat (ht_size_exp t0) \<le> 64"
proof -
  show e: "0 \<le> ht_size_exp t0" "0 \<le> ht_size_exp t1" "nat (ht_size_exp t0) \<le> 64" using assms(1-4) by (auto simp: htab_ok_def)
  then have "(2 :: nat) ^ nat (ht_size_exp t0) \<le> 2 ^ nat (ht_size_exp t1)" using assms(5) by (simp add: DICTHT_SIZE_def)
  then show "nat (ht_size_exp t0) \<le> nat (ht_size_exp t1)" by (simp only: power_increasing_iff one_less_numeral_iff semiring_norm)
  show "2 ^ (nat (ht_size_exp t1) - nat (ht_size_exp t0)) \<le> DICTHT_SIZE (ht_size_exp t1)"
    using e(2) by (simp add: DICTHT_SIZE_def power_increasing)
qed

lemma scan_two:
  assumes t0: "htab_ok ty t0" "tbl t0 \<noteq> None" and t1: "htab_ok ty t1" "tbl t1 \<noteq> None"
    and s: "DICTHT_SIZE (ht_size_exp t0) \<le> DICTHT_SIZE (ht_size_exp t1)" and m: "m0 = DICTHT_SIZE_MASK (ht_size_exp t0)" "m1 = DICTHT_SIZE_MASK (ht_size_exp t1)"
  shows "\<exists>c v' out. bucket_at t0 (unat (v AND m0)) = Some c \<and> scan_loop (DICTHT_SIZE (ht_size_exp t1)) t1 m0 m1 v = Some (v', out) \<and>
    (v' = 0 \<or> rpos v < rpos v') \<and>
    (\<forall>e \<in> set (entries t0) \<union> set (entries t1). rpos v \<le> hash_pos ty e \<and> (v' = 0 \<or> hash_pos ty e < rpos v') \<longrightarrow> e \<in> set (c @ out))"
proof -
  note x = size_exp_mono [OF t0(1) t1(1) t0(2) t1(2) s]
  define b0 b1 where "b0 = nat (ht_size_exp t0)" and "b1 = nat (ht_size_exp t1)"
  have mm: "m0 = mask b0" "m1 = mask b1" using x(3,4) by (simp_all add: m mask_of_exp b0_def b1_def)
  obtain c where c: "bucket_at t0 (unat (v AND m0)) = Some c"
    "\<forall>e \<in> set (entries t0). hash_pos ty e div 2 ^ (64 - b0) = rpos v div 2 ^ (64 - b0) \<longrightarrow> e \<in> set c"
    using bucket_block [OF t0 b0_def, of v] unfolding mm by blast
  have f: "2 ^ (b1 - b0) \<le> DICTHT_SIZE (ht_size_exp t1) + rpos v div 2 ^ (64 - b1) mod 2 ^ (b1 - b0)"
    using x(2) unfolding b0_def b1_def by (rule trans_le_add1)
  obtain v' out where l: "scan_loop (DICTHT_SIZE (ht_size_exp t1)) t1 m0 m1 v = Some (v', out)" "rpos v' = ((rpos v div 2 ^ (64 - b0) + 1) * 2 ^ (64 - b0)) mod 2 ^ 64"
    "\<forall>e \<in> set (entries t1). rpos v \<le> hash_pos ty e \<and> hash_pos ty e div 2 ^ (64 - b0) = rpos v div 2 ^ (64 - b0) \<longrightarrow> e \<in> set out"
    using scan_loop_ok [OF t1 b1_def x(1) [folded b0_def b1_def] refl refl f] unfolding mm by blast
  note n = next_block [OF x(5) [folded b0_def] refl l(2)]
  have "e \<in> set (c @ out)" if e: "e \<in> set (entries t0) \<union> set (entries t1)" "rpos v \<le> hash_pos ty e" "v' = 0 \<or> hash_pos ty e < rpos v'" for e
    using n(2) [OF e(2,3) [unfolded hash_pos_def]] c(2) l(3) e(1,2) unfolding hash_pos_def by auto
  then show ?thesis using c(1) l(1) n(1) by blast
qed

lemma pause_resume: "pauserehash d < 2 ^ 15 \<Longrightarrow> dictResumeRehashing (dictPauseRehashing d) = d"
proof -
  assume p: "pauserehash d < 2 ^ 15"
  have "((pauserehash d + 1) mod 2 ^ 15 + (2 ^ 15 - 1)) mod 2 ^ 15 = (pauserehash d + 2 ^ 15) mod 2 ^ 15" by (simp add: mod_add_left_eq)
  also have "\<dots> = pauserehash d" using p by simp
  finally show ?thesis by (simp add: dictResumeRehashing_def dictPauseRehashing_def)
qed

lemma scan_step_ok:
  assumes d: "dict_wf ty d" and p: "pauserehash d < 2 ^ 15"
  shows "\<exists>v' out. dictScan d v = Some (d, v', out) \<and> (v' = 0 \<or> rpos v < rpos v') \<and>
    (\<forall>e \<in> set (entries (ht0 d)) \<union> set (entries (ht1 d)). rpos v \<le> hash_pos ty e \<and> (v' = 0 \<or> hash_pos ty e < rpos v') \<longrightarrow> e \<in> set out)"
proof (cases "dictSize d = 0")
  case True
  then show ?thesis using entries_unused [OF wf_tables(1) [OF d]] entries_unused [OF wf_tables(2) [OF d]]
    by (simp add: dictScan_def dictSize_def)
next
  case False
  have P: "dictIsRehashing (dictPauseRehashing d) = dictIsRehashing d" "ht0 (dictPauseRehashing d) = ht0 d" "ht1 (dictPauseRehashing d) = ht1 d"
    by (simp_all add: dictPauseRehashing_def dictIsRehashing_def)
  note w = wf_tables [OF d] and t0 = size_table [OF d False]
  show ?thesis
  proof (cases "dictIsRehashing d")
    case nr: False
    have e1: "entries (ht1 d) = []" using d nr by (simp add: dict_wf_def entries_def reset_htab_def)
    define b where "b = nat (ht_size_exp (ht0 d))"
    have b: "b \<le> 64" "DICTHT_SIZE_MASK (ht_size_exp (ht0 d)) = mask b" using w(1) t0 by (auto simp: htab_ok_def b_def mask_of_exp)
    obtain c where c: "bucket_at (ht0 d) (unat (v AND mask b)) = Some c"
      "\<forall>e \<in> set (entries (ht0 d)). hash_pos ty e div 2 ^ (64 - b) = rpos v div 2 ^ (64 - b) \<longrightarrow> e \<in> set c"
      using bucket_block [OF w(1) t0 b_def, of v] by blast
    have res: "dictScan d v = Some (d, next_cursor (mask b) v, c)"
      using False nr c(1) pause_resume [OF p] by (simp add: dictScan_def Let_def P b(2))
    note n = next_block [OF b(1) refl next_cursor_pos [OF b(1)], of v]
    have "e \<in> set c" if e: "e \<in> set (entries (ht0 d)) \<union> set (entries (ht1 d))" "rpos v \<le> hash_pos ty e"
      "next_cursor (mask b) v = 0 \<or> hash_pos ty e < rpos (next_cursor (mask b) v)" for e
      using n(2) [OF e(2,3) [unfolded hash_pos_def]] c(2) e(1) e1 unfolding hash_pos_def by auto
    then show ?thesis using res n(1) by blast
  next
    case rh: True
    have t1: "tbl (ht1 d) \<noteq> None" using wf_rehashing [OF d rh] by blast
    show ?thesis
    proof (cases "DICTHT_SIZE (ht_size_exp (ht0 d)) > DICTHT_SIZE (ht_size_exp (ht1 d))")
      case True
      then show ?thesis using scan_two [OF w(2) t1 w(1) t0 _ refl refl, of v] False rh pause_resume [OF p]
        by (force simp: dictScan_def Let_def P)
    next
      case le: False
      then show ?thesis using scan_two [OF w(1) t0 w(2) t1 _ refl refl, of v] False rh pause_resume [OF p]
        by (force simp: dictScan_def Let_def P)
    qed
  qed
qed

text \<open>
  C9. One call of \<^verbatim>\<open>dictScan\<close>, in the order of the reversed bits: the cursor moves forward or the iteration ends, and every entry whose
  hash is between the old and the new cursor is returned, whether the dictionary has one table or is being rehashed, with
  the larger table first or second. The dictionary is not changed.
\<close>

theorem dictScan_step:
  assumes "dict_wf ty d" "pauserehash d < 2 ^ 15"
  shows "\<exists>v' out. dictScan d v = Some (d, v', out) \<and> (v' = 0 \<or> rpos v < rpos v') \<and>
    (\<forall>e \<in> set (entries (ht0 d)) \<union> set (entries (ht1 d)). rpos v \<le> hash_pos ty e \<and> (v' = 0 \<or> hash_pos ty e < rpos v') \<longrightarrow> e \<in> set out)"
  by (rule scan_step_ok [OF assms])

theorem dictScan_step_witness:
  "\<exists>v' out. dictScan demo_dict 0 = Some (demo_dict, v', out) \<and> (v' = 0 \<or> 0 < rpos v')"
proof -
  have p: "pauserehash demo_dict < 2 ^ 15" by (simp add: demo_dict_def)
  show ?thesis using dictScan_step [OF demo_dict_wf p, of 0] rpos_eq_0 [of 0] by auto
qed

lemma scan_run_ok:
  assumes "\<forall>d \<in> set ds. dict_wf ty d \<and> pauserehash d < 2 ^ 15 \<and> dict_map d k \<noteq> None"
    "scan_run ds v = Some (0, out)" "ds \<noteq> [] \<or> v \<noteq> 0" "rpos v \<le> rpos (hashFunction ty k)"
  shows "k \<in> dictGetKey ` set out"
  using assms
proof (induction ds arbitrary: v out)
  case (Cons d ds)
  have d: "dict_wf ty d" "pauserehash d < 2 ^ 15" "dict_map d k \<noteq> None" using Cons.prems(1) by auto
  obtain v' o1 where s: "dictScan d v = Some (d, v', o1)"
    "\<forall>e \<in> set (entries (ht0 d)) \<union> set (entries (ht1 d)). rpos v \<le> hash_pos ty e \<and> (v' = 0 \<or> hash_pos ty e < rpos v') \<longrightarrow> e \<in> set o1"
    using scan_step_ok [OF d(1,2), of v] by blast
  obtain e where e: "e \<in> set (entries (ht0 d)) \<union> set (entries (ht1 d))" "dictGetKey e = k" using d(3) unfolding dom_dict_map by blast
  then have h: "hash_pos ty e = rpos (hashFunction ty k)" by (simp add: hash_pos_def)
  show ?case
  proof (cases "v' = 0 \<or> hash_pos ty e < rpos v'")
    case True
    then have "e \<in> set o1" using s(2) e(1) h Cons.prems(4) by auto
    moreover have "set o1 \<subseteq> set out" using Cons.prems(2) s(1) by (auto split: if_splits Option.bind_splits)
    ultimately show ?thesis using e(2) by blast
  next
    case False
    then obtain o2 where o2: "scan_run ds v' = Some (0, o2)" "out = o1 @ o2" using Cons.prems(2) s(1) by (auto split: Option.bind_splits)
    have "k \<in> dictGetKey ` set o2" using Cons.prems(1) o2(1) False h by (intro Cons.IH [of v']) auto
    then show ?thesis using o2(2) by auto
  qed
qed simp

text \<open>
  C3. A whole iteration misses nothing that stays: when \<^verbatim>\<open>dictScan\<close> is called from cursor 0 until it returns 0, every key that is in the
  dictionary at each of the calls is returned by one of them, whatever is added, deleted, rehashed or resized between the calls. This is the
  guarantee that the comment of the function gives for elements present from the start to the end.
\<close>

theorem dictScan_complete:
  assumes "\<forall>d \<in> set ds. dict_wf ty d \<and> pauserehash d < 2 ^ 15 \<and> dict_map d k \<noteq> None" "scan_run ds 0 = Some (0, out)" "ds \<noteq> []"
  shows "k \<in> dictGetKey ` set out"
  using scan_run_ok [OF assms(1,2)] assms(3) rpos_eq_0 [of 0] by simp

definition tiny_dict :: "(w64, nat) dict" where
  "tiny_dict = \<lparr>ht0 = \<lparr>tbl = Some [[Normal 9 (Some 90), Normal 5 (Some 50)]], ht_size_exp = 0, ht_used = 2\<rparr>, ht1 = reset_htab,
    rehashidx = -1, pauserehash = 0, useStoredKeyApi = False, pauseAutoResize = 0, events = [BucketChanged 1]\<rparr>"

lemma tiny_dict_wf: "dict_wf demo_type tiny_dict" "dict_map tiny_dict 5 \<noteq> None" "pauserehash tiny_dict < 2 ^ 15"
  by (simp_all add: dict_wf_def htab_ok_def tiny_dict_def demo_type_def in_bucket_def ht_index_mod dictIsRehashing_def reset_htab_def
      all_kv_def entries_def dictBuckets_def DICTHT_SIZE_def dict_map_def)

lemma tiny_dict_scan: "scan_run [tiny_dict] 0 = Some (0, [Normal 9 (Some 90), Normal 5 (Some 50)])"
proof -
  have "rpos (next_cursor (mask 0) 0) = 0" using next_cursor_pos [of 0 0] by simp
  then have "next_cursor 0 0 = 0" by (simp add: rpos_eq_0)
  then show ?thesis
    by (simp add: dictScan_def tiny_dict_def dictSize_def dictPauseRehashing_def dictResumeRehashing_def dictIsRehashing_def
        DICTHT_SIZE_MASK_def DICTHT_SIZE_def bucket_at_def Let_def)
qed

theorem dictScan_complete_witness:
  "scan_run [tiny_dict] 0 \<noteq> None \<and> 5 \<in> dictGetKey ` set (snd (the (scan_run [tiny_dict] 0)))"
  using dictScan_complete [OF _ tiny_dict_scan, of demo_type 5] tiny_dict_wf tiny_dict_scan by simp

end
