(* ===== verification/Dict_Set.thy ===== *)
theory Dict_Set
  imports Interfaces Dict_Map
begin

text \<open>
  Sets stored as dictionaries without values (\<^verbatim>\<open>OBJ_ENCODING_HT\<close> of \<^verbatim>\<open>redis-stable/src/t_set.c\<close>): what the set functions do on
  this encoding, and the loops of \<^verbatim>\<open>SADD\<close> and \<^verbatim>\<open>SREM\<close> over their arguments. They satisfy the same contract as the integer sets,
  without a bound.
\<close>

section \<open>Definitions\<close>

text \<open>
  The type is a field of the C structure; here a dictionary is paired with it. Members are \<^verbatim>\<open>sds\<close> strings, so \<^verbatim>\<open>sdsval\<close> is the
  argument itself, and copying it with \<^verbatim>\<open>sdsdup\<close> gives an equal string.
\<close>

type_synonym 'k dset = "('k, unit) dictType \<times> ('k, unit) dict"

definition setTypeAdd_ht :: "dictResizeEnable \<Rightarrow> 'k dset \<Rightarrow> 'k \<Rightarrow> ('k dset \<times> bool) option" where
  "setTypeAdd_ht can_resize s sdsval =
    (case s of (ty, d) \<Rightarrow>
      do {
        (d, link, bucket) \<leftarrow> dictFindLink ty can_resize d sdsval True;
        if link = None then do {
          (d, _) \<leftarrow> dictSetKeyAtLink ty can_resize d sdsval (map_option (\<lambda>(table, idx). (table, idx, 0)) bucket) True;
          Some ((ty, d), True)
        }
        else Some ((ty, d), False)
      })"

definition setTypeRemove_ht :: "dictResizeEnable \<Rightarrow> 'k dset \<Rightarrow> 'k \<Rightarrow> ('k dset \<times> bool) option" where
  "setTypeRemove_ht can_resize s sdsval =
    (case s of (ty, d) \<Rightarrow> do { (d, deleted) \<leftarrow> dictDelete ty can_resize d sdsval; Some ((ty, d), deleted) })"

definition setTypeIsMember_ht :: "dictResizeEnable \<Rightarrow> 'k dset \<Rightarrow> 'k \<Rightarrow> ('k dset \<times> bool) option" where
  "setTypeIsMember_ht can_resize s sdsval =
    (case s of (ty, d) \<Rightarrow> do { (d, de) \<leftarrow> dictFind ty can_resize d sdsval; Some ((ty, d), de \<noteq> None) })"

definition setTypeSize_ht :: "'k dset \<Rightarrow> nat" where
  "setTypeSize_ht s = (case s of (ty, d) \<Rightarrow> dictSize d)"

text \<open>The loops of the commands on such a set: how many members were added, and how many were deleted and whether the key is to go.\<close>

definition sadd_loop :: "dictResizeEnable \<Rightarrow> 'k dset \<Rightarrow> 'k list \<Rightarrow> ('k dset \<times> nat) option" where
  "sadd_loop can_resize s argv = count_loop (setTypeAdd_ht can_resize) s argv 0"

definition srem_loop :: "dictResizeEnable \<Rightarrow> 'k dset \<Rightarrow> 'k list \<Rightarrow> ('k dset \<times> nat \<times> bool) option" where
  "srem_loop can_resize s argv = remove_loop (setTypeRemove_ht can_resize) setTypeSize_ht s argv 0"

section \<open>The contract\<close>

definition dset_elems :: "'k dset \<Rightarrow> 'k set" where
  "dset_elems s = (case s of (ty, d) \<Rightarrow> dom (dict_map d))"

definition dset_inv :: "'k dset \<Rightarrow> bool" where
  "dset_inv s = (case s of (ty, d) \<Rightarrow> type_ok ty \<and> no_value ty \<and> dict_wf ty d)"

lemma set_add_ok:
  assumes "type_ok ty" "dict_wf ty d"
  shows "\<exists>d'. setTypeAdd_ht can_resize (ty, d) x = Some ((ty, d'), dict_map d x = None) \<and> dict_wf ty d' \<and>
    dom (dict_map d') = insert x (dom (dict_map d))"
proof -
  obtain d1 link b where f: "dictFindLink ty can_resize d x True = Some (d1, link, b)" "keeps ty d d1"
    "case link of
       Some link \<Rightarrow> dict_map d x \<noteq> None \<and> found_at d1 x link
     | None \<Rightarrow> dict_map d x = None \<and> (\<forall>b'. b = Some b' \<longrightarrow> free_at ty d1 x b')"
    using find_link_ok [OF assms] by blast
  note w = keeps_wf [OF f(2)] and m = keeps_map [OF assms(2) f(2)]
  show ?thesis
  proof (cases link)
    case None
    then have n: "dict_map d1 x = None" using f(3) m by simp
    have "p = 0 \<and> free_at ty d1 x (t, i)" if "map_option (\<lambda>(table, idx). (table, idx, 0)) b = Some (t, i, p)" for t i p
      using that f(3) None by auto
    from set_key_new_ok [OF assms(1) w n this] obtain d2 l where
      "dictSetKeyAtLink ty can_resize d1 x (map_option (\<lambda>(table, idx). (table, idx, 0)) b) True = Some (d2, l)"
      "dict_wf ty d2" "dict_map d2 = (dict_map d1)(x \<mapsto> None)" by blast
    then show ?thesis using f(1) None n m by (simp add: setTypeAdd_ht_def)
  next
    case (Some l)
    then show ?thesis using f w m by (auto simp: setTypeAdd_ht_def)
  qed
qed

interpretation dset: sized_set "setTypeAdd_ht can_resize" "setTypeRemove_ht can_resize"
  "\<lambda>s x. map_option snd (setTypeIsMember_ht can_resize s x)" dset_elems dset_inv "\<lambda>_. True" n setTypeSize_ht for can_resize n
proof
  fix s :: "'a dset" and x
  assume "dset_inv s"
  then obtain ty d where s: "s = (ty, d)" "type_ok ty" "no_value ty" "dict_wf ty d"
    by (cases s) (auto simp: dset_inv_def)
  show "finite (dset_elems s)" by (simp add: s dset_elems_def)
  show "setTypeSize_ht s = card (dset_elems s)" by (simp add: s setTypeSize_ht_def dset_elems_def dictSize_card [OF s(4)])
  show "\<exists>s'. setTypeAdd_ht can_resize s x = Some (s', x \<notin> dset_elems s) \<and> dset_inv s' \<and> dset_elems s' = insert x (dset_elems s)"
    using set_add_ok [OF s(2,4), of can_resize x] s by (auto simp: dset_elems_def dset_inv_def domIff)
  obtain d2 d3 r where f: "dictFind ty can_resize d x = Some (d2, r)" "map_option kv r = map_option (Pair x) (dict_map d x)"
    "dictDelete ty can_resize d x = Some (d3, dict_map d x \<noteq> None)" "dict_wf ty d3" "dict_map d3 = (dict_map d)(x := None)"
    using find_delete_ok [OF s(2,4), of can_resize x] by blast
  then show "\<exists>s'. setTypeRemove_ht can_resize s x = Some (s', x \<in> dset_elems s) \<and> dset_inv s' \<and> dset_elems s' = dset_elems s - {x}"
    using s by (intro exI [of _ "(ty, d3)"]) (auto simp: setTypeRemove_ht_def dset_elems_def dset_inv_def)
  show "map_option snd (setTypeIsMember_ht can_resize s x) = Some (x \<in> dset_elems s)"
    using f(1,2) s(1) by (cases r; cases "dict_map d x") (auto simp: setTypeIsMember_ht_def dset_elems_def)
qed

section \<open>Properties\<close>

text \<open>
  C40. \<^verbatim>\<open>SADD\<close> and \<^verbatim>\<open>SREM\<close> of many members on a set stored as a dictionary. The loop of \<^verbatim>\<open>saddCommand\<close>, which looks each member up
  with \<^verbatim>\<open>dictFindLink\<close> and inserts it with \<^verbatim>\<open>dictSetKeyAtLink\<close> at the bucket found (looked up again if the insertion resized the
  tables), makes the set the union and counts the members that were new, each once. The loop of \<^verbatim>\<open>sremCommand\<close>, which stops
  early when nothing is left, makes it the difference, counts the members that were there, and asks for the key to be deleted
  exactly when it emptied the set.
\<close>

theorem dict_set_loops:
  assumes "dset_inv s"
  shows "(\<exists>s'. sadd_loop can_resize s xs = Some (s', card (set xs - dset_elems s)) \<and> dset_inv s' \<and> dset_elems s' = dset_elems s \<union> set xs) \<and>
    (\<exists>s'. srem_loop can_resize s xs = Some (s', card (set xs \<inter> dset_elems s), dset_elems s \<noteq> {} \<and> dset_elems s \<subseteq> set xs) \<and>
      dset_inv s' \<and> dset_elems s' = dset_elems s - set xs)"
  using dset.add_all [OF assms, of xs "card (dset_elems s) + length xs" can_resize 0]
    dset.remove_all [OF assms, of xs "card (dset_elems s) + 1" can_resize 0] by (simp add: sadd_loop_def srem_loop_def)

definition demo_set_type :: "(w64, unit) dictType" where
  "demo_set_type = \<lparr>hashFunction = (\<lambda>k. k), keyDup = None, valDup = None, keyCompare = None, resizeAllowed = None, no_value = True,
    force_full_rehash = False, storedHashFunction = None, storedKeyCompare = None\<rparr>"

theorem dict_set_loops_witness:
  "\<exists>s'. sadd_loop DICT_RESIZE_ENABLE (demo_set_type, dictCreate) [3, 5, 3] = Some (s', 2) \<and> dset_elems s' = {3, 5}"
proof -
  have i: "dset_inv (demo_set_type, dictCreate)" by (simp add: dset_inv_def type_ok_def demo_set_type_def create_dict)
  have e: "dset_elems (demo_set_type, dictCreate) = {}" by (simp add: dset_elems_def create_dict)
  have "card {3, 5 :: w64} = 2" "set [3, 5, 3] = {3, 5 :: w64}" by auto
  then show ?thesis using dict_set_loops [OF i, of DICT_RESIZE_ENABLE "[3, 5, 3]"] unfolding e by auto
qed

end
