(* ===== verification/Kvstore.thy ===== *)
theory Kvstore
  imports Dict_Map
begin

text \<open>
  \<^verbatim>\<open>redis-stable/src/kvstore.c\<close>: an array of dictionaries (one per cluster slot) with a binary indexed tree of their sizes,
  which finds the dictionary of the n-th key and the next dictionary that is not empty in logarithmic time. Of the
  dictionaries of \<^verbatim>\<open>dict.c\<close> these functions read only the size and whether rehashing is paused. A store of a single dictionary has no
  tree, and the functions branch on that. Indices and tree positions are the C \<^verbatim>\<open>int\<close>s they are
  (there are at most \<open>2 ^ 16\<close> dictionaries, so they never overflow); key counts are natural numbers. An access outside an
  array and a failed assertion are \<^term>\<open>None\<close>.
\<close>

section \<open>Definitions\<close>

record ('k, 'v) kvstore =
  dicts :: "('k, 'v) dict option list"
  num_dicts :: int
  num_dicts_bits :: nat
  non_empty_dicts :: int
  key_count :: nat
  dict_size_index :: "nat list"
  allocated_dicts :: int
  free_empty_dicts :: bool

definition at :: "'a list \<Rightarrow> int \<Rightarrow> 'a option" where
  "at xs i = (if 0 \<le> i \<and> i < int (length xs) then Some (xs ! nat i) else None)"

definition kvstoreGetDict :: "('k, 'v) kvstore \<Rightarrow> int \<Rightarrow> ('k, 'v) dict option option" where
  "kvstoreGetDict kvs didx = at (dicts kvs) didx"

text \<open>\<open>on_demand\<close> is the flag \<^verbatim>\<open>KVSTORE_ALLOCATE_DICTS_ON_DEMAND\<close>, \<open>free_empty\<close> is \<^verbatim>\<open>KVSTORE_FREE_EMPTY_DICTS\<close>.\<close>

definition kvstoreCreate :: "nat \<Rightarrow> bool \<Rightarrow> bool \<Rightarrow> ('k, 'v) kvstore option" where
  "kvstoreCreate bits on_demand free_empty =
    (if bits \<le> 16 then
       (let n = 2 ^ bits in
        Some \<lparr>dicts = replicate n (if on_demand then None else Some dictCreate), num_dicts = int n, num_dicts_bits = bits,
          non_empty_dicts = 0, key_count = 0, dict_size_index = (if n > 1 then replicate (n + 1) 0 else []),
          allocated_dicts = (if on_demand then 0 else int n), free_empty_dicts = free_empty\<rparr>)
     else None)"

definition kvstoreSize :: "('k, 'v) kvstore \<Rightarrow> nat option" where
  "kvstoreSize kvs =
    (if num_dicts kvs \<noteq> 1 then Some (key_count kvs)
     else do { d \<leftarrow> kvstoreGetDict kvs 0; Some (case d of Some d \<Rightarrow> dictSize d | None \<Rightarrow> 0) })"

definition lowbit :: "int \<Rightarrow> int" where
  "lowbit idx = idx AND (- idx)"

lemma and_double: "(2 * a) AND (2 * b) = 2 * (a AND b :: int)"
  by (simp add: bit_eq_iff bit_double_iff bit_and_iff) auto

lemma lowbit_double: "lowbit (2 * a) = 2 * lowbit a"
  using and_double [of a "- a"] by (simp add: lowbit_def)

lemma lowbit_odd: "lowbit (2 * m + 1) = 1"
proof -
  have "- (2 * m + 1) = 1 + 2 * (NOT m)" by (simp add: not_int_def)
  then have "lowbit (2 * m + 1) = (1 + 2 * m) AND (1 + 2 * (NOT m))" by (simp add: lowbit_def add.commute)
  also have "\<dots> = 1 + 2 * (m AND NOT m)" by (subst and_int_rec) simp
  finally show ?thesis by simp
qed

lemma lowbit_pow: "lowbit (2 ^ k * (2 * m + 1)) = 2 ^ k"
proof (induction k)
  case (Suc k)
  then show ?case using lowbit_double [of "2 ^ k * (2 * m + 1)"] by (simp only: power_Suc mult.assoc)
qed (simp add: lowbit_odd)

lemma odd_part: "0 < i \<Longrightarrow> \<exists>k m. i = 2 ^ k * (2 * m + 1) \<and> 0 \<le> (m :: int)"
proof (induction "nat i" arbitrary: i rule: less_induct)
  case less
  show ?case
  proof (cases "even i")
    case True
    then obtain j where j: "i = 2 * j" by auto
    then obtain k m where "j = 2 ^ k * (2 * m + 1)" "0 \<le> m" using less by (metis mult_2 nat_mono_iff zero_less_mult_pos zero_less_numeral less_add_same_cancel1)
    then have "i = 2 ^ Suc k * (2 * m + 1)" using j by simp
    then show ?thesis using \<open>0 \<le> m\<close> by blast
  next
    case False
    then obtain m where "i = 2 * m + 1" by (elim oddE)
    then show ?thesis using less.prems by (intro exI [of _ 0] exI [of _ m]) simp
  qed
qed

lemma lowbit_bounds: "0 < idx \<Longrightarrow> 0 < lowbit idx \<and> lowbit idx \<le> idx"
proof -
  assume "0 < idx"
  then obtain k m where i: "idx = 2 ^ k * (2 * m + 1)" "0 \<le> (m :: int)" using odd_part by blast
  then have "2 ^ k * 1 \<le> idx" unfolding i(1) by (intro mult_left_mono) auto
  moreover have "lowbit idx = 2 ^ k" unfolding i(1) by (rule lowbit_pow)
  ultimately show ?thesis by simp
qed

function cumulativeRead_loop :: "nat list \<Rightarrow> int \<Rightarrow> nat \<Rightarrow> nat option" where
  "cumulativeRead_loop t idx acc =
    (if idx > 0 then
       (case at t idx of None \<Rightarrow> None | Some v \<Rightarrow> cumulativeRead_loop t (idx - lowbit idx) (acc + v))
     else Some acc)"
  by pat_completeness auto

termination
  by (relation "measure (\<lambda>(t, idx, acc). nat idx)") (use lowbit_bounds in fastforce)+

definition cumulativeKeyCountRead :: "('k, 'v) kvstore \<Rightarrow> int \<Rightarrow> nat option" where
  "cumulativeKeyCountRead kvs didx =
    (if num_dicts kvs = 1 then (if didx = 0 then kvstoreSize kvs else None)
     else cumulativeRead_loop (dict_size_index kvs) (didx + 1) 0)"

text \<open>From position 0 the loop would not end.\<close>

function cumulativeAdd_loop :: "nat list \<Rightarrow> int \<Rightarrow> int \<Rightarrow> int \<Rightarrow> nat list option" where
  "cumulativeAdd_loop t n idx delta =
    (if idx \<le> n then
       (case (if idx \<le> 0 then None else at t idx) of
          None \<Rightarrow> None
        | Some v \<Rightarrow>
            (if delta < 0 \<and> int v < - delta then None
             else cumulativeAdd_loop (t[nat idx := nat (int v + delta)]) n (idx + lowbit idx) delta))
     else Some t)"
  by pat_completeness auto

termination
  by (relation "measure (\<lambda>(t, n, idx, delta). nat (n + 1 - idx))") (use lowbit_bounds in \<open>fastforce split: if_splits\<close>)+

declare cumulativeRead_loop.simps [simp del] cumulativeAdd_loop.simps [simp del]

definition cumulativeKeyCountAdd :: "('k, 'v) kvstore \<Rightarrow> int \<Rightarrow> int \<Rightarrow> ('k, 'v) kvstore option" where
  "cumulativeKeyCountAdd kvs didx delta = do {
     let kvs = kvs\<lparr>key_count := nat (int (key_count kvs) + delta)\<rparr>;
     d \<leftarrow> kvstoreGetDict kvs didx;
     d \<leftarrow> d;
     let dsize = dictSize d;
     let non_empty_dicts_delta = (if dsize = 1 \<and> delta > 0 then 1 else if dsize = 0 then - 1 else 0);
     let kvs = kvs\<lparr>non_empty_dicts := non_empty_dicts kvs + non_empty_dicts_delta\<rparr>;
     (if num_dicts kvs = 1 then Some kvs
      else do {
        t \<leftarrow> cumulativeAdd_loop (dict_size_index kvs) (num_dicts kvs) (didx + 1) delta;
        Some (kvs\<lparr>dict_size_index := t\<rparr>)
      })
   }"

definition set_dict :: "('k, 'v) kvstore \<Rightarrow> int \<Rightarrow> ('k, 'v) dict option \<Rightarrow> ('k, 'v) kvstore" where
  "set_dict kvs didx d = kvs\<lparr>dicts := (dicts kvs)[nat didx := d]\<rparr>"

definition createDictIfNeeded :: "('k, 'v) kvstore \<Rightarrow> int \<Rightarrow> (('k, 'v) kvstore \<times> ('k, 'v) dict) option" where
  "createDictIfNeeded kvs didx =
    do {
      d \<leftarrow> kvstoreGetDict kvs didx;
      case d of
        Some d \<Rightarrow> Some (kvs, d)
      | None \<Rightarrow> Some ((set_dict kvs didx (Some dictCreate))\<lparr>allocated_dicts := allocated_dicts kvs + 1\<rparr>, dictCreate)
    }"

definition kvstoreDictSize :: "('k, 'v) kvstore \<Rightarrow> int \<Rightarrow> nat option" where
  "kvstoreDictSize kvs didx = do { d \<leftarrow> kvstoreGetDict kvs didx; Some (case d of None \<Rightarrow> 0 | Some d \<Rightarrow> dictSize d) }"

definition kvstoreDictIsRehashingPaused :: "('k, 'v) kvstore \<Rightarrow> int \<Rightarrow> bool option" where
  "kvstoreDictIsRehashingPaused kvs didx = do { d \<leftarrow> kvstoreGetDict kvs didx; Some (case d of None \<Rightarrow> False | Some d \<Rightarrow> pauserehash d > 0) }"

definition freeDictIfNeeded :: "('k, 'v) kvstore \<Rightarrow> int \<Rightarrow> ('k, 'v) kvstore option" where
  "freeDictIfNeeded kvs didx =
    (if \<not> free_empty_dicts kvs then Some kvs
     else do {
       d \<leftarrow> kvstoreGetDict kvs didx;
       n \<leftarrow> kvstoreDictSize kvs didx;
       paused \<leftarrow> kvstoreDictIsRehashingPaused kvs didx;
       if d = None \<or> n \<noteq> 0 \<or> paused then Some kvs
       else Some ((set_dict kvs didx None)\<lparr>allocated_dicts := allocated_dicts kvs - 1\<rparr>)
     })"

fun findDictIndex_loop :: "nat list \<Rightarrow> nat \<Rightarrow> int \<Rightarrow> nat \<Rightarrow> int option" where
  "findDictIndex_loop t i result target =
    (if i \<noteq> 0 then
       (let current = result + int i in
        case at t current of
          None \<Rightarrow> None
        | Some v \<Rightarrow>
            (if target > v then findDictIndex_loop t (i div 2) current (target - v)
             else findDictIndex_loop t (i div 2) result target))
     else Some result)"

declare findDictIndex_loop.simps [simp del]

definition kvstoreFindDictIndexByKeyIndex :: "('k, 'v) kvstore \<Rightarrow> nat \<Rightarrow> int option" where
  "kvstoreFindDictIndexByKeyIndex kvs target = do {
     size \<leftarrow> kvstoreSize kvs;
     (if num_dicts kvs = 1 \<or> size = 0 then Some 0
      else if target \<le> size then findDictIndex_loop (dict_size_index kvs) (2 ^ num_dicts_bits kvs) 0 target
      else None)
   }"

definition kvstoreGetFairRandomDictIndex :: "nat \<Rightarrow> ('k, 'v) kvstore \<Rightarrow> int option" where
  "kvstoreGetFairRandomDictIndex randomULong kvs = do {
     size \<leftarrow> kvstoreSize kvs;
     let target = (if size \<noteq> 0 then randomULong mod size + 1 else 0);
     kvstoreFindDictIndexByKeyIndex kvs target
   }"

definition kvstoreGetFirstNonEmptyDictIndex :: "('k, 'v) kvstore \<Rightarrow> int option" where
  "kvstoreGetFirstNonEmptyDictIndex kvs = kvstoreFindDictIndexByKeyIndex kvs 1"

definition kvstoreGetNextNonEmptyDictIndex :: "('k, 'v) kvstore \<Rightarrow> int \<Rightarrow> int option" where
  "kvstoreGetNextNonEmptyDictIndex kvs didx =
    (if num_dicts kvs = 1 then (if didx = 0 then Some (- 1) else None)
     else do {
       next_key \<leftarrow> map_option Suc (cumulativeKeyCountRead kvs didx);
       size \<leftarrow> kvstoreSize kvs;
       (if next_key \<le> size then kvstoreFindDictIndexByKeyIndex kvs next_key else Some (- 1))
     })"

text \<open>
  The iterator over the dictionaries. Its \<^verbatim>\<open>dictIterator\<close> field is only started by \<^verbatim>\<open>kvstoreIteratorNext\<close>; for an iterator that is moved with
  \<^verbatim>\<open>kvstoreIteratorNextDict\<close> alone, \<^verbatim>\<open>dictResetIterator\<close> does nothing.
\<close>

record kvstoreIterator =
  it_didx :: int
  it_next_didx :: int

definition kvstoreIteratorInit :: "('k, 'v) kvstore \<Rightarrow> kvstoreIterator option" where
  "kvstoreIteratorInit kvs = do {
     first \<leftarrow> kvstoreGetFirstNonEmptyDictIndex kvs;
     Some \<lparr>it_didx = - 1, it_next_didx = first\<rparr>
   }"

definition kvstoreIteratorRelease :: "('k, 'v) kvstore \<Rightarrow> kvstoreIterator \<Rightarrow> ('k, 'v) kvstore option" where
  "kvstoreIteratorRelease kvs kvs_it = freeDictIfNeeded kvs (it_didx kvs_it)"

definition kvstoreIteratorNextDict ::
    "('k, 'v) kvstore \<Rightarrow> kvstoreIterator \<Rightarrow> (('k, 'v) kvstore \<times> kvstoreIterator \<times> ('k, 'v) dict option) option" where
  "kvstoreIteratorNextDict kvs kvs_it =
    (if it_next_didx kvs_it = - 1 then Some (kvs, kvs_it, None)
     else do {
       kvs \<leftarrow>
         (if it_didx kvs_it \<noteq> - 1 then do {
            d \<leftarrow> kvstoreGetDict kvs (it_didx kvs_it);
            if d \<noteq> None then freeDictIfNeeded kvs (it_didx kvs_it) else Some kvs
          }
          else Some kvs);
       let didx = it_next_didx kvs_it;
       next_didx \<leftarrow> kvstoreGetNextNonEmptyDictIndex kvs didx;
       d \<leftarrow> kvstoreGetDict kvs didx;
       Some (kvs, \<lparr>it_didx = didx, it_next_didx = next_didx\<rparr>, d)
     })"

text \<open>
  A whole traversal: \<^verbatim>\<open>kvstoreIteratorNextDict\<close> until it returns NULL, as in \<^verbatim>\<open>kvstoreGetStats\<close>, and the release of the iterator. The
  result has the indices \<^verbatim>\<open>kvstoreIteratorGetCurrentDictIndex\<close> gives on the way.
\<close>

partial_function (option) iterator_loop ::
    "('k, 'v) kvstore \<Rightarrow> kvstoreIterator \<Rightarrow> (('k, 'v) kvstore \<times> kvstoreIterator \<times> int list) option" where
  "iterator_loop kvs kvs_it = do {
     (kvs, kvs_it, d) \<leftarrow> kvstoreIteratorNextDict kvs kvs_it;
     (if d = None then Some (kvs, kvs_it, [])
      else do {
        (kvs', kvs_it', rest) \<leftarrow> iterator_loop kvs kvs_it;
        Some (kvs', kvs_it', it_didx kvs_it # rest)
      })
   }"

definition iterator_visits :: "('k, 'v) kvstore \<Rightarrow> (('k, 'v) kvstore \<times> int list) option" where
  "iterator_visits kvs = do {
     kvs_it \<leftarrow> kvstoreIteratorInit kvs;
     (kvs, kvs_it, visited) \<leftarrow> iterator_loop kvs kvs_it;
     kvs \<leftarrow> kvstoreIteratorRelease kvs kvs_it;
     Some (kvs, visited)
   }"

definition addDictIndexToCursor :: "('k, 'v) kvstore \<Rightarrow> int \<Rightarrow> 64 word \<Rightarrow> 64 word" where
  "addDictIndexToCursor kvs didx cursor =
    (if num_dicts kvs = 1 then cursor
     else if didx < 0 then cursor
     else push_bit (num_dicts_bits kvs) cursor OR word_of_int didx)"

definition getAndClearDictIndexFromCursor :: "('k, 'v) kvstore \<Rightarrow> 64 word \<Rightarrow> int \<times> 64 word" where
  "getAndClearDictIndexFromCursor kvs cursor =
    (if num_dicts kvs = 1 then (0, cursor)
     else (uint (cursor AND word_of_int (num_dicts kvs - 1)), drop_bit (num_dicts_bits kvs) cursor))"

section \<open>The binary indexed tree\<close>

lemma int_obtain: "0 < i \<Longrightarrow> (\<And>k m. i = 2 ^ k * (2 * m + 1) \<Longrightarrow> 0 \<le> m \<Longrightarrow> lowbit i = 2 ^ k \<Longrightarrow> P) \<Longrightarrow> P"
  using odd_part [of i] lowbit_pow by blast

text \<open>Between a position and the next one of its update path no node covers what lies before it.\<close>

lemma lowbit_between:
  assumes "0 < idx" "idx < i" "i < idx + lowbit idx"
  shows "idx \<le> i - lowbit i"
proof -
  obtain k m where k: "idx = 2 ^ k * (2 * m + 1)" "lowbit idx = 2 ^ k" using assms(1) by (rule int_obtain)
  define r where "r = i - idx"
  have r: "0 < r" "r < 2 ^ k" "i = idx + r" using assms k by (auto simp: r_def)
  obtain j p where j: "r = 2 ^ j * (2 * p + 1)" "0 \<le> p" "lowbit r = 2 ^ j" using r(1) by (rule int_obtain)
  have "2 ^ j \<le> r" using lowbit_bounds [OF r(1)] j(3) by simp
  then have "(2 :: int) ^ j < 2 ^ k" using r(2) by linarith
  then have "j < k" by simp
  then obtain q where q: "k = Suc (j + q)" by (metis add_Suc_right less_imp_Suc_add)
  have "i = 2 ^ j * (2 * (2 ^ q * (2 * m + 1) + p) + 1)"
    unfolding r(3) k(1) j(1) q by (simp add: power_add algebra_simps)
  then have "lowbit i = 2 ^ j" by (simp only: lowbit_pow)
  then show ?thesis using \<open>2 ^ j \<le> r\<close> r(3) by simp
qed

lemma lowbit_next:
  assumes "0 < idx"
  shows "(idx + lowbit idx) - lowbit (idx + lowbit idx) \<le> idx - lowbit idx"
proof -
  obtain k m where k: "idx = 2 ^ k * (2 * m + 1)" "0 \<le> m" "lowbit idx = 2 ^ k" using assms by (rule int_obtain)
  have "0 < m + 1" using k(2) by simp
  then obtain j p where j: "m + 1 = 2 ^ j * (2 * p + 1)" "0 \<le> p" by (rule int_obtain)
  have "idx + lowbit idx = 2 ^ k * (2 * m + 1) + 2 ^ k" using k(1,3) by linarith
  also have "\<dots> = 2 ^ k * 2 * (m + 1)" by (simp add: algebra_simps)
  also have "\<dots> = 2 ^ (k + 1 + j) * (2 * p + 1)" unfolding j(1) by (simp add: power_add algebra_simps)
  finally have i: "idx + lowbit idx = 2 ^ (k + 1 + j) * (2 * p + 1)" .
  then have "lowbit (idx + lowbit idx) = 2 ^ (k + 1 + j)" by (simp only: lowbit_pow)
  moreover have "(2 :: int) ^ (k + 1) \<le> 2 ^ (k + 1 + j)" by (rule power_increasing) auto
  ultimately show ?thesis using k(3) by simp
qed

text \<open>
  \<open>tree t n f\<close>: position \<open>i\<close> of the tree holds the number of keys of the dictionaries \<open>i - lowbit i\<close> to \<open>i - 1\<close>.
\<close>

definition range_sum :: "(nat \<Rightarrow> nat) \<Rightarrow> int \<Rightarrow> int \<Rightarrow> nat" where
  "range_sum f a b = sum f {nat a..<nat b}"

definition tree :: "nat list \<Rightarrow> int \<Rightarrow> (nat \<Rightarrow> nat) \<Rightarrow> bool" where
  "tree t n f \<longleftrightarrow> int (length t) = n + 1 \<and> (\<forall>i. 0 < i \<and> i \<le> n \<longrightarrow> t ! nat i = range_sum f (i - lowbit i) i)"

lemma range_sum_split: "0 \<le> a \<Longrightarrow> a \<le> b \<Longrightarrow> b \<le> c \<Longrightarrow> range_sum f a b + range_sum f b c = range_sum f a c"
  unfolding range_sum_def by (simp add: sum.atLeastLessThan_concat)

lemma tree_read:
  "tree t n f \<Longrightarrow> 0 \<le> idx \<Longrightarrow> idx \<le> n \<Longrightarrow> cumulativeRead_loop t idx acc = Some (acc + range_sum f 0 idx)"
proof (induction t idx acc rule: cumulativeRead_loop.induct)
  case (1 t idx acc)
  show ?case
  proof (cases "0 < idx")
    case True
    have b: "0 < lowbit idx" "lowbit idx \<le> idx" using lowbit_bounds [OF True] by auto
    have v: "at t idx = Some (range_sum f (idx - lowbit idx) idx)"
      using 1(2,4) True by (auto simp: tree_def at_def)
    have "cumulativeRead_loop t (idx - lowbit idx) (acc + range_sum f (idx - lowbit idx) idx) =
      Some (acc + range_sum f (idx - lowbit idx) idx + range_sum f 0 (idx - lowbit idx))"
      using 1(1) [OF True v 1(2)] b 1(4) by simp
    then show ?thesis using True v range_sum_split [of 0 "idx - lowbit idx" idx f] b
      by (subst cumulativeRead_loop.simps) simp
  next
    case False
    then have "idx = 0" using 1(3) by simp
    then show ?thesis by (subst cumulativeRead_loop.simps) (simp add: range_sum_def)
  qed
qed

text \<open>The state of the tree in the middle of an update of dictionary \<open>d\<close>: the positions below \<open>idx\<close> are done.\<close>

definition tree_mid :: "nat list \<Rightarrow> int \<Rightarrow> (nat \<Rightarrow> nat) \<Rightarrow> (nat \<Rightarrow> nat) \<Rightarrow> int \<Rightarrow> bool" where
  "tree_mid t n f g idx \<longleftrightarrow> int (length t) = n + 1 \<and>
     (\<forall>i. 0 < i \<and> i < idx \<and> i \<le> n \<longrightarrow> t ! nat i = range_sum g (i - lowbit i) i) \<and>
     (\<forall>i. idx \<le> i \<and> i \<le> n \<longrightarrow> t ! nat i = range_sum f (i - lowbit i) i)"

lemma range_sum_upd:
  assumes "0 \<le> d" "0 \<le> a" "int (f (nat d)) + delta \<ge> 0"
  shows "int (range_sum (f(nat d := nat (int (f (nat d)) + delta))) a b) =
    int (range_sum f a b) + (if a \<le> d \<and> d < b then delta else 0)"
proof (cases "a \<le> d \<and> d < b")
  case True
  then have m: "nat d \<in> {nat a..<nat b}" using assms by auto
  have "int (range_sum (f(nat d := nat (int (f (nat d)) + delta))) a b) =
    (int (f (nat d)) + delta) + int (sum f ({nat a..<nat b} - {nat d}))"
    unfolding range_sum_def using m assms(3) by (subst sum.remove [of _ "nat d"]) auto
  moreover have "int (range_sum f a b) = int (f (nat d)) + int (sum f ({nat a..<nat b} - {nat d}))"
    unfolding range_sum_def using m by (subst sum.remove [of _ "nat d"]) auto
  ultimately show ?thesis using True by simp
next
  case False
  then have "nat d \<notin> {nat a..<nat b}" using assms by auto
  then have "range_sum (f(nat d := nat (int (f (nat d)) + delta))) a b = range_sum f a b"
    unfolding range_sum_def by (intro sum.cong) auto
  then show ?thesis using False by auto
qed

lemma tree_mid_step:
  assumes "tree_mid t n f g idx" "0 < idx" "idx \<le> n" "\<forall>i. idx \<le> i - lowbit i \<longrightarrow> range_sum g (i - lowbit i) i = range_sum f (i - lowbit i) i"
  shows "tree_mid (t[nat idx := range_sum g (idx - lowbit idx) idx]) n f g (idx + lowbit idx)"
proof -
  let ?t = "t[nat idx := range_sum g (idx - lowbit idx) idx]"
  have len: "int (length t) = n + 1" using assms(1) by (simp add: tree_mid_def)
  have lo: "0 < lowbit idx" using lowbit_bounds [OF assms(2)] by simp
  have upd: "?t ! nat i = (if i = idx then range_sum g (idx - lowbit idx) idx else t ! nat i)" if "0 < i" "i \<le> n" for i
    using that assms(2,3) len by (auto simp: nth_list_update nat_eq_iff)
  have "?t ! nat i = range_sum g (i - lowbit i) i" if i: "0 < i" "i < idx + lowbit idx" "i \<le> n" for i
  proof (cases "i \<le> idx")
    case True
    then show ?thesis using upd [OF i(1,3)] assms(1) i by (auto simp: tree_mid_def)
  next
    case False
    then have "t ! nat i = range_sum f (i - lowbit i) i" using assms(1) i by (auto simp: tree_mid_def)
    moreover have "idx \<le> i - lowbit i" using lowbit_between [OF assms(2), of i] False i by simp
    ultimately show ?thesis using upd [OF i(1,3)] False assms(4) by simp
  qed
  moreover have "?t ! nat i = range_sum f (i - lowbit i) i" if "idx + lowbit idx \<le> i" "i \<le> n" for i
    using that upd [of i] lo assms(1,2) by (auto simp: tree_mid_def)
  ultimately show ?thesis using len by (simp add: tree_mid_def)
qed

lemma tree_add_loop:
  assumes "0 \<le> d" "int (f (nat d)) + delta \<ge> 0" "g = f(nat d := nat (int (f (nat d)) + delta))"
  shows "tree_mid t n f g idx \<Longrightarrow> 0 < idx \<Longrightarrow> idx - lowbit idx \<le> d \<Longrightarrow> d < idx \<Longrightarrow>
    \<exists>t'. cumulativeAdd_loop t n idx delta = Some t' \<and> tree t' n g"
proof (induction "nat (n + 1 - idx)" arbitrary: t idx rule: less_induct)
  case less
  note p = less.prems
  show ?case
  proof (cases "idx \<le> n")
    case True
    have b: "0 < lowbit idx" "lowbit idx \<le> idx" using lowbit_bounds [OF p(2)] by auto
    have v: "at t idx = Some (range_sum f (idx - lowbit idx) idx)"
      using p(1,2) True by (auto simp: tree_mid_def at_def)
    have up: "int (range_sum g a e) = int (range_sum f a e) + (if a \<le> d \<and> d < e then delta else 0)" if "0 \<le> a" for a e
      unfolding assms(3) using range_sum_upd [of d a f delta e] assms(1,2) that by blast
    have g: "int (range_sum g (idx - lowbit idx) idx) = int (range_sum f (idx - lowbit idx) idx) + delta"
      using up [of "idx - lowbit idx" idx] b p by simp
    have same: "\<forall>i. idx \<le> i - lowbit i \<longrightarrow> range_sum g (i - lowbit i) i = range_sum f (i - lowbit i) i"
    proof (intro allI impI)
      fix i assume "idx \<le> i - lowbit i"
      then have "int (range_sum g (i - lowbit i) i) = int (range_sum f (i - lowbit i) i)" using up [of "i - lowbit i" i] p by simp
      then show "range_sum g (i - lowbit i) i = range_sum f (i - lowbit i) i" by (simp only: of_nat_eq_iff)
    qed
    let ?t = "t[nat idx := range_sum g (idx - lowbit idx) idx]"
    have "\<exists>t'. cumulativeAdd_loop ?t n (idx + lowbit idx) delta = Some t' \<and> tree t' n g"
    proof (rule less.hyps)
      show "nat (n + 1 - (idx + lowbit idx)) < nat (n + 1 - idx)" using b True by simp
      show "tree_mid ?t n f g (idx + lowbit idx)" by (rule tree_mid_step [OF p(1,2) True same])
      show "idx + lowbit idx - lowbit (idx + lowbit idx) \<le> d" using lowbit_next [OF p(2)] p(3) by linarith
    qed (use p b in auto)
    moreover have "nat (int (range_sum f (idx - lowbit idx) idx) + delta) = range_sum g (idx - lowbit idx) idx"
      using g by simp
    moreover have "\<not> (delta < 0 \<and> int (range_sum f (idx - lowbit idx) idx) < - delta)" using g by linarith
    ultimately show ?thesis using True p(2) v by (subst cumulativeAdd_loop.simps) simp
  next
    case False
    then have "tree t n g" using p(1) by (auto simp: tree_mid_def tree_def)
    then show ?thesis using False by (subst cumulativeAdd_loop.simps) simp
  qed
qed

lemma tree_add:
  assumes "tree t n f" "0 \<le> d" "int (f (nat d)) + delta \<ge> 0"
  shows "\<exists>t'. cumulativeAdd_loop t n (d + 1) delta = Some t' \<and> tree t' n (f(nat d := nat (int (f (nat d)) + delta)))"
proof (rule tree_add_loop [of d f delta])
  let ?g = "f(nat d := nat (int (f (nat d)) + delta))"
  have "range_sum ?g (i - lowbit i) i = range_sum f (i - lowbit i) i" if "0 < i" "i < d + 1" for i
    using range_sum_upd [of d "i - lowbit i" f delta i] assms(2,3) lowbit_bounds [OF that(1)] that by simp
  then show "tree_mid t n f ?g (d + 1)" using assms(1,2) by (auto simp: tree_mid_def tree_def)
  show "d + 1 - lowbit (d + 1) \<le> d" using lowbit_bounds [of "d + 1"] assms(2) by simp
qed (use assms(2,3) in auto)

lemma find_loop:
  assumes "tree t n f"
  shows "0 \<le> result \<Longrightarrow> 2 ^ k dvd result \<Longrightarrow> result + 2 ^ k \<le> n \<Longrightarrow> 0 < target \<Longrightarrow>
    target \<le> range_sum f result (result + 2 ^ k) \<Longrightarrow>
    \<exists>r. findDictIndex_loop t (2 ^ k div 2) result target = Some r \<and> result \<le> r \<and> r < result + 2 ^ k \<and>
      range_sum f result r < target \<and> target \<le> range_sum f result (r + 1)"
proof (induction k arbitrary: result target)
  case 0
  then show ?case by (subst findDictIndex_loop.simps) (simp add: range_sum_def)
next
  case (Suc k)
  define c where "c = result + 2 ^ k"
  obtain q where q: "result = 2 ^ k * (2 * q)" using Suc.prems(2) by (auto simp: dvd_def)
  have "c = 2 ^ k * (2 * q + 1)" by (simp add: c_def q algebra_simps)
  then have lb: "c - lowbit c = result" by (simp only: lowbit_pow) (simp add: q algebra_simps)
  have c: "0 < c" "c \<le> n" "c + 2 ^ k = result + 2 ^ Suc k" "result \<le> c" 
  proof -
    have "(0 :: int) < 2 ^ k" "(2 :: int) ^ Suc k = 2 ^ k + 2 ^ k" by simp_all
    then show "0 < c" "c \<le> n" "c + 2 ^ k = result + 2 ^ Suc k" "result \<le> c"
      using Suc.prems(1,3) unfolding c_def by linarith+
  qed
  have v: "at t c = Some (range_sum f result c)" using assms c lb by (auto simp: tree_def at_def)
  have split: "range_sum f result c + range_sum f c e = range_sum f result e" if "c \<le> e" for e
    using range_sum_split [OF Suc.prems(1) c(4) that] .
  have "c \<le> c + 2 ^ k" by simp
  from split [OF this] have whole: "range_sum f result c + range_sum f c (result + 2 ^ Suc k) =
    range_sum f result (result + 2 ^ Suc k)" unfolding c(3) .
  have step: "findDictIndex_loop t (2 ^ Suc k div 2) result target =
    (if target > range_sum f result c then findDictIndex_loop t (2 ^ k div 2) c (target - range_sum f result c)
     else findDictIndex_loop t (2 ^ k div 2) result target)"
    using v by (subst findDictIndex_loop.simps) (simp add: c_def Let_def)
  have dv: "2 ^ k dvd result" "2 ^ k dvd c" by (simp_all add: c_def q)
  show ?case
  proof (cases "target > range_sum f result c")
    case True
    have "\<exists>r. findDictIndex_loop t (2 ^ k div 2) c (target - range_sum f result c) = Some r \<and> c \<le> r \<and> r < c + 2 ^ k \<and>
      range_sum f c r < target - range_sum f result c \<and> target - range_sum f result c \<le> range_sum f c (r + 1)"
    proof (rule Suc.IH)
      show "target - range_sum f result c \<le> range_sum f c (c + 2 ^ k)"
        using whole Suc.prems(5) unfolding c(3) by linarith
      show "c + 2 ^ k \<le> n" using Suc.prems(3) c(3) by simp
    qed (use True c dv in auto)
    then obtain r where r: "findDictIndex_loop t (2 ^ k div 2) c (target - range_sum f result c) = Some r" "c \<le> r"
      "r < c + 2 ^ k" "range_sum f c r < target - range_sum f result c" "target - range_sum f result c \<le> range_sum f c (r + 1)"
      by blast
    then show ?thesis using step True split [of r] split [of "r + 1"] c(3,4) by (intro exI [of _ r]) auto
  next
    case False
    have "\<exists>r. findDictIndex_loop t (2 ^ k div 2) result target = Some r \<and> result \<le> r \<and> r < result + 2 ^ k \<and>
      range_sum f result r < target \<and> target \<le> range_sum f result (r + 1)"
    proof (rule Suc.IH)
      show "target \<le> range_sum f result (result + 2 ^ k)" using False by (simp add: c_def)
      show "result + 2 ^ k \<le> n" using c(2) by (simp add: c_def)
    qed (use Suc.prems dv in auto)
    then show ?thesis using step False c by (auto simp: c_def)
  qed
qed

section \<open>Properties\<close>

definition sizes :: "('k, 'v) kvstore \<Rightarrow> nat \<Rightarrow> nat" where
  "sizes kvs j = (if j < length (dicts kvs) then (case dicts kvs ! j of Some d \<Rightarrow> dictSize d | None \<Rightarrow> 0) else 0)"

text \<open>
  A store whose counters describe its dictionaries. The tree of sizes only exists when there is more than one dictionary.
\<close>

definition kvs_wf :: "('k, 'v) kvstore \<Rightarrow> bool" where
  "kvs_wf kvs \<longleftrightarrow> num_dicts_bits kvs \<le> 16 \<and> num_dicts kvs = 2 ^ num_dicts_bits kvs \<and> length (dicts kvs) = 2 ^ num_dicts_bits kvs \<and>
     (if num_dicts kvs = 1 then dict_size_index kvs = [] else tree (dict_size_index kvs) (num_dicts kvs) (sizes kvs)) \<and>
     key_count kvs = range_sum (sizes kvs) 0 (num_dicts kvs) \<and>
     non_empty_dicts kvs = int (card {j. j < length (dicts kvs) \<and> 0 < sizes kvs j})"

lemma wf_tree: "kvs_wf kvs \<Longrightarrow> num_dicts kvs \<noteq> 1 \<Longrightarrow> tree (dict_size_index kvs) (num_dicts kvs) (sizes kvs)"
  by (auto simp: kvs_wf_def)

lemma wf_length: "kvs_wf kvs \<Longrightarrow> int (length (dicts kvs)) = num_dicts kvs \<and> 0 < num_dicts kvs"
  by (auto simp: kvs_wf_def)

lemma wf_count: "kvs_wf kvs \<Longrightarrow> key_count kvs = range_sum (sizes kvs) 0 (num_dicts kvs)"
  by (simp add: kvs_wf_def)

lemma range_one: "range_sum f 0 1 = f 0" "range_sum f 0 0 = 0"
  by (simp_all add: range_sum_def)

lemma wf_size:
  assumes "kvs_wf kvs"
  shows "kvstoreSize kvs = Some (range_sum (sizes kvs) 0 (num_dicts kvs))"
proof (cases "num_dicts kvs = 1")
  case True
  then have "length (dicts kvs) = 1" using wf_length [OF assms] by simp
  then show ?thesis using True by (simp add: kvstoreSize_def kvstoreGetDict_def at_def range_one sizes_def split: option.split)
qed (use wf_count [OF assms] in \<open>simp add: kvstoreSize_def\<close>)

lemma create_wf:
  assumes "kvstoreCreate bits on_demand free_empty = Some kvs"
  shows "kvs_wf kvs"
proof -
  have k: "bits \<le> 16" "length (dicts kvs) = 2 ^ bits" "num_dicts kvs = 2 ^ bits" "num_dicts_bits kvs = bits" "non_empty_dicts kvs = 0"
    "key_count kvs = 0" "dicts kvs = replicate (2 ^ bits) (if on_demand then None else Some dictCreate)"
    "dict_size_index kvs = (if bits = 0 then [] else replicate (2 ^ bits + 1) 0)"
    using assms one_less_power [of "2 :: nat" bits] by (auto simp: kvstoreCreate_def Let_def split: if_splits)
  have s: "sizes kvs = (\<lambda>_. 0)" by (auto simp: sizes_def k(7) fun_eq_iff dictSize_def dictCreate_def reset_htab_def)
  have "tree (dict_size_index kvs) (num_dicts kvs) (sizes kvs)" if "bits \<noteq> 0"
    unfolding tree_def s k(3,8) using that by (auto simp: range_sum_def nth_append nat_le_iff nat_less_iff nth_replicate simp del: replicate_Suc)
  moreover have "num_dicts kvs = 1 \<longleftrightarrow> bits = 0" using one_less_power [of "2 :: int" bits] k(3) by (metis less_irrefl neq0_conv one_less_numeral_iff power_0 semiring_norm(76))
  ultimately show ?thesis using k(1-6,8) by (cases "bits = 0") (auto simp: kvs_wf_def s range_sum_def)
qed

lemma count_add_wf:
  assumes "kvs_wf kvs" "0 \<le> didx" "didx < num_dicts kvs" "delta = 1 \<or> delta = - 1"
    "int (dictSize d) = int (sizes kvs (nat didx)) + delta"
  shows "\<exists>kvs'. cumulativeKeyCountAdd (kvs\<lparr>dicts := (dicts kvs)[nat didx := Some d]\<rparr>) didx delta = Some kvs' \<and>
    kvs_wf kvs' \<and> sizes kvs' = (sizes kvs)(nat didx := dictSize d)"
proof -
  let ?g = "(sizes kvs)(nat didx := dictSize d)"
  let ?ds = "(dicts kvs)[nat didx := Some d]"
  have len: "int (length (dicts kvs)) = num_dicts kvs" using assms(1) by (simp add: kvs_wf_def)
  then have lt: "nat didx < length (dicts kvs)" using assms(2,3) by linarith
  have dsz: "dictSize d = nat (int (sizes kvs (nat didx)) + delta)" using assms(5) by simp
  obtain t where t: "(if num_dicts kvs = 1 then Some (dict_size_index kvs)
      else cumulativeAdd_loop (dict_size_index kvs) (num_dicts kvs) (didx + 1) delta) = Some t"
    "if num_dicts kvs = 1 then t = [] else tree t (num_dicts kvs) ?g"
  proof (cases "num_dicts kvs = 1")
    case True
    then show ?thesis using that assms(1) by (simp add: kvs_wf_def)
  next
    case False
    then show ?thesis using that tree_add [OF wf_tree [OF assms(1) False] assms(2), of delta] assms(5) dsz by auto
  qed
  have k: "key_count kvs = range_sum (sizes kvs) 0 (num_dicts kvs)" using assms(1) by (simp add: kvs_wf_def)
  have "0 \<le> int (sizes kvs (nat didx)) + delta" using assms(5) by linarith
  then have "int (key_count kvs) + delta = int (range_sum ?g 0 (num_dicts kvs))"
    unfolding k dsz using range_sum_upd [of didx 0 "sizes kvs" delta "num_dicts kvs"] assms(2,3) by simp
  then have count: "nat (int (key_count kvs) + delta) = range_sum ?g 0 (num_dicts kvs)" by (simp only: nat_int)
  define A B where "A = {j. j < length (dicts kvs) \<and> 0 < sizes kvs j}" and "B = {j. j < length (dicts kvs) \<and> 0 < ?g j}"
  have B: "B = (if 0 < dictSize d then insert (nat didx) A else A - {nat didx})" using lt by (auto simp: A_def B_def)
  have fin: "finite A" by (simp add: A_def)
  have mem: "nat didx \<in> A \<longleftrightarrow> 0 < sizes kvs (nat didx)" using lt by (simp add: A_def)
  have ne: "int (card B) = int (card A) + (if dictSize d = 1 \<and> delta > 0 then 1 else if dictSize d = 0 then - 1 else 0)"
  proof (cases "sizes kvs (nat didx) = 0")
    case True
    then have "delta = 1" "dictSize d = 1" using assms(4,5) by auto
    then show ?thesis using B mem True fin by simp
  next
    case False
    then have "nat didx \<in> A" using mem by simp
    then have "card A = Suc (card (A - {nat didx}))" "insert (nat didx) A = A"
      using fin card.remove [of A "nat didx"] by (simp_all add: insert_absorb)
    moreover have "\<not> (dictSize d = 1 \<and> delta > 0)" using False assms(4,5) by auto
    ultimately show ?thesis unfolding B by simp
  qed
  let ?k = "kvs\<lparr>dicts := ?ds, key_count := nat (int (key_count kvs) + delta), non_empty_dicts := int (card B), dict_size_index := t\<rparr>"
  have old: "non_empty_dicts kvs = int (card A)" using assms(1) by (simp add: kvs_wf_def A_def)
  have "cumulativeKeyCountAdd (kvs\<lparr>dicts := ?ds\<rparr>) didx delta = Some ?k"
    using lt assms(2) t(1) ne old
    by (cases "num_dicts kvs = 1") (simp_all add: cumulativeKeyCountAdd_def kvstoreGetDict_def at_def Let_def)
  moreover have s: "sizes ?k = ?g" using lt by (auto simp: sizes_def fun_eq_iff nth_list_update)
  moreover have "kvs_wf ?k" unfolding kvs_wf_def s using assms(1) t(2) count by (auto simp: kvs_wf_def B_def split: if_splits)
  ultimately show ?thesis by blast
qed

text \<open>
  C11. The binary indexed tree, the key count and the number of dictionaries that are not empty stay right when a key
  is added to or removed from a dictionary and \<^verbatim>\<open>cumulativeKeyCountAdd\<close> is called with \<open>1\<close> or \<open>-1\<close>; its assertion never
  fails and no access leaves the tree.
\<close>

theorem cumulativeKeyCountAdd_wf:
  assumes "kvs_wf kvs" "0 \<le> didx" "didx < num_dicts kvs" "delta = 1 \<or> delta = - 1"
    "int (dictSize d) = int (sizes kvs (nat didx)) + delta"
  shows "\<exists>kvs'. cumulativeKeyCountAdd (kvs\<lparr>dicts := (dicts kvs)[nat didx := Some d]\<rparr>) didx delta = Some kvs' \<and>
    kvs_wf kvs' \<and> sizes kvs' = (sizes kvs)(nat didx := dictSize d)"
  using assms by (rule count_add_wf)

lemma range_sum_mono: "0 \<le> a \<Longrightarrow> a \<le> b \<Longrightarrow> range_sum f 0 a \<le> range_sum f 0 b"
  using range_sum_split [of 0 a b f] by linarith

lemma range_sum_0: "range_sum f 0 a = range_sum f 0 b \<Longrightarrow> 0 \<le> a \<Longrightarrow> a \<le> int j \<Longrightarrow> int j < b \<Longrightarrow> f j = 0"
proof -
  assume "range_sum f 0 a = range_sum f 0 b" "0 \<le> a" "a \<le> int j" "int j < b"
  then have "range_sum f a b = 0" using range_sum_split [of 0 a b f] by linarith
  moreover have "j \<in> {nat a..<nat b}" using \<open>a \<le> int j\<close> \<open>int j < b\<close> by auto
  ultimately show "f j = 0" unfolding range_sum_def by auto
qed

lemma range_sum_Suc: "0 \<le> r \<Longrightarrow> range_sum f 0 (r + 1) = range_sum f 0 r + f (nat r)"
  by (simp add: range_sum_def nat_add_distrib)

lemma wf_find:
  assumes "kvs_wf kvs" "0 < target" "target \<le> range_sum (sizes kvs) 0 (num_dicts kvs)"
  shows "\<exists>r. kvstoreFindDictIndexByKeyIndex kvs target = Some r \<and> 0 \<le> r \<and> r < num_dicts kvs \<and>
    range_sum (sizes kvs) 0 r < target \<and> target \<le> range_sum (sizes kvs) 0 (r + 1)"
proof (cases "num_dicts kvs = 1")
  case True
  then show ?thesis using wf_size [OF assms(1)] assms(2,3) by (simp add: kvstoreFindDictIndexByKeyIndex_def range_one)
next
  case False
  let ?b = "num_dicts_bits kvs" and ?t = "dict_size_index kvs" and ?n = "num_dicts kvs"
  have n: "?n = 2 ^ ?b" and t: "tree ?t ?n (sizes kvs)" using assms(1) wf_tree [OF assms(1) False] by (auto simp: kvs_wf_def)
  have pos: "0 < ?n" unfolding n by simp
  have "lowbit ?n = 2 ^ ?b" using lowbit_pow [of ?b 0] n by simp
  then have v: "at ?t ?n = Some (range_sum (sizes kvs) 0 ?n)" using t pos n by (auto simp: tree_def at_def)
  have "findDictIndex_loop ?t (2 ^ ?b) 0 target = findDictIndex_loop ?t (2 ^ ?b div 2) 0 target"
    using v assms(3) n by (subst findDictIndex_loop.simps) (simp add: Let_def)
  moreover have "\<exists>r. findDictIndex_loop ?t (2 ^ ?b div 2) 0 target = Some r \<and> 0 \<le> r \<and> r < 0 + 2 ^ ?b \<and>
    range_sum (sizes kvs) 0 r < target \<and> target \<le> range_sum (sizes kvs) 0 (r + 1)"
    using find_loop [OF t, of 0 ?b target] assms(2,3) n by simp
  ultimately show ?thesis using wf_size [OF assms(1)] False assms(2,3) n
    by (auto simp: kvstoreFindDictIndexByKeyIndex_def)
qed

text \<open>The next dictionary that is not empty.\<close>

definition next_non_empty :: "('k, 'v) kvstore \<Rightarrow> int \<Rightarrow> int \<Rightarrow> bool" where
  "next_non_empty kvs didx r \<longleftrightarrow>
    (if r = - 1 then \<forall>j. didx < int j \<longrightarrow> sizes kvs j = 0
     else didx < r \<and> r < num_dicts kvs \<and> 0 < sizes kvs (nat r) \<and> (\<forall>j. didx < int j \<and> int j < r \<longrightarrow> sizes kvs j = 0))"

lemma found_next:
  assumes "kvs_wf kvs" "- 1 \<le> didx" "didx < num_dicts kvs"
    "range_sum (sizes kvs) 0 (didx + 1) < range_sum (sizes kvs) 0 (num_dicts kvs)"
  shows "\<exists>r. kvstoreFindDictIndexByKeyIndex kvs (Suc (range_sum (sizes kvs) 0 (didx + 1))) = Some r \<and>
    r \<noteq> - 1 \<and> next_non_empty kvs didx r"
proof -
  let ?P = "range_sum (sizes kvs) 0"
  obtain r where r: "kvstoreFindDictIndexByKeyIndex kvs (Suc (?P (didx + 1))) = Some r" "0 \<le> r" "r < num_dicts kvs"
    "?P r < Suc (?P (didx + 1))" "Suc (?P (didx + 1)) \<le> ?P (r + 1)"
    using wf_find [OF assms(1), of "Suc (?P (didx + 1))"] assms(4) by auto
  have "didx < r" using range_sum_mono [of "r + 1" "didx + 1" "sizes kvs"] r by (cases "didx < r") auto
  then have "?P r = ?P (didx + 1)" using range_sum_mono [of "didx + 1" r "sizes kvs"] r(4) assms(2) by simp
  then have "\<forall>j. didx < int j \<and> int j < r \<longrightarrow> sizes kvs j = 0"
    using range_sum_0 [of "sizes kvs" "didx + 1" r] assms(2) by auto
  moreover have "0 < sizes kvs (nat r)" using range_sum_Suc [OF r(2), of "sizes kvs"] r(4,5) by simp
  ultimately show ?thesis using r(1,2,3) \<open>didx < r\<close> by (auto simp: next_non_empty_def)
qed

lemma sizes_outside: "kvs_wf kvs \<Longrightarrow> num_dicts kvs \<le> int j \<Longrightarrow> sizes kvs j = 0"
  by (simp add: sizes_def kvs_wf_def)

lemma wf_next:
  assumes "kvs_wf kvs" "0 \<le> didx" "didx < num_dicts kvs"
  shows "\<exists>r. kvstoreGetNextNonEmptyDictIndex kvs didx = Some r \<and> next_non_empty kvs didx r"
proof (cases "num_dicts kvs = 1")
  case True
  then show ?thesis using assms sizes_outside [OF assms(1)] by (auto simp: kvstoreGetNextNonEmptyDictIndex_def next_non_empty_def)
next
  case several: False
  let ?P = "range_sum (sizes kvs) 0"
  have "cumulativeKeyCountRead kvs didx = Some (?P (didx + 1))"
    using tree_read [OF wf_tree [OF assms(1) several], of "didx + 1" 0] assms(2,3) several by (simp add: cumulativeKeyCountRead_def)
  then have step: "kvstoreGetNextNonEmptyDictIndex kvs didx =
    (if Suc (?P (didx + 1)) \<le> ?P (num_dicts kvs) then kvstoreFindDictIndexByKeyIndex kvs (Suc (?P (didx + 1))) else Some (- 1))"
    using several wf_size [OF assms(1)] by (simp add: kvstoreGetNextNonEmptyDictIndex_def)
  show ?thesis
  proof (cases "?P (didx + 1) < ?P (num_dicts kvs)")
    case True
    then show ?thesis using found_next [OF assms(1) _ assms(3) True] step assms(2) by auto
  next
    case False
    then have "?P (didx + 1) = ?P (num_dicts kvs)"
      using range_sum_mono [of "didx + 1" "num_dicts kvs" "sizes kvs"] assms by simp
    then have "sizes kvs j = 0" if "didx < int j" for j
      using range_sum_0 [of "sizes kvs" "didx + 1" "num_dicts kvs" j] sizes_outside [OF assms(1), of j] that assms(2)
      by fastforce
    then show ?thesis using step False by (simp add: next_non_empty_def)
  qed
qed

lemma store_index:
  "kvs_wf kvs \<Longrightarrow> 0 \<le> didx \<Longrightarrow> didx < num_dicts kvs \<Longrightarrow>
    nat didx < length (dicts kvs) \<and> kvstoreGetDict kvs didx = Some (dicts kvs ! nat didx)"
  by (auto simp: kvs_wf_def kvstoreGetDict_def at_def)

text \<open>Passing or releasing a dictionary that is not empty changes nothing.\<close>

lemma non_empty_dict:
  assumes "kvs_wf kvs" "0 \<le> didx" "didx < num_dicts kvs" "0 < sizes kvs (nat didx)"
  shows "\<exists>d. kvstoreGetDict kvs didx = Some (Some d) \<and> freeDictIfNeeded kvs didx = Some kvs"
proof -
  note i = store_index [OF assms(1-3)]
  obtain d where d: "dicts kvs ! nat didx = Some d" "dictSize d \<noteq> 0"
    using assms(4) i by (auto simp: sizes_def split: option.splits)
  then show ?thesis using i by (simp add: freeDictIfNeeded_def kvstoreDictSize_def kvstoreDictIsRehashingPaused_def)
qed

lemma iterator_end: "iterator_loop kvs \<lparr>it_didx = p, it_next_didx = - 1\<rparr> = Some (kvs, \<lparr>it_didx = p, it_next_didx = - 1\<rparr>, [])"
  by (subst iterator_loop.simps) (simp add: kvstoreIteratorNextDict_def)

lemma iterator_loop_visits:
  "kvs_wf kvs \<Longrightarrow> 0 \<le> didx \<Longrightarrow> didx < num_dicts kvs \<Longrightarrow> 0 < sizes kvs (nat didx) \<Longrightarrow>
    p = - 1 \<or> 0 \<le> p \<and> p < num_dicts kvs \<and> 0 < sizes kvs (nat p) \<Longrightarrow>
    \<exists>e. iterator_loop kvs \<lparr>it_didx = p, it_next_didx = didx\<rparr> =
      Some (kvs, \<lparr>it_didx = e, it_next_didx = - 1\<rparr>, map int (filter (\<lambda>j. 0 < sizes kvs j) [nat didx..<length (dicts kvs)])) \<and>
      0 \<le> e \<and> e < num_dicts kvs \<and> 0 < sizes kvs (nat e)"
proof (induction "nat (num_dicts kvs - didx)" arbitrary: didx p rule: less_induct)
  case less
  note q = less.prems
  let ?N = "length (dicts kvs)" and ?F = "\<lambda>j. 0 < sizes kvs j"
  have len: "int ?N = num_dicts kvs" using wf_length [OF q(1)] by simp
  obtain r where r: "kvstoreGetNextNonEmptyDictIndex kvs didx = Some r" "next_non_empty kvs didx r"
    using wf_next [OF q(1,2,3)] by blast
  have upt: "[nat didx..<?N] = nat didx # [Suc (nat didx)..<?N]" using q(2,3) len by (intro upt_conv_Cons) linarith
  have d: "int (nat didx) = didx" "didx \<noteq> - 1" using q(2) by auto
  obtain c where c: "kvstoreGetDict kvs didx = Some (Some c)" using non_empty_dict [OF q(1-4)] by blast
  have "kvstoreIteratorNextDict kvs \<lparr>it_didx = p, it_next_didx = didx\<rparr> = Some (kvs, \<lparr>it_didx = didx, it_next_didx = r\<rparr>, Some c)"
    using q(5) non_empty_dict [OF q(1), of p] d(2) c r(1) by (auto simp: kvstoreIteratorNextDict_def)
  then have step: "iterator_loop kvs \<lparr>it_didx = p, it_next_didx = didx\<rparr> =
    map_option (\<lambda>(kvs, kvs_it, rest). (kvs, kvs_it, didx # rest)) (iterator_loop kvs \<lparr>it_didx = didx, it_next_didx = r\<rparr>)"
    by (subst iterator_loop.simps) (simp add: map_conv_bind_option comp_def case_prod_unfold)
  show ?case
  proof (cases "r = - 1")
    case True
    then have "filter ?F [Suc (nat didx)..<?N] = []" using r(2) q(2) by (auto simp: next_non_empty_def filter_empty_conv)
    then show ?thesis using True step iterator_end [of kvs didx] d q(2,3,4) upt by simp
  next
    case False
    then have n: "didx < r" "r < num_dicts kvs" "0 < sizes kvs (nat r)" "\<forall>j. didx < int j \<and> int j < r \<longrightarrow> sizes kvs j = 0"
      using r(2) by (auto simp: next_non_empty_def)
    have ih: "\<exists>e. iterator_loop kvs \<lparr>it_didx = didx, it_next_didx = r\<rparr> =
      Some (kvs, \<lparr>it_didx = e, it_next_didx = - 1\<rparr>, map int (filter ?F [nat r..<?N])) \<and> 0 \<le> e \<and> e < num_dicts kvs \<and> 0 < sizes kvs (nat e)"
      using less.hyps [of r didx] n q by auto
    have le: "Suc (nat didx) \<le> nat r" "nat r \<le> ?N" using n q(2) len by linarith+
    have "[Suc (nat didx)..<?N] = [Suc (nat didx)..<nat r] @ [nat r..<?N]"
      using upt_add_eq_append [OF le(1), of "?N - nat r"] le(2) by simp
    moreover have "sizes kvs x = 0" if "Suc (nat didx) \<le> x" "x < nat r" for x
    proof -
      have "didx < int x" "int x < r" using that q(2) by linarith+
      then show ?thesis using n(4) by blast
    qed
    then have "filter ?F [Suc (nat didx)..<nat r] = []" by (auto simp: filter_empty_conv)
    ultimately have "filter ?F [Suc (nat didx)..<?N] = filter ?F [nat r..<?N]" by simp
    then show ?thesis using ih step d q(4) upt by auto
  qed
qed

text \<open>The first dictionary of a store that is not empty.\<close>

lemma first_visit:
  assumes "kvs_wf kvs" "0 < key_count kvs"
  shows "\<exists>r. kvstoreFindDictIndexByKeyIndex kvs 1 = Some r \<and> 0 \<le> r \<and> r < num_dicts kvs \<and> 0 < sizes kvs (nat r) \<and>
    filter (\<lambda>j. 0 < sizes kvs j) [0..<length (dicts kvs)] = filter (\<lambda>j. 0 < sizes kvs j) [nat r..<length (dicts kvs)]"
proof -
  let ?N = "length (dicts kvs)" and ?F = "\<lambda>j. 0 < sizes kvs j"
  have len: "int ?N = num_dicts kvs" "- 1 < num_dicts kvs" using wf_length [OF assms(1)] by auto
  have zero: "range_sum (sizes kvs) 0 (- 1 + 1) = 0" by (simp add: range_sum_def)
  obtain r where r: "kvstoreFindDictIndexByKeyIndex kvs 1 = Some r" "r \<noteq> - 1" "next_non_empty kvs (- 1) r"
    using found_next [OF assms(1) order_refl len(2)] zero assms(2) wf_count [OF assms(1)] by auto
  have n: "0 \<le> r" "r < num_dicts kvs" "0 < sizes kvs (nat r)" "\<forall>j. int j < r \<longrightarrow> sizes kvs j = 0"
    using r(2,3) by (auto simp: next_non_empty_def)
  have "[0..<?N] = [0..<nat r] @ [nat r..<?N]" using upt_add_eq_append [of 0 "nat r" "?N - nat r"] n(1,2) len by simp
  moreover have "sizes kvs x = 0" if "x < nat r" for x
  proof -
    have "int x < r" using that by linarith
    then show ?thesis using n(4) by blast
  qed
  then have "filter ?F [0..<nat r] = []" by (auto simp: filter_empty_conv)
  ultimately have "filter ?F [0..<?N] = filter ?F [nat r..<?N]" by simp
  then show ?thesis using r(1) n by blast
qed

text \<open>In an empty store the traversal only meets the first dictionary, if it is allocated.\<close>

lemma empty_visits:
  assumes "kvs_wf kvs" "key_count kvs = 0"
  shows "iterator_visits kvs = map_option (\<lambda>kvs'. (kvs', if dicts kvs ! 0 = None then [] else [0])) (freeDictIfNeeded kvs 0)"
proof -
  have len: "0 < num_dicts kvs" using wf_length [OF assms(1)] by simp
  have s: "sizes kvs j = 0" for j
    using range_sum_0 [of "sizes kvs" 0 "num_dicts kvs" j] wf_count [OF assms(1)] assms(2) sizes_outside [OF assms(1), of j]
    by (cases "int j < num_dicts kvs") (auto simp: range_one)
  obtain r where r: "kvstoreGetNextNonEmptyDictIndex kvs 0 = Some r" "next_non_empty kvs 0 r" using wf_next [OF assms(1), of 0] len by auto
  have "r = - 1" using r(2) s by (auto simp: next_non_empty_def split: if_splits)
  then have next0: "kvstoreIteratorNextDict kvs \<lparr>it_didx = - 1, it_next_didx = 0\<rparr> = Some (kvs, \<lparr>it_didx = 0, it_next_didx = - 1\<rparr>, dicts kvs ! 0)"
    using r(1) store_index [OF assms(1), of 0] len by (simp add: kvstoreIteratorNextDict_def)
  have "kvstoreFindDictIndexByKeyIndex kvs 1 = Some 0"
    using wf_size [OF assms(1)] wf_count [OF assms(1)] assms(2) by (simp add: kvstoreFindDictIndexByKeyIndex_def)
  then have init: "kvstoreIteratorInit kvs = Some \<lparr>it_didx = - 1, it_next_didx = 0\<rparr>"
    by (simp add: kvstoreIteratorInit_def kvstoreGetFirstNonEmptyDictIndex_def)
  have "iterator_loop kvs \<lparr>it_didx = - 1, it_next_didx = 0\<rparr> =
    Some (kvs, \<lparr>it_didx = 0, it_next_didx = - 1\<rparr>, if dicts kvs ! 0 = None then [] else [0])"
    using iterator_end [of kvs 0] by (subst iterator_loop.simps) (simp add: next0)
  then show ?thesis using init
    by (simp add: iterator_visits_def kvstoreIteratorRelease_def map_conv_bind_option comp_def)
qed

text \<open>
  C15. Iterating over the dictionaries of a store ends and visits exactly the dictionaries that are not empty, each once and
  in the order of their indices, and leaves the store as it is, whether there are many dictionaries or a single one, for which
  the code takes other branches. Only in an empty store the first dictionary is visited although it is empty, if it is
  allocated, and it is freed with the iterator when the store frees empty dictionaries.
\<close>

theorem iterator_visits_non_empty:
  assumes "kvs_wf kvs"
  shows "\<exists>kvs'. iterator_visits kvs = Some (kvs',
      if 0 < key_count kvs then map int (filter (\<lambda>j. 0 < sizes kvs j) [0..<length (dicts kvs)])
      else if dicts kvs ! 0 = None then [] else [0]) \<and>
    (if 0 < key_count kvs then kvs' = kvs else freeDictIfNeeded kvs 0 = Some kvs')"
proof (cases "0 < key_count kvs")
  case True
  obtain r where r: "kvstoreFindDictIndexByKeyIndex kvs 1 = Some r" "0 \<le> r" "r < num_dicts kvs" "0 < sizes kvs (nat r)"
    "filter (\<lambda>j. 0 < sizes kvs j) [0..<length (dicts kvs)] = filter (\<lambda>j. 0 < sizes kvs j) [nat r..<length (dicts kvs)]"
    using first_visit [OF assms True] by blast
  obtain e where e: "iterator_loop kvs \<lparr>it_didx = - 1, it_next_didx = r\<rparr> =
      Some (kvs, \<lparr>it_didx = e, it_next_didx = - 1\<rparr>, map int (filter (\<lambda>j. 0 < sizes kvs j) [nat r..<length (dicts kvs)]))"
    "0 \<le> e" "e < num_dicts kvs" "0 < sizes kvs (nat e)" using iterator_loop_visits [OF assms r(2,3,4), of "- 1"] by auto
  show ?thesis using r(1,5) e(1) non_empty_dict [OF assms e(2,3,4)] True
    by (auto simp: iterator_visits_def kvstoreIteratorInit_def kvstoreGetFirstNonEmptyDictIndex_def kvstoreIteratorRelease_def)
next
  case False
  have "\<exists>kvs'. freeDictIfNeeded kvs 0 = Some kvs'" using store_index [OF assms, of 0] wf_length [OF assms]
    by (auto simp: freeDictIfNeeded_def kvstoreDictSize_def kvstoreDictIsRehashingPaused_def)
  then show ?thesis using empty_visits [OF assms] False by auto
qed

text \<open>An iterator that is released before it was ever moved has the index \<open>-1\<close>, which is read from the array of dictionaries.\<close>

theorem release_before_next:
  assumes "kvstoreIteratorInit kvs = Some kvs_it" "free_empty_dicts kvs"
  shows "kvstoreIteratorRelease kvs kvs_it = None"
  using assms by (auto simp: kvstoreIteratorInit_def kvstoreIteratorRelease_def freeDictIfNeeded_def kvstoreGetDict_def at_def
      split: Option.bind_splits)

text \<open>
  C25. The key number \<open>target\<close> (counted from 1, dictionary after dictionary) lies in the dictionary
  \<^verbatim>\<open>kvstoreFindDictIndexByKeyIndex\<close> returns; so a random target picks a dictionary with probability proportional to its
  size, and never an empty one.
\<close>

theorem kvstoreFindDictIndexByKeyIndex_range:
  assumes "kvs_wf kvs" "0 < target" "target \<le> key_count kvs"
  shows "\<exists>r. kvstoreFindDictIndexByKeyIndex kvs target = Some r \<and> 0 \<le> r \<and> r < num_dicts kvs \<and>
    (\<Sum>j<nat r. sizes kvs j) < target \<and> target \<le> (\<Sum>j<nat r. sizes kvs j) + sizes kvs (nat r)"
proof -
  have k: "target \<le> range_sum (sizes kvs) 0 (num_dicts kvs)" using assms(1,3) unfolding kvs_wf_def by auto
  obtain r where r: "kvstoreFindDictIndexByKeyIndex kvs target = Some r" "0 \<le> r" "r < num_dicts kvs"
    "range_sum (sizes kvs) 0 r < target" "target \<le> range_sum (sizes kvs) 0 (r + 1)"
    using wf_find [OF assms(1,2) k] by blast
  then show ?thesis using range_sum_Suc [OF r(2), of "sizes kvs"] by (auto simp: range_sum_def atLeast0LessThan)
qed

subsection \<open>An example\<close>

text \<open>Dictionaries of which only the number of entries in each table matters.\<close>

definition sized :: "nat \<Rightarrow> nat \<Rightarrow> (nat, nat) dict" where
  "sized a b = dictCreate\<lparr>ht0 := reset_htab\<lparr>ht_used := a\<rparr>, ht1 := reset_htab\<lparr>ht_used := b\<rparr>\<rparr>"

lemma dictSize_sized [simp]: "dictSize (sized a b) = a + b"
  by (simp add: sized_def dictSize_def)

definition demo_kvs :: "(nat, nat) kvstore" where
  "demo_kvs = \<lparr>dicts = [Some (sized 0 0), Some (sized 2 1), None, Some (sized 4 0)],
     num_dicts = 4, num_dicts_bits = 2, non_empty_dicts = 2, key_count = 7, dict_size_index = [0, 0, 3, 0, 7],
     allocated_dicts = 3, free_empty_dicts = False\<rparr>"

lemma demo_fields: "length (dicts demo_kvs) = 4" "num_dicts demo_kvs = 4" "num_dicts_bits demo_kvs = 2"
  "non_empty_dicts demo_kvs = 2" "key_count demo_kvs = 7" "dict_size_index demo_kvs = [0, 0, 3, 0, 7]"
  by (simp_all add: demo_kvs_def)

lemma demo_sizes: "sizes demo_kvs 0 = 0" "sizes demo_kvs 1 = 3" "sizes demo_kvs 2 = 0" "sizes demo_kvs 3 = 4"
  by (simp_all add: sizes_def demo_kvs_def)

lemma demo_ranges: "range_sum (sizes demo_kvs) 0 1 = 0" "range_sum (sizes demo_kvs) 0 2 = 3"
  "range_sum (sizes demo_kvs) 2 3 = 0" "range_sum (sizes demo_kvs) 0 4 = 7"
proof -
  have r: "{0..<1} = {0 :: nat}" "{0..<2} = {0, 1 :: nat}" "{2..<3} = {2 :: nat}" "{0..<4} = {0, 1, 2, 3 :: nat}" by auto
  show "range_sum (sizes demo_kvs) 0 1 = 0" "range_sum (sizes demo_kvs) 0 2 = 3"
    "range_sum (sizes demo_kvs) 2 3 = 0" "range_sum (sizes demo_kvs) 0 4 = 7"
    unfolding range_sum_def by (simp_all add: r demo_sizes [simplified] del: One_nat_def) (simp_all add: demo_sizes [simplified])
qed

lemma demo_wf: "kvs_wf demo_kvs"
proof -
  have l: "lowbit 1 = 1" "lowbit 2 = 2" "lowbit 3 = 1" "lowbit 4 = 4" by (simp_all add: lowbit_def)
  have c: "i = 1 \<or> i = 2 \<or> i = 3 \<or> i = 4" if "0 < i" "i \<le> 4" for i :: int using that by linarith
  have t: "tree [0, 0, 3, 0, 7] 4 (sizes demo_kvs)"
    unfolding tree_def using l demo_ranges c by fastforce
  have "{j. j < 4 \<and> 0 < sizes demo_kvs j} = {1, 3}"
  proof -
    have "j = 0 \<or> j = 1 \<or> j = 2 \<or> j = 3" if "j < 4" for j :: nat using that by linarith
    then show ?thesis using demo_sizes by fastforce
  qed
  then have "card {j. j < 4 \<and> 0 < sizes demo_kvs j} = 2" by simp
  then show ?thesis using t demo_ranges(4) unfolding kvs_wf_def demo_fields by simp
qed

theorem cumulativeKeyCountAdd_wf_witness:
  "\<exists>kvs'. cumulativeKeyCountAdd (demo_kvs\<lparr>dicts := (dicts demo_kvs)[2 := Some (sized 1 0)]\<rparr>) 2 1 = Some kvs' \<and>
    kvs_wf kvs' \<and> sizes kvs' 2 = 1"
  using cumulativeKeyCountAdd_wf [OF demo_wf, of 2 1 "sized 1 0"] demo_sizes(3)
  by (auto simp: demo_fields)

theorem iterator_visits_non_empty_witness: "iterator_visits demo_kvs = Some (demo_kvs, [1, 3])"
proof -
  have "[0..<4] = [0, 1, 2, 3]" by (simp add: upt_rec)
  then have "map int (filter (\<lambda>j. 0 < sizes demo_kvs j) [0..<length (dicts demo_kvs)]) = [1, 3]"
    unfolding demo_fields using demo_sizes by simp
  then show ?thesis using iterator_visits_non_empty [OF demo_wf] by (simp add: demo_fields)
qed

theorem kvstoreFindDictIndexByKeyIndex_range_witness:
  "\<exists>r. kvstoreFindDictIndexByKeyIndex demo_kvs 4 = Some r \<and> 0 \<le> r \<and> r < 4"
  using kvstoreFindDictIndexByKeyIndex_range [OF demo_wf, of 4] by (auto simp: demo_fields)

end
