(* ===== verification/Kvstore_Dict.thy ===== *)
theory Kvstore_Dict
  imports Kvstore
begin

text \<open>
  The operations of \<^verbatim>\<open>redis-stable/src/kvstore.c\<close> that pass through to a dictionary of \<^verbatim>\<open>dict.c\<close>: adding, finding and deleting
  a key in the dictionary of an index, with the dictionaries created and freed on the way and the counters of the store kept.
\<close>

section \<open>Definitions\<close>


definition kvstoreDictFind ::
    "('k, 'v) dictType \<Rightarrow> dictResizeEnable \<Rightarrow> ('k, 'v) kvstore \<Rightarrow> int \<Rightarrow> 'k \<Rightarrow> (('k, 'v) kvstore \<times> ('k, 'v) dictEntry option) option" where
  "kvstoreDictFind ty can_resize kvs didx key =
    do {
      d \<leftarrow> kvstoreGetDict kvs didx;
      case d of
        None \<Rightarrow> Some (kvs, None)
      | Some d \<Rightarrow> do { (d, de) \<leftarrow> dictFind ty can_resize d key; Some (set_dict kvs didx (Some d), de) }
    }"


section \<open>The store as a family of maps\<close>








text \<open>The dictionary of one index replaced, created or freed, with the count of dictionaries adjusted.\<close>

definition one :: "'a option \<Rightarrow> int" where
  "one d = (if d = None then 0 else 1)"

lemma one_simps [simp]: "one None = 0" "one (Some d) = 1"
  by (simp_all add: one_def)







section \<open>Properties\<close>









end
