(* ===== verification/Spec2Isabelle.thy ===== *)
theory Spec2Isabelle
  imports Intset Listpack_Validate Notify Rand Siphash Slowlog Localtime Crc16 Dict_Scan Dict_Set Kvstore_Dict
begin

text \<open>
  A verification library for the core of the Redis server (\<^verbatim>\<open>redis-stable/src\<close>): the compact encodings its values are
  stored in, the containers the server is built from, and the small algorithms they rest on.

  \<^bold>\<open>The program.\<close> Redis keeps every key in a dictionary of a \<^verbatim>\<open>kvstore\<close> (\<^verbatim>\<open>kvstore.c\<close>, one dictionary per
  cluster slot); the dictionaries are hash tables that are rehashed incrementally (\<^verbatim>\<open>dict.c\<close>, hashed with
  \<^verbatim>\<open>siphash.c\<close>), and the slot of a key is a checksum of its hash tag (\<^verbatim>\<open>crc16.c\<close>, \<^verbatim>\<open>cluster.h\<close>). Small sets of integers are an \<^verbatim>\<open>intset\<close> (\<^verbatim>\<open>intset.c\<close>), small sets, lists, hashes
  and sorted sets are a \<^verbatim>\<open>listpack\<close> (\<^verbatim>\<open>listpack.c\<close>), one block of bytes that is also the form in which the value is saved and
  sent to replicas. Numbers in commands and in these encodings go through the conversions of \<^verbatim>\<open>util.c\<close>. The server keeps its
  queues and logs in doubly linked lists (\<^verbatim>\<open>adlist.c\<close>); the slow log (\<^verbatim>\<open>slowlog.c\<close>) is one of them. Changes of keys are
  announced by \<^verbatim>\<open>notify.c\<close>; scripts draw random numbers from \<^verbatim>\<open>rand.c\<close>; log lines are dated by \<^verbatim>\<open>localtime.c\<close>.

  \<^bold>\<open>How code is modelled.\<close> A block of memory is the list of its bytes (\<^typ>\<open>8 word\<close>) and a pointer into it an offset;
  linked nodes live in a map from addresses to nodes. An access outside a block, through NULL or to a freed node, a failed
  assertion and a loop that does not end are the value \<^term>\<open>None\<close> of the operation, so every theorem that an operation
  returns \<^term>\<open>Some\<close> is also a theorem of memory safety and of termination; a NULL that the code returns on purpose is a
  value inside that result. Unsigned 32 bit arithmetic of the formats wraps where the code can reach the wrap
  (\<open>u32add\<close>, \<open>u32sub\<close>); hashes are computed on \<^typ>\<open>64 word\<close>; signed 64 bit values are integers with the predicate
  \<open>int64\<close>. The allocator is a parameter: how many bytes it gives beyond the request and what they hold for blocks, which
  unused address it picks for nodes. Iterative code is a recursive function with a termination proof, or a
  \<^theory_text>\<open>partial_function\<close> whose result is proved to exist where its end depends on the data. Fuel is used twice: the loop that forces a full
  rehash gets one call per bucket of the old table and one more (\<open>dictRehash_progress\<close> shows that it ends by then), and the
  loop of \<^verbatim>\<open>dictScan\<close> over the larger table one round per bucket of that table (\<open>dictScan_step\<close> shows that it is enough).

  \<^bold>\<open>The theories.\<close>
  \<^item> \<open>Prelude\<close>: bytes, little-endian numbers, two's complement, blocks, \<^verbatim>\<open>memmove\<close>, \<^verbatim>\<open>zrealloc\<close>.
  \<^item> \<open>Interfaces\<close>: the contracts between components as locales. \<open>bounded_set\<close> is a set with a capacity and \<open>sized_set\<close> one
    that knows its size, with the loops of commands that add or remove many arguments; \<open>deque\<close> is a double-ended queue, with
    the loop that trims it. \<open>Intset\<close> and \<open>Dict_Set\<close> provide the sets (interpretations \<open>iset\<close>, \<open>isized\<close> and \<open>dset\<close>), \<open>Adlist\<close> the
    queue (interpretation \<open>adl\<close>), and \<open>Slowlog\<close> is its client.
  \<^item> \<open>Util\<close> (\<^verbatim>\<open>util.c\<close>): \<^verbatim>\<open>ll2string\<close> and \<^verbatim>\<open>string2ll\<close> are inverse to each other on 64 bit integers and canonical
    decimal strings, and never write outside the buffer.
  \<^item> \<open>Intset\<close> (\<^verbatim>\<open>intset.c\<close>): every operation keeps the sorted array of one width; add, remove and find refine the
    operations on finite sets; validation accepts exactly the well-formed blobs, and leaves the blob only when it has more than
    \<open>2 ^ 31\<close> elements; the 32 bit byte count of \<^verbatim>\<open>intsetMoveTail\<close> wraps at \<open>2 ^ 29\<close> elements.
  \<^item> \<open>Listpack\<close> (definitions, \<^verbatim>\<open>listpack.c\<close>), \<open>Listpack_Entry\<close> (encodings of one entry and of its back length),
    \<open>Listpack_Refine\<close> and \<open>Listpack_Ops\<close> (traversal and update against the list of encoded entries),
    \<open>Listpack_Strings\<close> (the same operations against the list of strings), \<open>Listpack_Validate\<close> (validation of untrusted
    bytes is safe, sound and complete).
  \<^item> \<open>Adlist\<close> (\<^verbatim>\<open>adlist.c\<close>) and \<open>Slowlog\<close> (\<^verbatim>\<open>slowlog.c\<close>): the list operations on an explicit store of nodes keep lists
    well linked in both directions, free what they delete and nothing else, and leave other nodes alone; the slow log keeps
    the newest entries with decreasing ids.
  \<^item> \<open>Kvstore\<close> (\<^verbatim>\<open>kvstore.c\<close>): the binary indexed tree of dictionary sizes stays right under updates, finds the
    dictionary of the n-th key, and leads the iterator through exactly the dictionaries that are not empty, in stores of one
    dictionary (which have no tree) and of many. \<open>Kvstore_Dict\<close> composes it with \<open>Dict\<close>: adding and deleting a key through the
    store changes one dictionary as a finite map, creates and frees it when it should, and keeps the counters right.
  \<^item> \<open>Dict\<close> (definitions, \<^verbatim>\<open>dict.c\<close>), \<open>Dict_Inv\<close> (the invariant of the two tables and the move of one chain),
    \<open>Dict_Rehash\<close> and \<open>Dict_Search\<close> (rehashing and resizing keep the contents, the search is exact), \<open>Dict_Map\<close> (insertion,
    lookup, replacement and deletion refine a finite map whatever they rehash on the way; rehashing ends), \<open>Dict_Set\<close> (sets
    of \<^verbatim>\<open>t_set.c\<close> stored as dictionaries without values keep the contract of a set, with the loops of \<^verbatim>\<open>SADD\<close> and \<^verbatim>\<open>SREM\<close>) and \<open>Dict_Scan\<close>
    (an iteration with \<^verbatim>\<open>dictScan\<close> returns every key that stays, across any resizes between its calls).
  \<^item> \<open>Crc16\<close> (\<^verbatim>\<open>crc16.c\<close>, \<^verbatim>\<open>keyHashSlot\<close> of \<^verbatim>\<open>cluster.h\<close>): the table-driven checksum is the bitwise division, and the slot is
    that of the hash tag.
  \<^item> \<open>Siphash\<close> (\<^verbatim>\<open>siphash.c\<close>): the hash is SipHash-1-2 as published, a reference written without the
    definitions of the code, and its case-insensitive variant hashes the lower-case input.
  \<^item> \<open>Notify\<close> (\<^verbatim>\<open>notify.c\<close>), \<open>Rand\<close> (\<^verbatim>\<open>rand.c\<close>), \<open>Localtime\<close> (\<^verbatim>\<open>localtime.c\<close>): flags and letters of events and the
    published messages, the 48 bit generator against its arithmetic definition, the dates against the Gregorian calendar.

  \<^bold>\<open>Bounds.\<close> The refinement theorems about listpacks ask that the new block stays below \<open>2 ^ 32\<close> bytes, as the code itself
  does before it allocates; the theorems about intsets ask for fewer than \<open>2 ^ 29\<close> elements (the code that uses intsets
  allows \<open>2 ^ 30\<close>, which is the finding recorded with \<open>intsetMoveTail_wraps\<close>). A \<open>kvstore\<close> has at most \<open>2 ^ 16\<close>
  dictionaries, which the code asserts. A table of a dictionary has at most \<open>2 ^ 60\<close> buckets, the largest size for which
  \<^verbatim>\<open>_dictResize\<close> does not report an overflow. Dates are right as long as the year is a C \<^verbatim>\<open>int\<close>
  (\<open>max_days\<close>); beyond, and when the adjustment for the time zone overflows, the model is \<^term>\<open>None\<close>. Counters of list nodes and keys are natural numbers: they count objects in memory.

  \<^bold>\<open>What is not modelled.\<close> The event loop, networking, threads, the process side of persistence and replication, and the
  third-party code under \<^verbatim>\<open>deps\<close>. Of the files above: the random sampling functions and the printing of a listpack, the
  glob matcher and the floating point conversions of \<^verbatim>\<open>util.c\<close>, the iteration over entries, resizing, statistics and
  the list of rehashing dictionaries of \<^verbatim>\<open>kvstore.c\<close>, and of \<^verbatim>\<open>dict.c\<close> the iterators, random keys, statistics, defragmentation
  and the freeing of keys, values and tables. \<^verbatim>\<open>quicklist.c\<close>, \<^verbatim>\<open>rax.c\<close>, \<^verbatim>\<open>sds.c\<close> and the command implementations are not modelled beyond the
  dictionary encoding and the loops over arguments of \<^verbatim>\<open>t_set.c\<close>.
\<close>

end
